(* ===== verification/Pali_Prelude.thy ===== *)
theory Pali_Prelude
  imports Main "HOL-Library.AList" "HOL-Library.Signed_Division" "HOL-Library.List_Lexorder"
    "HOL-Library.Char_ord" "HOL-Library.Product_Lexorder" "HOL-Library.Multiset"
begin

text \<open>
  The vocabulary the component theories share: the JavaScript values the node's code computes
  with, and the generic facts about them.

  \<^item> A \<^verbatim>\<open>bigint\<close> is an \<open>int\<close>. Its division truncates towards zero, which is \<open>sdiv\<close>; on
    non-negative operands that is \<open>div\<close>.
  \<^item> A \<^verbatim>\<open>Hex\<close> string or an identifier is a \<open>string\<close> of ASCII characters;
    \<open>toLowerCase\<close> maps \<^verbatim>\<open>A\<close>--\<^verbatim>\<open>Z\<close> to \<^verbatim>\<open>a\<close>--\<^verbatim>\<open>z\<close> and leaves the rest; \<open><\<close> on
    strings is the lexicographic order of the character codes.
  \<^item> A \<^verbatim>\<open>Map\<close> iterates in insertion order, and \<^verbatim>\<open>set\<close> on a present key keeps its place, so it is
    an association list with \<open>AList.update\<close> and \<open>AList.delete\<close>. A \<^verbatim>\<open>Set\<close> is a list
    without repetitions, extended at its end.
  \<^item> \<^verbatim>\<open>Array.prototype.sort\<close> is stable, so sorting by a key is \<open>sort_key\<close>.
\<close>

named_theorems jsmap_simps \<open>lookups, sizes and keys of insertion-ordered maps after an update\<close>
named_theorems step_defs \<open>the operations that a component's step function dispatches to\<close>

type_synonym bigint = int
type_synonym hex = string
type_synonym ('k, 'v) jsmap = "('k \<times> 'v) list"

abbreviation jget :: "('k, 'v) jsmap \<Rightarrow> 'k \<Rightarrow> 'v option" where
  "jget \<equiv> map_of"

abbreviation jset :: "'k \<Rightarrow> 'v \<Rightarrow> ('k, 'v) jsmap \<Rightarrow> ('k, 'v) jsmap" where
  "jset \<equiv> AList.update"

abbreviation jdel :: "'k \<Rightarrow> ('k, 'v) jsmap \<Rightarrow> ('k, 'v) jsmap" where
  "jdel \<equiv> AList.delete"

abbreviation jhas :: "('k, 'v) jsmap \<Rightarrow> 'k \<Rightarrow> bool" where
  "jhas m k \<equiv> map_of m k \<noteq> None"

definition jmap_ok :: "('k, 'v) jsmap \<Rightarrow> bool" where
  "jmap_ok m \<longleftrightarrow> distinct (map fst m)"

definition lower_char :: "char \<Rightarrow> char" where
  "lower_char c =
     (if 65 \<le> (of_char c :: nat) \<and> (of_char c :: nat) \<le> 90 then char_of ((of_char c :: nat) + 32) else c)"

definition toLowerCase :: "string \<Rightarrow> string" where
  "toLowerCase s = map lower_char s"

definition set_add :: "'a \<Rightarrow> 'a list \<Rightarrow> 'a list" where
  "set_add x xs = (if x \<in> set xs then xs else xs @ [x])"

definition get_or :: "'v \<Rightarrow> ('k, 'v) jsmap \<Rightarrow> 'k \<Rightarrow> 'v" where
  "get_or d m k = (case jget m k of None \<Rightarrow> d | Some v \<Rightarrow> v)"

text \<open>
  \<^verbatim>\<open>xs.findIndex(P)\<close>, with the index \<open>-1\<close> as \<open>None\<close>; \<^verbatim>\<open>xs.splice(i, 1)\<close>; and the truth
  value of an optional string, which is false for \<^verbatim>\<open>undefined\<close> and for the empty string.
\<close>

fun findIndex :: "('a \<Rightarrow> bool) \<Rightarrow> 'a list \<Rightarrow> nat option" where
  "findIndex P [] = None"
| "findIndex P (x # xs) = (if P x then Some 0 else map_option Suc (findIndex P xs))"

definition splice_out :: "nat \<Rightarrow> 'a list \<Rightarrow> 'a list" where
  "splice_out i xs = take i xs @ drop (Suc i) xs"

definition truthy :: "string option \<Rightarrow> bool" where
  "truthy s \<longleftrightarrow> s \<noteq> None \<and> s \<noteq> Some []"

text \<open>Decimal printing, as \<^verbatim>\<open>toString()\<close> of a \<^verbatim>\<open>bigint\<close> does it.\<close>

fun show_nat :: "nat \<Rightarrow> string" where
  "show_nat n = (if n < 10 then [char_of (48 + n)] else show_nat (n div 10) @ [char_of (48 + n mod 10)])"

declare show_nat.simps [simp del]

definition show_int :: "int \<Rightarrow> string" where
  "show_int i = (if i < 0 then CHR ''-'' # show_nat (nat (- i)) else show_nat (nat i))"

text \<open>\<^verbatim>\<open>BigInt(s)\<close> of a decimal string.\<close>

definition read_nat :: "string \<Rightarrow> nat" where
  "read_nat s = foldl (\<lambda>n c. 10 * n + (of_char c - 48)) 0 s"

definition read_int :: "string \<Rightarrow> int" where
  "read_int s = (case s of [] \<Rightarrow> 0 | c # cs \<Rightarrow> if c = CHR ''-'' then - int (read_nat cs) else int (read_nat s))"

text \<open>The order of a key that is sorted descending.\<close>

datatype 'a down = Down 'a

instantiation down :: (linorder) linorder
begin

fun less_eq_down :: "'a down \<Rightarrow> 'a down \<Rightarrow> bool" where
  "Down a \<le> Down b \<longleftrightarrow> b \<le> a"

fun less_down :: "'a down \<Rightarrow> 'a down \<Rightarrow> bool" where
  "Down a < Down b \<longleftrightarrow> b < a"

instance
proof
  fix x y z :: "'a down"
  show "(x < y) = (x \<le> y \<and> \<not> y \<le> x)" by (cases x; cases y) auto
  show "x \<le> x" by (cases x) simp
  show "x \<le> y \<Longrightarrow> y \<le> z \<Longrightarrow> x \<le> z" by (cases x; cases y; cases z) auto
  show "x \<le> y \<Longrightarrow> y \<le> x \<Longrightarrow> x = y" by (cases x; cases y) auto
  show "x \<le> y \<or> y \<le> x" by (cases x; cases y) auto
qed

end

text \<open>The state of an object changed by a method that either throws or returns a value.\<close>

type_synonym ('e, 's, 'a) outcome = "'s \<times> ('e + 'a)"


section \<open>Truncating division\<close>

lemma sdiv_nonneg [simp]: "0 \<le> a \<Longrightarrow> 0 \<le> b \<Longrightarrow> a sdiv b = (a div b :: int)"
  by (auto simp: signed_divide_int_def sgn_if)

lemma abs_sdiv: "\<bar>a sdiv b\<bar> = \<bar>a\<bar> div \<bar>b :: int\<bar>"
proof -
  have "0 \<le> \<bar>a\<bar> div \<bar>b\<bar>"
    by (cases "b = 0") (simp_all add: pos_imp_zdiv_nonneg_iff)
  then show ?thesis
    by (auto simp: signed_divide_int_def abs_mult sgn_if)
qed

lemma int_div_less:
  assumes "0 < q" and "m < n * (q :: int)"
  shows "m div q < n"
proof -
  have "q * (m div q) \<le> m"
    using assms(1) by (simp add: minus_mod_eq_mult_div [symmetric])
  then have "(m div q) * q < n * q"
    using assms(2) by (simp add: mult.commute)
  then show ?thesis
    using assms(1) by (simp add: mult_less_cancel_right)
qed

lemma div_mono_int: "0 < c \<Longrightarrow> a \<le> b \<Longrightarrow> a div c \<le> (b div c :: int)"
  by (simp add: zdiv_mono1)


section \<open>Strings and insertion-ordered maps\<close>

lemma lower_char_idem [simp]: "lower_char (lower_char c) = lower_char c"
proof (cases "65 \<le> (of_char c :: nat) \<and> (of_char c :: nat) \<le> 90")
  case True
  then have "(of_char (char_of ((of_char c :: nat) + 32) :: char) :: nat) = of_char c + 32"
    by (simp add: of_char_of)
  with True show ?thesis by (simp add: lower_char_def)
next
  case False
  then show ?thesis by (auto simp: lower_char_def)
qed

lemma toLowerCase_idem [simp]: "toLowerCase (toLowerCase s) = toLowerCase s"
  by (simp add: toLowerCase_def)

lemma length_toLowerCase [simp]: "length (toLowerCase s) = length s"
  by (simp add: toLowerCase_def)

lemma toLowerCase_Nil_iff [simp]: "toLowerCase s = [] \<longleftrightarrow> s = []"
  by (simp add: toLowerCase_def)

lemma jget_jset [jsmap_simps, simp]: "jget (jset k v m) = (jget m)(k \<mapsto> v)"
  by (rule update_conv')

lemma jget_jdel [jsmap_simps, simp]: "jget (jdel k m) = (jget m)(k := None)"
  by (rule delete_conv')

lemma jkeys_jset [jsmap_simps, simp]: "fst ` set (jset k v m) = insert k (fst ` set m)"
  by (simp add: dom_update)

lemma jkeys_jdel [jsmap_simps, simp]: "fst ` set (jdel k m) = fst ` set m - {k}"
  using arg_cong [OF delete_keys [of k m], of set] by (simp add: set_removeAll)

lemma jmap_ok_Nil [jsmap_simps, simp]: "jmap_ok []"
  by (simp add: jmap_ok_def)

lemma jmap_ok_jset [jsmap_simps, simp]: "jmap_ok m \<Longrightarrow> jmap_ok (jset k v m)"
  by (simp add: jmap_ok_def distinct_update)

lemma jmap_ok_jdel [jsmap_simps, simp]: "jmap_ok m \<Longrightarrow> jmap_ok (jdel k m)"
  by (simp add: jmap_ok_def distinct_delete)

lemma jmap_ok_filter [jsmap_simps, simp]: "jmap_ok m \<Longrightarrow> jmap_ok (filter P m)"
  by (auto simp: jmap_ok_def distinct_map inj_on_def)

lemma jget_filter:
  "jmap_ok m \<Longrightarrow> jget (filter P m) k = (case jget m k of None \<Rightarrow> None | Some v \<Rightarrow> if P (k, v) then Some v else None)"
  by (induction m) (auto simp: jmap_ok_def split: option.splits dest: map_of_SomeD intro: rev_image_eqI)

lemma jget_iff: "jmap_ok m \<Longrightarrow> jget m k = Some v \<longleftrightarrow> (k, v) \<in> set m"
  by (simp add: jmap_ok_def)

lemma jhas_iff: "(\<exists>v. jget m k = Some v) \<longleftrightarrow> k \<in> fst ` set m"
  using map_of_eq_None_iff [of m k] by auto

lemma jball_iff: "jmap_ok m \<Longrightarrow> (\<forall>(k, v)\<in>set m. P k v) \<longleftrightarrow> (\<forall>k v. jget m k = Some v \<longrightarrow> P k v)"
  by (auto simp: jget_iff)

lemma jget_jdels [jsmap_simps, simp]:
  "jget (foldl (\<lambda>m k. jdel k m) m ks) k = (if k \<in> set ks then None else jget m k)"
  by (induction ks arbitrary: m) auto

lemma get_or_Some: "jget m k = Some v \<Longrightarrow> get_or d m k = v"
  by (simp add: get_or_def)

lemma get_or_default: "get_or d m k \<noteq> d \<Longrightarrow> get_or d' m k = get_or d m k"
  by (simp add: get_or_def split: option.splits)

text \<open>A loop that rewrites entries of a map in place, one for each of its values.\<close>

lemma jset_at: "k \<notin> fst ` set xs \<Longrightarrow> jset k v (xs @ (k, v0) # ys) = xs @ (k, v) # ys"
  by (induction xs) auto

lemma jset_fresh: "k \<notin> fst ` set m \<Longrightarrow> jset k v m = m @ [(k, v)]"
  by (induction m) auto

lemma rewrite_values_aux:
  assumes "distinct (map fst (pre @ suf))" and "\<forall>(k, v)\<in>set suf. key v = k" and "map fst pre' = map fst pre"
  shows "foldl (\<lambda>m v. if P v then jset (key v) (f v) m else m) (pre' @ suf) (map snd suf) =
    pre' @ map (\<lambda>(k, v). (k, if P v then f v else v)) suf"
  using assms
proof (induction suf arbitrary: pre pre')
  case (Cons e suf)
  obtain k v where e: "e = (k, v)" by fastforce
  have "k \<notin> set (map fst pre')" unfolding Cons.prems(3) using Cons.prems(1) e by auto
  then have upd: "jset (key v) (f v) (pre' @ e # suf) = (pre' @ [(k, f v)]) @ suf"
    using Cons.prems(2) e jset_at [of k pre' "f v" v suf] by simp
  show ?case
    using Cons.IH [of "pre @ [e]" "pre' @ [(k, if P v then f v else v)]"] Cons.prems e upd
    by (cases "P v") simp_all
qed simp

lemma rewrite_values:
  assumes "jmap_ok m" and "\<forall>(k, v)\<in>set m. key v = k"
  shows "foldl (\<lambda>m v. if P v then jset (key v) (f v) m else m) m (map snd m) =
    map (\<lambda>(k, v). (k, if P v then f v else v)) m"
  using rewrite_values_aux [of "[]" m key "[]" P f] assms by (simp add: jmap_ok_def)

lemma foldl_filter: "foldl g a (filter P xs) = foldl (\<lambda>a x. if P x then g a x else a) a xs"
  by (induction xs arbitrary: a) auto

lemma get_or_jset [simp]: "get_or d (jset k v m) i = (if i = k then v else get_or d m i)"
  by (simp add: get_or_def)

lemma foldl_add_sum_list: "foldl (\<lambda>s x. s + f x) (a :: int) xs = a + sum_list (map f xs)"
  by (induction xs arbitrary: a) (simp_all add: add.assoc)

lemma set_set_add [simp]: "set (set_add x xs) = insert x (set xs)"
  by (auto simp: set_add_def)

lemma distinct_set_add [simp]: "distinct xs \<Longrightarrow> distinct (set_add x xs)"
  by (simp add: set_add_def)

lemma findIndex_None: "findIndex P xs = None \<longleftrightarrow> (\<forall>x\<in>set xs. \<not> P x)"
  by (induction xs) auto

lemma findIndex_Some: "findIndex P xs = Some i \<Longrightarrow> i < length xs \<and> P (xs ! i)"
  by (induction xs arbitrary: i) (auto split: if_splits)

lemma mset_splice_out: "i < length xs \<Longrightarrow> mset xs = add_mset (xs ! i) (mset (splice_out i xs))"
  unfolding splice_out_def by (subst id_take_nth_drop [of i xs]) (simp_all add: ac_simps)

lemma length_splice_out [simp]: "i < length xs \<Longrightarrow> length (splice_out i xs) = length xs - 1"
  by (simp add: splice_out_def)

lemma set_splice_out: "set (splice_out i xs) \<subseteq> set xs"
  by (auto simp: splice_out_def dest: in_set_takeD in_set_dropD)


section \<open>Decimal printing\<close>

lemma of_char_digit: "d < 10 \<Longrightarrow> (of_char (char_of (48 + d) :: char) :: nat) = 48 + d"
  by (simp add: of_char_of)

lemma read_show_nat [simp]: "read_nat (show_nat n) = n"
proof (induction n rule: show_nat.induct)
  case (1 n)
  show ?case
    using 1 of_char_digit [of n] of_char_digit [of "n mod 10"]
    by (subst show_nat.simps) (auto simp: read_nat_def)
qed

lemma show_nat_inj [simp]: "show_nat m = show_nat n \<longleftrightarrow> m = n"
  by (metis read_show_nat)

lemma show_nat_digits: "c \<in> set (show_nat n) \<Longrightarrow> (48 :: nat) \<le> of_char c \<and> (of_char c :: nat) < 58"
proof (induction n rule: show_nat.induct)
  case (1 n)
  then show ?case
    using of_char_digit [of n] of_char_digit [of "n mod 10"]
    by (subst (asm) show_nat.simps) (auto split: if_splits)
qed

lemma show_nat_Cons: "\<exists>c cs. show_nat n = c # cs \<and> c \<noteq> CHR ''-''"
proof -
  obtain c cs where s: "show_nat n = c # cs"
    by (cases "show_nat n") (subst (asm) show_nat.simps, auto split: if_splits)
  then have "(48 :: nat) \<le> of_char c" using show_nat_digits [of c n] by simp
  with s show ?thesis by auto
qed

lemma read_show_int [simp]: "read_int (show_int i) = i"
proof (cases "i < 0")
  case True
  then show ?thesis by (simp add: show_int_def read_int_def)
next
  case False
  obtain c cs where "show_nat (nat i) = c # cs" "c \<noteq> CHR ''-''" using show_nat_Cons by blast
  with False show ?thesis using read_show_nat [of "nat i"] by (simp add: show_int_def read_int_def)
qed

lemma show_int_inj [simp]: "show_int i = show_int j \<longleftrightarrow> i = j"
  by (metis read_show_int)


section \<open>Choosing the best of a list\<close>

text \<open>
  A selection loop keeps one candidate and lets every later one challenge it. What the loop relies
  on is that the duel returns one of its two contestants and that the winner's rank is the larger.
\<close>

locale ranked_duel =
  fixes duel :: "'a \<Rightarrow> 'a \<Rightarrow> 'a" and rank :: "'a \<Rightarrow> 'r :: linorder"
  assumes duel_contestant: "duel a b = a \<or> duel a b = b"
    and duel_rank: "rank (duel a b) = max (rank a) (rank b)"
begin

definition champion :: "'a \<Rightarrow> 'a list \<Rightarrow> 'a" where
  "champion a bs = foldl duel a bs"

lemma champion_member: "champion a bs \<in> insert a (set bs)"
proof (induction bs arbitrary: a)
  case (Cons b bs)
  then show ?case using duel_contestant [of a b] unfolding champion_def by fastforce
qed (simp add: champion_def)

lemma champion_rank: "rank (champion a bs) = Max (rank ` insert a (set bs))"
proof (induction bs arbitrary: a)
  case Nil
  show ?case by (simp add: champion_def)
next
  case (Cons b bs)
  have "rank (champion a (b # bs)) = Max (insert (max (rank a) (rank b)) (rank ` set bs))"
    using Cons [of "duel a b"] by (simp add: champion_def duel_rank)
  also have "\<dots> = Max (rank ` insert a (set (b # bs)))"
    by (cases "set bs = {}") (simp_all add: max.assoc)
  finally show ?case .
qed

lemma champion_best: "c \<in> insert a (set bs) \<Longrightarrow> rank c \<le> rank (champion a bs)"
  unfolding champion_rank by (rule Max_ge) auto

end

end
