(* ===== verification/Base_Fee.thy ===== *)
theory Base_Fee
  imports Pali_Prelude
begin

text \<open>
  The fee market and the emission curve of \<^verbatim>\<open>node/src/base-fee.ts\<close>: the EIP-1559 base fee of
  the next block, the EIP-4844 excess blob gas and blob gas price, and the halving block reward.
\<close>

definition TARGET_GAS_UTILIZATION :: bigint where
  "TARGET_GAS_UTILIZATION = 50"

definition MAX_CHANGE_DENOMINATOR :: bigint where
  "MAX_CHANGE_DENOMINATOR = 8"

definition MIN_BASE_FEE :: bigint where
  "MIN_BASE_FEE = 1000000000"

definition BLOCK_GAS_LIMIT :: bigint where
  "BLOCK_GAS_LIMIT = 30000000"

record BaseFeeParams =
  parentBaseFee :: bigint
  parentGasUsed :: bigint
  gasLimit :: "bigint option"

definition calculateBaseFee :: "BaseFeeParams \<Rightarrow> bigint" where
  "calculateBaseFee params =
     (let fee = parentBaseFee params;
          limit = (case gasLimit params of Some g \<Rightarrow> g | None \<Rightarrow> BLOCK_GAS_LIMIT)
      in if limit \<le> 0 then fee
         else
           let gasUsed = (if parentGasUsed params > limit then limit else parentGasUsed params);
               targetGas = (limit * TARGET_GAS_UTILIZATION) sdiv 100
           in if targetGas = 0 then fee
              else if gasUsed = targetGas then fee
              else if gasUsed > targetGas then
                let delta = gasUsed - targetGas;
                    increase = ((fee * delta) sdiv targetGas) sdiv MAX_CHANGE_DENOMINATOR
                in fee + (if increase > 0 then increase else 1)
              else
                let delta = targetGas - gasUsed;
                    decrease = ((fee * delta) sdiv targetGas) sdiv MAX_CHANGE_DENOMINATOR;
                    newFee = fee - decrease
                in if newFee > MIN_BASE_FEE then newFee else MIN_BASE_FEE)"

definition genesisBaseFee :: bigint where
  "genesisBaseFee = MIN_BASE_FEE"

definition TARGET_BLOB_GAS_PER_BLOCK :: bigint where
  "TARGET_BLOB_GAS_PER_BLOCK = 393216"

definition BLOB_GAS_PRICE_UPDATE_FRACTION :: bigint where
  "BLOB_GAS_PRICE_UPDATE_FRACTION = 3338477"

definition MIN_BLOB_GAS_PRICE :: bigint where
  "MIN_BLOB_GAS_PRICE = 1"

definition calculateExcessBlobGas :: "bigint \<Rightarrow> bigint \<Rightarrow> bigint" where
  "calculateExcessBlobGas parentExcessBlobGas parentBlobGasUsed =
     (let total = parentExcessBlobGas + parentBlobGasUsed
      in if total < TARGET_BLOB_GAS_PER_BLOCK then 0 else total - TARGET_BLOB_GAS_PER_BLOCK)"

text \<open>
  The \<^verbatim>\<open>while (acc > 0n)\<close> loop. It ends on every input: as soon as \<open>i\<close> exceeds the numerator,
  the accumulator shrinks in every round.
\<close>

lemma fakeExp_decreases:
  assumes "0 < acc" and "\<bar>numerator\<bar> < i"
  shows "\<bar>(acc * numerator) sdiv (denominator * i)\<bar> < (acc :: int)"
proof (cases "denominator = 0")
  case True
  with assms show ?thesis by (simp add: signed_divide_int_def)
next
  case False
  have i: "0 < i" using assms(2) by linarith
  have "\<bar>numerator\<bar> < \<bar>denominator\<bar> * i"
    using False assms(2) i mult_right_mono [of 1 "\<bar>denominator\<bar>" i] by linarith
  then have "acc * \<bar>numerator\<bar> < acc * (\<bar>denominator\<bar> * i)"
    using assms(1) by simp
  then have "(acc * \<bar>numerator\<bar>) div (\<bar>denominator\<bar> * i) < acc"
    using False i by (intro int_div_less) (simp_all add: zero_less_mult_iff)
  then show ?thesis
    using assms(1) i by (simp add: abs_sdiv abs_mult)
qed

function fakeExponential_loop :: "bigint \<Rightarrow> bigint \<Rightarrow> bigint \<Rightarrow> bigint \<Rightarrow> bigint \<Rightarrow> bigint" where
  "fakeExponential_loop numerator denominator i out acc =
     (if acc > 0
      then fakeExponential_loop numerator denominator (i + 1) (out + acc)
             ((acc * numerator) sdiv (denominator * i))
      else out)"
  by pat_completeness auto
termination
proof (relation "measures [\<lambda>(n, d, i, out, acc). nat (\<bar>n\<bar> + 1 - i), \<lambda>(n, d, i, out, acc). nat \<bar>acc\<bar>]",
    goal_cases)
  case 1
  show ?case by simp
next
  case (2 numerator denominator i out acc)
  then show ?case
    using fakeExp_decreases [of acc numerator i denominator] by auto
qed

declare fakeExponential_loop.simps [simp del]

definition fakeExponential :: "bigint \<Rightarrow> bigint \<Rightarrow> bigint \<Rightarrow> bigint" where
  "fakeExponential factor numerator denominator =
     fakeExponential_loop numerator denominator 1 0 (factor * denominator) sdiv denominator"

definition computeBlobGasPrice :: "bigint \<Rightarrow> bigint" where
  "computeBlobGasPrice excessBlobGas =
     fakeExponential MIN_BLOB_GAS_PRICE excessBlobGas BLOB_GAS_PRICE_UPDATE_FRACTION"

definition getBlockReward :: "bigint \<Rightarrow> bigint \<Rightarrow> bigint \<Rightarrow> bigint" where
  "getBlockReward height initialRewardWei halvingInterval =
     (if height \<le> 0 then 0
      else if initialRewardWei \<le> 0 then 0
      else if halvingInterval \<le> 0 then initialRewardWei
      else
        let halvings = height sdiv halvingInterval
        in if halvings \<ge> 64 then 0 else drop_bit (nat halvings) initialRewardWei)"

definition DEFAULT_HALVING_INTERVAL_BLOCKS :: bigint where
  "DEFAULT_HALVING_INTERVAL_BLOCKS = 42048000"


section \<open>The base fee\<close>

text \<open>The gas limit the calculation uses, and its half, the target.\<close>

abbreviation limit_of :: "BaseFeeParams \<Rightarrow> bigint" where
  "limit_of p \<equiv> (case gasLimit p of Some g \<Rightarrow> g | None \<Rightarrow> BLOCK_GAS_LIMIT)"

lemmas base_fee_consts = TARGET_GAS_UTILIZATION_def MAX_CHANGE_DENOMINATOR_def MIN_BASE_FEE_def
  BLOCK_GAS_LIMIT_def

lemma target_half: "0 < g \<Longrightarrow> (g * TARGET_GAS_UTILIZATION) sdiv 100 = g div 2"
  by (simp add: TARGET_GAS_UTILIZATION_def)

text \<open>One step of the controller, with the deviation from the target as a fraction of it.\<close>

definition fee_step :: "bigint \<Rightarrow> bigint \<Rightarrow> bigint \<Rightarrow> bigint" where
  "fee_step fee delta target = ((fee * delta) div target) div 8"

lemma fee_step_nonneg: "0 \<le> fee \<Longrightarrow> 0 \<le> delta \<Longrightarrow> 0 < target \<Longrightarrow> 0 \<le> fee_step fee delta target"
  by (simp add: fee_step_def pos_imp_zdiv_nonneg_iff)

lemma fee_step_mono:
  assumes "0 \<le> fee" and "0 < target" and "d \<le> d'"
  shows "fee_step fee d target \<le> fee_step fee d' target"
  unfolding fee_step_def using assms by (intro div_mono_int mult_left_mono) simp_all

lemma fee_step_eighth:
  assumes "0 \<le> fee" and "0 < target" and "d \<le> target"
  shows "fee_step fee d target \<le> fee div 8"
  using fee_step_mono [OF assms] assms(2) by (simp add: fee_step_def)

text \<open>
  The controller the calculation implements, on a positive target: the deviation of the gas used
  (at most the limit) from half the limit decides the sign and the size of the change.
\<close>

definition fee_rule :: "bigint \<Rightarrow> bigint \<Rightarrow> bigint \<Rightarrow> bigint" where
  "fee_rule fee used limit =
     (let t = limit div 2; u = min used limit
      in if u = t then fee
         else if u > t then fee + max 1 (fee_step fee (u - t) t)
         else max MIN_BASE_FEE (fee - fee_step fee (t - u) t))"

lemma calculateBaseFee_rule:
  assumes "0 \<le> parentBaseFee p" and "1 < limit_of p"
  shows "calculateBaseFee p = fee_rule (parentBaseFee p) (parentGasUsed p) (limit_of p)"
proof -
  define fee t u where "fee = parentBaseFee p" and "t = limit_of p div 2"
    and "u = (if parentGasUsed p > limit_of p then limit_of p else parentGasUsed p)"
  have fee: "0 \<le> fee" and t: "0 < t" and l: "\<not> limit_of p \<le> 0"
    using assms by (simp_all add: fee_def t_def)
  have th: "(limit_of p * TARGET_GAS_UTILIZATION) sdiv 100 = t"
    using l by (simp add: target_half t_def)
  have u: "min (parentGasUsed p) (limit_of p) = u"
    by (simp add: u_def min_def)
  have step: "((fee * d) sdiv t) sdiv MAX_CHANGE_DENOMINATOR = fee_step fee d t" if "0 \<le> d" for d
    using that t fee by (simp add: fee_step_def MAX_CHANGE_DENOMINATOR_def pos_imp_zdiv_nonneg_iff)
  have "calculateBaseFee p =
      (if u = t then fee
       else if u > t then
         (let increase = ((fee * (u - t)) sdiv t) sdiv MAX_CHANGE_DENOMINATOR
          in fee + (if increase > 0 then increase else 1))
       else
         (let newFee = fee - ((fee * (t - u)) sdiv t) sdiv MAX_CHANGE_DENOMINATOR
          in if newFee > MIN_BASE_FEE then newFee else MIN_BASE_FEE))"
    unfolding calculateBaseFee_def Let_def th u_def [symmetric] fee_def [symmetric]
    using t l by simp
  also have "\<dots> = fee_rule fee (parentGasUsed p) (limit_of p)"
    unfolding fee_rule_def u t_def [symmetric] Let_def by (auto simp: step max_def)
  finally show ?thesis by (simp add: fee_def)
qed

lemma calculateBaseFee_degenerate: "limit_of p \<le> 1 \<Longrightarrow> calculateBaseFee p = parentBaseFee p"
proof -
  assume "limit_of p \<le> 1"
  then have "limit_of p \<le> 0 \<or> limit_of p = 1" by linarith
  then show ?thesis by (auto simp: calculateBaseFee_def base_fee_consts)
qed

definition even_limit :: "BaseFeeParams \<Rightarrow> bool" where
  "even_limit p \<longleftrightarrow> (case gasLimit p of None \<Rightarrow> True | Some g \<Rightarrow> even g)"

lemma even_limit_of: "even_limit p \<Longrightarrow> even (limit_of p)"
  by (auto simp: even_limit_def BLOCK_GAS_LIMIT_def split: option.splits)

lemma fee_rule_range:
  assumes "MIN_BASE_FEE \<le> fee" and "0 \<le> g" and "even limit" and "1 < limit"
  shows "MIN_BASE_FEE \<le> fee_rule fee g limit \<and> \<bar>fee_rule fee g limit - fee\<bar> \<le> fee div 8"
proof -
  define t u where "t = limit div 2" and "u = min g limit"
  define up down where "up = fee_step fee (u - t) t" and "down = fee_step fee (t - u) t"
  have fee: "0 \<le> fee" "1 \<le> fee div 8"
    using assms(1) by (simp_all add: MIN_BASE_FEE_def)
  have t: "0 < t" and u: "0 \<le> u" "u - t \<le> t"
    using assms by (auto simp: t_def u_def)
  have steps: "up \<le> fee div 8" "down \<le> fee div 8"
    unfolding up_def down_def using fee(1) t u by (simp_all add: fee_step_eighth)
  have down: "0 \<le> down" if "u \<le> t"
    unfolding down_def using that fee(1) t by (intro fee_step_nonneg) auto
  have "fee_rule fee g limit =
      (if u = t then fee else if u > t then fee + max 1 up else max MIN_BASE_FEE (fee - down))"
    unfolding fee_rule_def Let_def t_def [symmetric] u_def [symmetric] up_def down_def ..
  then show ?thesis
    using assms(1) fee steps down by (auto simp: max_def)
qed

lemma fee_rule_mono:
  assumes "MIN_BASE_FEE \<le> fee" and "1 < limit" and "g \<le> g'"
  shows "fee_rule fee g limit \<le> fee_rule fee g' limit"
proof -
  define t u v where "t = limit div 2" and "u = min g limit" and "v = min g' limit"
  define up down where "up x = fee_step fee (x - t) t" and "down x = fee_step fee (t - x) t" for x
  have fee: "0 \<le> fee" using assms(1) by (simp add: MIN_BASE_FEE_def)
  have t: "0 < t" and uv: "u \<le> v" using assms(2,3) by (auto simp: t_def u_def v_def)
  have mono: "up u \<le> up v" "down v \<le> down u"
    using fee t uv by (simp_all add: up_def down_def fee_step_mono)
  have low: "0 \<le> down u" if "u \<le> t"
    using that fee t unfolding down_def by (intro fee_step_nonneg) auto
  have "fee_rule fee g limit =
      (if u = t then fee else if u > t then fee + max 1 (up u) else max MIN_BASE_FEE (fee - down u))"
    "fee_rule fee g' limit =
      (if v = t then fee else if v > t then fee + max 1 (up v) else max MIN_BASE_FEE (fee - down v))"
    unfolding fee_rule_def Let_def t_def [symmetric] u_def [symmetric] v_def [symmetric]
      up_def down_def by (rule refl)+
  then show ?thesis
    using mono low assms(1) uv by (auto simp: max_def)
qed

text \<open>
  (C32) One block moves the base fee by at most an eighth and never below the floor, for every even
  gas limit (the node's own limit of 30M included), whatever the gas used.
\<close>

theorem calculateBaseFee_bounds:
  assumes "MIN_BASE_FEE \<le> parentBaseFee p" and "0 \<le> parentGasUsed p" and "even_limit p"
  shows "MIN_BASE_FEE \<le> calculateBaseFee p \<and>
    \<bar>calculateBaseFee p - parentBaseFee p\<bar> \<le> parentBaseFee p div MAX_CHANGE_DENOMINATOR"
proof (cases "1 < limit_of p")
  case True
  then have "calculateBaseFee p = fee_rule (parentBaseFee p) (parentGasUsed p) (limit_of p)"
    using assms(1) by (intro calculateBaseFee_rule) (simp_all add: MIN_BASE_FEE_def)
  with True show ?thesis
    using fee_rule_range [OF assms(1,2)] even_limit_of [OF assms(3)]
    by (simp add: MAX_CHANGE_DENOMINATOR_def)
next
  case False
  with assms(1) show ?thesis
    by (simp add: calculateBaseFee_degenerate MAX_CHANGE_DENOMINATOR_def MIN_BASE_FEE_def)
qed

theorem calculateBaseFee_bounds_witness:
  "let p = \<lparr>parentBaseFee = 2000000000, parentGasUsed = 29000000, gasLimit = None\<rparr>
   in MIN_BASE_FEE \<le> calculateBaseFee p \<and>
      \<bar>calculateBaseFee p - 2000000000\<bar> \<le> 2000000000 div MAX_CHANGE_DENOMINATOR"
  using calculateBaseFee_bounds
    [of "\<lparr>parentBaseFee = 2000000000, parentGasUsed = 29000000, gasLimit = None\<rparr>"]
  by (simp add: even_limit_def MIN_BASE_FEE_def)

text \<open>
  The fee market responds in the right direction: more gas used by the parent block never gives
  a lower base fee.
\<close>

lemma calculateBaseFee_mono:
  assumes "MIN_BASE_FEE \<le> parentBaseFee p" and "parentGasUsed p \<le> g"
  shows "calculateBaseFee p \<le> calculateBaseFee (p\<lparr>parentGasUsed := g\<rparr>)"
proof (cases "1 < limit_of p")
  case True
  have "0 \<le> parentBaseFee p" using assms(1) by (simp add: MIN_BASE_FEE_def)
  with True show ?thesis
    using fee_rule_mono [OF assms(1) True assms(2)]
      calculateBaseFee_rule [of p] calculateBaseFee_rule [of "p\<lparr>parentGasUsed := g\<rparr>"]
    by simp
next
  case False
  then show ?thesis
    using calculateBaseFee_degenerate [of p] calculateBaseFee_degenerate [of "p\<lparr>parentGasUsed := g\<rparr>"]
    by simp
qed

section \<open>The blob gas price\<close>

lemma fakeExponential_loop_ge: "out \<le> fakeExponential_loop n d i out acc"
proof (induction n d i out acc rule: fakeExponential_loop.induct)
  case (1 n d i out acc)
  then show ?case
    by (subst fakeExponential_loop.simps) (cases "acc > 0", auto)
qed

lemma fakeExponential_loop_mono:
  assumes "0 \<le> n" and "n \<le> n'" and "0 < d" and "0 < i" and "0 \<le> acc" and "acc \<le> acc'"
    and "out \<le> out'"
  shows "fakeExponential_loop n d i out acc \<le> fakeExponential_loop n' d i out' acc'"
  using assms(2-7)
proof (induction n' d i out' acc' arbitrary: out acc rule: fakeExponential_loop.induct)
  case (1 n' d i out' acc')
  show ?case
  proof (cases "acc > 0")
    case True
    then have acc': "acc' > 0" using "1.prems"(5) by linarith
    let ?a = "(acc * n) sdiv (d * i)" and ?a' = "(acc' * n') sdiv (d * i)"
    have di: "0 < d * i" using "1.prems"(2,3) by simp
    have "acc * n \<le> acc' * n'"
      using "1.prems"(1,4,5) assms(1) by (intro mult_mono) auto
    then have le: "?a \<le> ?a'" and nn: "0 \<le> ?a"
      using di True acc' assms(1) "1.prems"(1)
      by (simp_all add: div_mono_int pos_imp_zdiv_nonneg_iff)
    have "fakeExponential_loop n d (i + 1) (out + acc) ?a
        \<le> fakeExponential_loop n' d (i + 1) (out' + acc') ?a'"
      using "1.prems" le nn by (intro "1.IH" [OF acc']) auto
    then show ?thesis
      using True acc'
      by (simp add: fakeExponential_loop.simps [of n] fakeExponential_loop.simps [of n'])
  next
    case False
    then have "fakeExponential_loop n d i out acc = out"
      by (simp add: fakeExponential_loop.simps [of n])
    then show ?thesis
      using "1.prems"(6) fakeExponential_loop_ge [of out' n' d i acc'] by linarith
  qed
qed

lemma fakeExponential_ge_factor:
  assumes "0 < d" and "0 \<le> factor"
  shows "factor \<le> fakeExponential factor n d"
proof -
  have "factor * d \<le> fakeExponential_loop n d 1 0 (factor * d)"
    using fakeExponential_loop_ge [of "factor * d" n d 2 "(factor * d * n) sdiv (d * 1)"]
      fakeExponential_loop_ge [of 0 n d 1 "factor * d"] assms
    by (cases "factor = 0") (simp_all add: fakeExponential_loop.simps [of n d 1] zero_less_mult_iff)
  then have "(factor * d) div d \<le> fakeExponential_loop n d 1 0 (factor * d) div d"
    using assms(1) by (intro div_mono_int)
  moreover have "0 \<le> fakeExponential_loop n d 1 0 (factor * d)"
    by (rule fakeExponential_loop_ge)
  ultimately show ?thesis
    using assms(1) by (simp add: fakeExponential_def)
qed

text \<open>
  The blob gas price never falls below its minimum, and a larger excess never makes blobs
  cheaper.
\<close>

lemma computeBlobGasPrice_mono:
  assumes "0 \<le> e" and "e \<le> e'"
  shows "MIN_BLOB_GAS_PRICE \<le> computeBlobGasPrice e \<and> computeBlobGasPrice e \<le> computeBlobGasPrice e'"
proof -
  let ?d = BLOB_GAS_PRICE_UPDATE_FRACTION
  have d: "0 < ?d" by (simp add: BLOB_GAS_PRICE_UPDATE_FRACTION_def)
  have "fakeExponential_loop e ?d 1 0 (MIN_BLOB_GAS_PRICE * ?d)
      \<le> fakeExponential_loop e' ?d 1 0 (MIN_BLOB_GAS_PRICE * ?d)"
    using assms d by (intro fakeExponential_loop_mono) (auto simp: MIN_BLOB_GAS_PRICE_def)
  then have "computeBlobGasPrice e \<le> computeBlobGasPrice e'"
    unfolding computeBlobGasPrice_def fakeExponential_def
    using d fakeExponential_loop_ge [of 0] by (simp add: div_mono_int)
  moreover have "MIN_BLOB_GAS_PRICE \<le> computeBlobGasPrice e"
    unfolding computeBlobGasPrice_def using d
    by (intro fakeExponential_ge_factor) (auto simp: MIN_BLOB_GAS_PRICE_def)
  ultimately show ?thesis by simp
qed

section \<open>The block reward\<close>

lemma getBlockReward_nonneg: "0 \<le> getBlockReward h r n"
  by (simp add: getBlockReward_def Let_def)

lemma getBlockReward_era:
  assumes "0 < n" and "0 < r" and "int k * n \<le> h" and "h < (int k + 1) * n"
  shows "getBlockReward h r n \<le> r div 2 ^ k"
proof -
  have "h div n = int k"
    using assms by (intro int_div_pos_eq [of _ _ _ "h - int k * n"]) (auto simp: algebra_simps)
  moreover have "0 \<le> h" using assms(1,3) by (smt (verit) mult_nonneg_nonneg of_nat_0_le_iff)
  ultimately show ?thesis
    using assms(1,2) by (auto simp: getBlockReward_def drop_bit_eq_div pos_imp_zdiv_nonneg_iff)
qed

lemma emission_eras:
  assumes "0 < n" and "0 < r"
  shows "(\<Sum>h<k * n. getBlockReward (int h) r (int n)) + 2 * int n * (r div 2 ^ k) \<le> 2 * int n * r"
proof (induction k)
  case 0
  show ?case by simp
next
  case (Suc k)
  let ?f = "\<lambda>h. getBlockReward (int h) r (int n)"
  have "(\<Sum>h<Suc k * n. ?f h) = (\<Sum>h<k * n. ?f h) + (\<Sum>h=k * n..<Suc k * n. ?f h)"
    by (subst sum.atLeastLessThan_concat [of 0 "k * n" "Suc k * n", simplified atLeast0LessThan, symmetric])
      simp_all
  moreover have "(\<Sum>h=k * n..<Suc k * n. ?f h) \<le> (\<Sum>h=k * n..<Suc k * n. r div 2 ^ k)"
  proof (rule sum_mono)
    fix h assume h: "h \<in> {k * n..<Suc k * n}"
    then have "int k * int n \<le> int h" and "int h < (int k + 1) * int n"
      by (auto simp flip: of_nat_mult of_nat_Suc of_nat_add simp: algebra_simps)
    then show "?f h \<le> r div 2 ^ k" using assms by (intro getBlockReward_era) auto
  qed
  moreover have "(\<Sum>h=k * n..<Suc k * n. r div 2 ^ k) = int n * (r div 2 ^ k)"
    by simp
  moreover have "2 * int n * (r div 2 ^ Suc k) \<le> int n * (r div 2 ^ k)"
  proof -
    have "r div 2 ^ Suc k = (r div 2 ^ k) div 2"
      by (simp add: zdiv_zmult2_eq mult.commute [of 2])
    then have "2 * (r div 2 ^ Suc k) \<le> r div 2 ^ k" by linarith
    then have "int n * (2 * (r div 2 ^ Suc k)) \<le> int n * (r div 2 ^ k)"
      by (rule mult_left_mono) simp
    then show ?thesis by (simp add: algebra_simps)
  qed
  ultimately show ?case using Suc by linarith
qed

lemma emission_halving:
  assumes "0 < n" and "0 < r"
  shows "(\<Sum>h<N. getBlockReward (int h) r (int n)) \<le> 2 * int n * r"
proof -
  let ?f = "\<lambda>h. getBlockReward (int h) r (int n)"
  have "N \<le> N * n" using assms(1) by simp
  then have "(\<Sum>h<N. ?f h) \<le> (\<Sum>h<N * n. ?f h)"
    by (intro sum_mono2) (auto simp: getBlockReward_nonneg)
  moreover have "0 \<le> 2 * int n * (r div 2 ^ N)"
    using assms by (simp add: pos_imp_zdiv_nonneg_iff)
  ultimately show ?thesis using emission_eras [OF assms, of N] by linarith
qed

text \<open>
  (C33) What the chain mints. With a positive halving interval the emission has a hard cap: however long the chain runs, the block
  rewards sum to at most twice the initial reward of one interval's blocks. With an interval of zero or less there is no cap:
  every block after genesis is paid the initial reward. A reward of zero or less mints nothing.
\<close>

theorem emission_capped:
  "(0 < halvingInterval \<longrightarrow>
      (\<Sum>h<N. getBlockReward (int h) initialRewardWei halvingInterval) \<le> 2 * halvingInterval * max 0 initialRewardWei) \<and>
   (halvingInterval \<le> 0 \<longrightarrow>
      (\<Sum>h<N. getBlockReward (int h) initialRewardWei halvingInterval) = int (N - 1) * max 0 initialRewardWei)"
proof (cases "0 < initialRewardWei")
  case True
  have "(\<Sum>h<N. getBlockReward (int h) initialRewardWei halvingInterval) = int (N - 1) * initialRewardWei" if "halvingInterval \<le> 0"
  proof (induction N)
    case (Suc N)
    then show ?case
      using that True by (cases N) (simp_all add: getBlockReward_def algebra_simps)
  qed simp
  with True show ?thesis
    using emission_halving [of "nat halvingInterval" initialRewardWei N] by auto
next
  case False
  then have "getBlockReward (int h) initialRewardWei halvingInterval = 0" for h by (simp add: getBlockReward_def)
  with False show ?thesis by simp
qed

theorem emission_capped_witness:
  "(\<Sum>h<1000. getBlockReward (int h) 2000000000000000000 42048000) \<le> 2 * 42048000 * 2000000000000000000 \<and>
   (\<Sum>h<1000. getBlockReward (int h) 5 0) = 4995"
  using emission_capped [of 42048000 2000000000000000000 1000] emission_capped [of 0 5 1000] by simp

end
