(* ===== verification/Mempool.thy ===== *)
theory Mempool
  imports Base_Fee
begin

text \<open>
  The transaction pool of \<^verbatim>\<open>node/src/mempool.ts\<close>: admission of a signed transaction with its structural
  checks, replacement by a better price and eviction of the cheapest; expiry; the selection of the transactions of a block;
  and the three indices that have to stay consistent through all of it.

  A signed transaction is the object that the \<^verbatim>\<open>ethers\<close> package decodes from the raw bytes: the decoder is a
  parameter. \<^verbatim>\<open>Date.now()\<close> is an argument.
\<close>

record MempoolConfig =
  maxSize :: nat
  maxPerSender :: nat
  minGasBump :: bigint
  evictionBatchSize :: nat
  txTtlMs :: int
  chainId :: int

definition DEFAULT_CONFIG :: MempoolConfig where
  "DEFAULT_CONFIG = \<lparr>maxSize = 4096, maxPerSender = 64, minGasBump = 10, evictionBatchSize = 16,
     txTtlMs = 6 * 60 * 60 * 1000, chainId = 18780\<rparr>"

record MempoolTx =
  txHash :: hex
  rawTx :: hex
  txFrom :: hex
  txNonce :: bigint
  gasPrice :: bigint
  maxFeePerGas :: bigint
  maxPriorityFeePerGas :: bigint
  txGasLimit :: bigint
  txValue :: bigint
  receivedAtMs :: int

text \<open>The decoded transaction, with the fields the pool reads; an absent or \<^verbatim>\<open>null\<close> field is \<open>None\<close>.\<close>

record EthTx =
  e_from :: "string option"
  e_type :: "int option"
  e_to :: "string option"
  e_data :: "string option"
  e_gasLimit :: "bigint option"
  e_gasPrice :: "bigint option"
  e_maxFeePerGas :: "bigint option"
  e_maxPriorityFeePerGas :: "bigint option"
  e_chainId :: bigint
  e_hash :: hex
  e_nonce :: nat
  e_value :: "bigint option"

datatype MempoolError =
    Undecodable | MissingSender | BlobUnsupported | GasLimitExceedsMaximum bigint | NotAnInteger nat
  | IntrinsicGasTooLow bigint bigint | FeeCapBelowMinimum bigint | InvalidChainId bigint | TxPoisoned hex
  | ReplacementTooLow bigint bigint | SenderLimitExceeded hex | MempoolIsFull

record MempoolState =
  poolTxs :: "(hex, MempoolTx) jsmap"
  bySender :: "(hex, hex list) jsmap"
  byNonce :: "(string, hex) jsmap"
  poisoned :: "hex list"
  cfg :: MempoolConfig

definition newMempool :: "MempoolConfig \<Rightarrow> MempoolState" where
  "newMempool c = \<lparr>poolTxs = [], bySender = [], byNonce = [], poisoned = [], cfg = c\<rparr>"

text \<open>\<^verbatim>\<open>a ?? b\<close>.\<close>

definition coalesce :: "'a option \<Rightarrow> 'a \<Rightarrow> 'a" where
  "coalesce a b = (case a of Some v \<Rightarrow> v | None \<Rightarrow> b)"


section \<open>The k smallest elements of an array\<close>

definition swap_at :: "nat \<Rightarrow> nat \<Rightarrow> 'a list \<Rightarrow> 'a list" where
  "swap_at i j xs = xs[i := xs ! j, j := xs ! i]"

text \<open>The inner \<^verbatim>\<open>for\<close> loop, for the indices from \<open>i\<close> up to \<open>hi\<close>.\<close>

fun partitionLoop :: "('a \<Rightarrow> 'a \<Rightarrow> int) \<Rightarrow> 'a \<Rightarrow> nat \<Rightarrow> nat list \<Rightarrow> 'a list \<Rightarrow> 'a list \<times> nat" where
  "partitionLoop compare pivot storeIdx [] arr = (arr, storeIdx)"
| "partitionLoop compare pivot storeIdx (i # is) arr =
     (if compare (arr ! i) pivot < 0 then partitionLoop compare pivot (Suc storeIdx) is (swap_at storeIdx i arr)
      else partitionLoop compare pivot storeIdx is arr)"

definition partition_at :: "('a \<Rightarrow> 'a \<Rightarrow> int) \<Rightarrow> 'a list \<Rightarrow> nat \<Rightarrow> nat \<Rightarrow> 'a list \<times> nat" where
  "partition_at compare arr lo hi =
     (let pivotIdx = lo + (hi - lo) div 2;
          pivot = arr ! pivotIdx;
          (arr2, storeIdx) = partitionLoop compare pivot lo [lo..<hi] (swap_at pivotIdx hi arr)
      in (swap_at storeIdx hi arr2, storeIdx))"

lemma partitionLoop_store:
  "partitionLoop compare pivot s is arr = (arr', s') \<Longrightarrow> s \<le> s' \<and> s' \<le> s + length is"
  by (induction compare pivot s "is" arr rule: partitionLoop.induct) (auto split: if_splits)

lemma partition_at_store:
  assumes "partition_at compare arr lo hi = (arr', s)" and "lo \<le> hi"
  shows "lo \<le> s \<and> s \<le> hi"
  using assms partitionLoop_store [of compare "arr ! (lo + (hi - lo) div 2)" lo "[lo..<hi]"]
  by (auto simp: partition_at_def Let_def split: prod.splits)

function selectLoop :: "('a \<Rightarrow> 'a \<Rightarrow> int) \<Rightarrow> nat \<Rightarrow> nat \<Rightarrow> nat \<Rightarrow> 'a list \<Rightarrow> 'a list" where
  "selectLoop compare k lo hi arr =
     (if lo < hi then
        case partition_at compare arr lo hi of (arr2, storeIdx) \<Rightarrow>
          if storeIdx < k - 1 then selectLoop compare k (storeIdx + 1) hi arr2
          else if storeIdx > k - 1 then selectLoop compare k lo (storeIdx - 1) arr2
          else arr2
      else arr)"
  by pat_completeness auto

termination
  by (relation "measure (\<lambda>(compare, k, lo, hi, arr). hi - lo)")
    (auto dest!: partition_at_store [OF sym])

declare selectLoop.simps [simp del]

definition partialSelect :: "'a list \<Rightarrow> nat \<Rightarrow> ('a \<Rightarrow> 'a \<Rightarrow> int) \<Rightarrow> 'a list" where
  "partialSelect arr k compare =
     (if k = 0 \<or> k \<ge> length arr then arr else selectLoop compare k 0 (length arr - 1) arr)"


section \<open>Admission checks\<close>

text \<open>The loop over the hexadecimal digits, two at a time: the zero bytes and the others.\<close>

fun countBytes :: "string \<Rightarrow> bigint \<Rightarrow> bigint \<Rightarrow> bigint \<times> bigint" where
  "countBytes [] zeros nonzeros = (zeros, nonzeros)"
| "countBytes [c] zeros nonzeros = (zeros, nonzeros + 1)"
| "countBytes (c # d # cs) zeros nonzeros =
     (if [c, d] = ''00'' then countBytes cs (zeros + 1) nonzeros else countBytes cs zeros (nonzeros + 1))"

text \<open>\<^verbatim>\<open>BigInt(hex.length / 2)\<close> throws a range error when the length is odd.\<close>

definition computeIntrinsicGas :: "EthTx \<Rightarrow> MempoolError + bigint" where
  "computeIntrinsicGas tx =
     (let isCreation = (\<not> truthy (e_to tx));
          gas = (if isCreation then 21000 + 32000 else 21000);
          data = coalesce (e_data tx) ''0x'';
          digits = (if take 2 data = ''0x'' then drop 2 data else data)
      in if length digits > 0 then
           let (zeros, nonzeros) = countBytes digits 0 0;
               gas2 = gas + (zeros * 4 + nonzeros * 16)
           in if isCreation then
                if odd (length digits) then Inl (NotAnInteger (length digits))
                else Inr (gas2 + ((int (length digits div 2) + 31) sdiv 32) * 2)
              else Inr gas2
         else Inr gas)"

definition MAX_TX_GAS_LIMIT :: bigint where
  "MAX_TX_GAS_LIMIT = 30000000"

text \<open>The structural checks: \<open>None\<close> when nothing is thrown.\<close>

definition validateTxStructure :: "EthTx \<Rightarrow> MempoolError option" where
  "validateTxStructure tx =
     (if \<not> truthy (e_from tx) then Some MissingSender
      else if e_type tx = Some 3 then Some BlobUnsupported
      else
        let gasLim = coalesce (e_gasLimit tx) 21000
        in if gasLim > MAX_TX_GAS_LIMIT then Some (GasLimitExceedsMaximum gasLim)
           else case computeIntrinsicGas tx of Inl e \<Rightarrow> Some e
           | Inr intrinsicGasRequired \<Rightarrow>
               if gasLim < intrinsicGasRequired then Some (IntrinsicGasTooLow gasLim intrinsicGasRequired)
               else
                 let feeCap = coalesce (e_maxFeePerGas tx) (coalesce (e_gasPrice tx) 0)
                 in if feeCap < MIN_BASE_FEE then Some (FeeCapBelowMinimum feeCap) else None)"


section \<open>The pool\<close>

definition loadPoisonedHashes :: "hex list \<Rightarrow> MempoolState \<Rightarrow> MempoolState" where
  "loadPoisonedHashes hashes p = p\<lparr>poisoned := foldl (\<lambda>s h. set_add (toLowerCase h) s) (poisoned p) hashes\<rparr>"

definition nonceKey :: "hex \<Rightarrow> bigint \<Rightarrow> string" where
  "nonceKey from nonce = from @ '':'' @ show_int nonce"

definition removeTx :: "hex \<Rightarrow> MempoolState \<Rightarrow> MempoolState" where
  "removeTx hash p =
     (case jget (poolTxs p) hash of None \<Rightarrow> p
      | Some tx \<Rightarrow>
          p\<lparr>poolTxs := jdel hash (poolTxs p),
            byNonce := jdel (nonceKey (txFrom tx) (txNonce tx)) (byNonce p),
            bySender :=
              (case jget (bySender p) (txFrom tx) of None \<Rightarrow> bySender p
               | Some senderSet \<Rightarrow>
                   let left = removeAll hash senderSet
                   in if left = [] then jdel (txFrom tx) (bySender p) else jset (txFrom tx) left (bySender p))\<rparr>)"

definition MAX_POISONED :: nat where
  "MAX_POISONED = 10000"

definition poison :: "hex \<Rightarrow> MempoolState \<Rightarrow> MempoolState" where
  "poison hash p =
     (let bounded = (if length (poisoned p) \<ge> MAX_POISONED then tl (poisoned p) else poisoned p)
      in removeTx hash (p\<lparr>poisoned := set_add (toLowerCase hash) bounded\<rparr>))"

definition isPoisoned :: "hex \<Rightarrow> MempoolState \<Rightarrow> bool" where
  "isPoisoned hash p = (toLowerCase hash \<in> set (poisoned p))"

definition feeCompare :: "MempoolTx \<Rightarrow> MempoolTx \<Rightarrow> int" where
  "feeCompare a b =
     (if gasPrice a \<noteq> gasPrice b then (if gasPrice a < gasPrice b then - 1 else 1) else receivedAtMs a - receivedAtMs b)"

definition evictLowestFee :: "MempoolState \<Rightarrow> MempoolState" where
  "evictLowestFee p =
     (let all = map snd (poolTxs p);
          count = min (evictionBatchSize (cfg p)) (length all)
      in if count = 0 then p
         else foldl (\<lambda>p tx. removeTx (txHash tx) p) p (take count (partialSelect all count feeCompare)))"

definition mempoolItem :: "hex \<Rightarrow> EthTx \<Rightarrow> int \<Rightarrow> MempoolTx" where
  "mempoolItem raw tx now =
     \<lparr>txHash = e_hash tx, rawTx = raw, txFrom = toLowerCase (coalesce (e_from tx) []), txNonce = int (e_nonce tx),
      gasPrice = coalesce (e_gasPrice tx) (coalesce (e_maxFeePerGas tx) 0),
      maxFeePerGas = coalesce (e_maxFeePerGas tx) (coalesce (e_gasPrice tx) 0),
      maxPriorityFeePerGas = coalesce (e_maxPriorityFeePerGas tx) 0,
      txGasLimit = coalesce (e_gasLimit tx) 21000, txValue = coalesce (e_value tx) 0, receivedAtMs = now\<rparr>"

text \<open>The price a replacement of \<open>existing\<close> has to offer.\<close>

definition minReplacementPrice :: "MempoolConfig \<Rightarrow> MempoolTx \<Rightarrow> bigint" where
  "minReplacementPrice c existing = gasPrice existing + (gasPrice existing * minGasBump c + 99) sdiv 100"

text \<open>The second half of \<^verbatim>\<open>addRawTx\<close>: the limits, and the insertion into the map and its two indices.\<close>

definition insertTx :: "MempoolTx \<Rightarrow> MempoolState \<Rightarrow> MempoolState" where
  "insertTx item p =
     p\<lparr>poolTxs := jset (txHash item) item (poolTxs p),
       byNonce := jset (nonceKey (txFrom item) (txNonce item)) (txHash item) (byNonce p),
       bySender := jset (txFrom item) (set_add (txHash item) (get_or [] (bySender p) (txFrom item))) (bySender p)\<rparr>"

definition admitTx :: "MempoolTx \<Rightarrow> MempoolState \<Rightarrow> (MempoolError, MempoolState, MempoolTx) outcome" where
  "admitTx item p =
     (if (case jget (bySender p) (txFrom item) of None \<Rightarrow> False | Some s \<Rightarrow> length s \<ge> maxPerSender (cfg p))
      then (p, Inl (SenderLimitExceeded (txFrom item)))
      else if length (poolTxs p) \<ge> maxSize (cfg p) then
        let p2 = evictLowestFee p
        in if length (poolTxs p2) \<ge> maxSize (cfg p2) then (p2, Inl MempoolIsFull) else (insertTx item p2, Inr item)
      else (insertTx item p, Inr item))"

text \<open>The check for a replacement: the same sender and nonce, at a sufficiently better price.\<close>

definition offerTx :: "MempoolTx \<Rightarrow> MempoolState \<Rightarrow> (MempoolError, MempoolState, MempoolTx) outcome" where
  "offerTx item p =
     (case jget (byNonce p) (nonceKey (txFrom item) (txNonce item)) of
        None \<Rightarrow> admitTx item p
      | Some existingHash \<Rightarrow>
          if existingHash = [] then admitTx item p
          else case jget (poolTxs p) existingHash of
            None \<Rightarrow> admitTx item p
          | Some existing \<Rightarrow>
              let minPrice = minReplacementPrice (cfg p) existing
              in if gasPrice item < minPrice then (p, Inl (ReplacementTooLow minPrice (gasPrice item)))
                 else admitTx item (removeTx existingHash p))"

definition addRawTx ::
  "(hex \<Rightarrow> EthTx option) \<Rightarrow> hex \<Rightarrow> EthTx option \<Rightarrow> int \<Rightarrow> MempoolState \<Rightarrow> (MempoolError, MempoolState, MempoolTx) outcome" where
  "addRawTx decode raw preDecoded now p =
     (case (case preDecoded of Some t \<Rightarrow> Some t | None \<Rightarrow> decode raw) of None \<Rightarrow> (p, Inl Undecodable)
      | Some tx \<Rightarrow>
      (case validateTxStructure tx of Some e \<Rightarrow> (p, Inl e)
       | None \<Rightarrow>
         if e_chainId tx \<noteq> chainId (cfg p) then (p, Inl (InvalidChainId (e_chainId tx)))
         else if toLowerCase (e_hash tx) \<in> set (poisoned p) then (p, Inl (TxPoisoned (e_hash tx)))
         else offerTx (mempoolItem raw tx now) p))"

definition hasTx :: "hex \<Rightarrow> MempoolState \<Rightarrow> bool" where
  "hasTx hash p = jhas (poolTxs p) hash"

definition poolSize :: "MempoolState \<Rightarrow> nat" where
  "poolSize p = length (poolTxs p)"

definition lookupTxs :: "hex list \<Rightarrow> MempoolState \<Rightarrow> MempoolTx list" where
  "lookupTxs hashes p = List.map_filter (jget (poolTxs p)) hashes"

definition getPendingByAddress :: "hex \<Rightarrow> MempoolState \<Rightarrow> MempoolTx list" where
  "getPendingByAddress address p =
     (case jget (bySender p) (toLowerCase address) of None \<Rightarrow> []
      | Some hashes \<Rightarrow> sort_key txNonce (lookupTxs hashes p))"

definition evictExpired :: "int \<Rightarrow> MempoolState \<Rightarrow> MempoolState \<times> nat" where
  "evictExpired now p =
     (let cutoff = now - txTtlMs (cfg p)
      in foldl (\<lambda>(p, evicted) (hash, tx). if receivedAtMs tx < cutoff then (removeTx hash p, evicted + 1) else (p, evicted))
           (p, 0) (poolTxs p))"

text \<open>The \<^verbatim>\<open>while (nonces.has(next))\<close> loop ends because the set is finite.\<close>

function firstGap :: "bigint list \<Rightarrow> bigint \<Rightarrow> bigint" where
  "firstGap nonces nxt = (if nxt \<in> set nonces then firstGap nonces (nxt + 1) else nxt)"
  by pat_completeness auto

termination
proof (relation "measure (\<lambda>(nonces, nxt). card {n \<in> set nonces. nxt \<le> n})")
  show "((nonces, nxt + 1), (nonces, nxt)) \<in> measure (\<lambda>(nonces, nxt). card {n \<in> set nonces. nxt \<le> n})"
    if "nxt \<in> set nonces" for nonces and nxt :: bigint
  proof -
    have "{n \<in> set nonces. nxt \<le> n} = insert nxt {n \<in> set nonces. nxt + 1 \<le> n}" using that by auto
    then show ?thesis by simp
  qed
qed simp

declare firstGap.simps [simp del]

definition getPendingNonce :: "hex \<Rightarrow> bigint \<Rightarrow> MempoolState \<Rightarrow> bigint" where
  "getPendingNonce from onchainNonce p =
     (case jget (bySender p) (toLowerCase from) of None \<Rightarrow> onchainNonce
      | Some senderTxs \<Rightarrow>
          if senderTxs = [] then onchainNonce
          else firstGap (foldl (\<lambda>s tx. set_add (txNonce tx) s) [] (lookupTxs senderTxs p)) onchainNonce)"

definition getAllTxs :: "MempoolState \<Rightarrow> MempoolTx list" where
  "getAllTxs p = sort_key (\<lambda>tx. (Down (gasPrice tx), receivedAtMs tx)) (map snd (poolTxs p))"

record MempoolStats =
  pooled :: nat
  senders :: nat
  oldestMs :: int

definition poolStats :: "int \<Rightarrow> MempoolState \<Rightarrow> MempoolStats" where
  "poolStats now p =
     (let oldest = foldl (\<lambda>m tx. if receivedAtMs tx < m then receivedAtMs tx else m) now (map snd (poolTxs p))
      in \<lparr>pooled = length (poolTxs p), senders = length (bySender p), oldestMs = (if length (poolTxs p) > 0 then oldest else 0)\<rparr>)"


section \<open>Quickselect finds the smallest\<close>

lemma set_take_nth: "x \<in> set (take c xs) \<longleftrightarrow> (\<exists>i. i < c \<and> i < length xs \<and> xs ! i = x)"
  by (auto simp: in_set_conv_nth)

lemma set_drop_nth: "x \<in> set (drop c xs) \<longleftrightarrow> (\<exists>j. c \<le> j \<and> j < length xs \<and> xs ! j = x)"
proof
  assume "\<exists>j. c \<le> j \<and> j < length xs \<and> xs ! j = x"
  then obtain j where "c \<le> j" "j < length xs" "xs ! j = x" by blast
  then have "drop c xs ! (j - c) = x" "j - c < length (drop c xs)" by auto
  then show "x \<in> set (drop c xs)" by (metis nth_mem)
next
  assume "x \<in> set (drop c xs)"
  then obtain i where "i < length xs - c" "x = xs ! (c + i)" by (auto simp: in_set_conv_nth)
  then show "\<exists>j. c \<le> j \<and> j < length xs \<and> xs ! j = x" by (intro exI [of _ "c + i"]) auto
qed

lemma length_swap_at [simp]: "length (swap_at i j xs) = length xs"
  by (simp add: swap_at_def)

lemma mset_swap_at: "i < length xs \<Longrightarrow> j < length xs \<Longrightarrow> mset (swap_at i j xs) = mset xs"
  by (simp add: swap_at_def mset_swap)

lemma nth_swap_at: "i < length xs \<Longrightarrow> j < length xs \<Longrightarrow> swap_at i j xs ! m = (if m = j then xs ! i else if m = i then xs ! j else xs ! m)"
  by (auto simp: swap_at_def nth_list_update)

text \<open>What the selection relies on in its comparison function: it is the order of a key.\<close>

locale comparator =
  fixes compare :: "'a \<Rightarrow> 'a \<Rightarrow> int" and key :: "'a \<Rightarrow> 'k :: linorder"
  assumes compare_less: "compare a b < 0 \<longleftrightarrow> key a < key b"
begin

text \<open>A cut of the array: nothing before it is larger than anything after it.\<close>

definition cut :: "nat \<Rightarrow> 'a list \<Rightarrow> bool" where
  "cut c arr \<longleftrightarrow> (\<forall>x\<in>set (take c arr). \<forall>y\<in>set (drop c arr). key x \<le> key y)"

lemma cut_nth: "cut c arr \<longleftrightarrow> (\<forall>i j. i < c \<and> c \<le> j \<and> j < length arr \<longrightarrow> key (arr ! i) \<le> key (arr ! j))"
proof
  assume cut: "cut c arr"
  show "\<forall>i j. i < c \<and> c \<le> j \<and> j < length arr \<longrightarrow> key (arr ! i) \<le> key (arr ! j)"
  proof (intro allI impI)
    fix i j assume ij: "i < c \<and> c \<le> j \<and> j < length arr"
    then have "i < length arr" by linarith
    with ij have "arr ! i \<in> set (take c arr)" "arr ! j \<in> set (drop c arr)" unfolding set_take_nth set_drop_nth by blast+
    with cut show "key (arr ! i) \<le> key (arr ! j)" unfolding cut_def by blast
  qed
next
  assume "\<forall>i j. i < c \<and> c \<le> j \<and> j < length arr \<longrightarrow> key (arr ! i) \<le> key (arr ! j)"
  then show "cut c arr" unfolding cut_def Ball_def set_take_nth set_drop_nth by blast
qed

lemma cut_rearranged:
  assumes "mset arr' = mset arr" and "take c arr' = take c arr \<or> drop c arr' = drop c arr" and "cut c arr"
  shows "cut c arr'"
proof -
  have "mset (take c arr') + mset (drop c arr') = mset (take c arr) + mset (drop c arr)"
    using assms(1) by (metis append_take_drop_id mset_append)
  with assms(2) have "mset (take c arr') = mset (take c arr)" "mset (drop c arr') = mset (drop c arr)" by auto
  then show ?thesis using assms(3) unfolding cut_def by (metis mset_eq_setD)
qed

lemma partitionLoop_spec:
  assumes "partitionLoop compare pivot s [i..<hi] arr = (arr', s')" and "lo \<le> s" "s \<le> i" "i \<le> hi" "hi < length arr"
    and "\<forall>j. lo \<le> j \<and> j < s \<longrightarrow> key (arr ! j) < key pivot" and "\<forall>j. s \<le> j \<and> j < i \<longrightarrow> key pivot \<le> key (arr ! j)"
  shows "mset arr' = mset arr \<and> length arr' = length arr \<and> s' \<le> hi \<and> s \<le> s' \<and>
    (\<forall>j. j < lo \<or> hi \<le> j \<longrightarrow> arr' ! j = arr ! j) \<and>
    (\<forall>j. lo \<le> j \<and> j < s' \<longrightarrow> key (arr' ! j) < key pivot) \<and> (\<forall>j. s' \<le> j \<and> j < hi \<longrightarrow> key pivot \<le> key (arr' ! j))"
  using assms
proof (induction "hi - i" arbitrary: i s arr)
  case 0
  then show ?case by auto
next
  case (Suc n)
  then have "i < hi" by simp
  then have upt: "[i..<hi] = i # [Suc i..<hi]" by (simp add: upt_rec)
  show ?case
  proof (cases "compare (arr ! i) pivot < 0")
    case True
    then have "key (arr ! i) < key pivot" by (simp add: compare_less)
    let ?arr = "swap_at s i arr"
    have si: "s < length arr" "i < length arr" using Suc.prems \<open>i < hi\<close> by auto
    have nth: "?arr ! m = (if m = i then arr ! s else if m = s then arr ! i else arr ! m)" for m
      using nth_swap_at [OF si] by simp
    have step: "partitionLoop compare pivot (Suc s) [Suc i..<hi] ?arr = (arr', s')" using Suc.prems(1) True upt by simp
    have low: "\<forall>j. lo \<le> j \<and> j < Suc s \<longrightarrow> key (?arr ! j) < key pivot"
      using Suc.prems(3,6) \<open>key (arr ! i) < key pivot\<close> unfolding nth by (auto simp: less_Suc_eq)
    have high: "\<forall>j. Suc s \<le> j \<and> j < Suc i \<longrightarrow> key pivot \<le> key (?arr ! j)"
      using Suc.prems(7) unfolding nth by (auto simp: less_Suc_eq)
    have "\<forall>j. j < lo \<or> hi \<le> j \<longrightarrow> ?arr ! j = arr ! j" using Suc.prems(2-4) \<open>i < hi\<close> unfolding nth by auto
    moreover have "n = hi - Suc i" using Suc.hyps(2) by simp
    ultimately show ?thesis
      using Suc.hyps(1) [OF _ step _ _ _ _ low high] mset_swap_at [OF si] Suc.prems(2-5) \<open>i < hi\<close> by auto
  next
    case False
    then have "key pivot \<le> key (arr ! i)" by (simp add: compare_less)
    then have high: "\<forall>j. s \<le> j \<and> j < Suc i \<longrightarrow> key pivot \<le> key (arr ! j)" using Suc.prems(7) by (auto simp: less_Suc_eq)
    have step: "partitionLoop compare pivot s [Suc i..<hi] arr = (arr', s')" using Suc.prems(1) False upt by simp
    moreover have "n = hi - Suc i" using Suc.hyps(2) by simp
    ultimately show ?thesis using Suc.hyps(1) [OF _ step _ _ _ _ Suc.prems(6) high] Suc.prems(2-5) \<open>i < hi\<close> by simp
  qed
qed

lemma partition_at_spec:
  assumes "partition_at compare arr lo hi = (arr', s)" and "lo < hi" "hi < length arr"
  shows "mset arr' = mset arr" "take lo arr' = take lo arr" "drop (Suc hi) arr' = drop (Suc hi) arr" "lo \<le> s" "s \<le> hi"
    "\<forall>i j. lo \<le> i \<and> i < s \<and> s \<le> j \<and> j \<le> hi \<longrightarrow> key (arr' ! i) \<le> key (arr' ! j)"
    "\<forall>j. s \<le> j \<and> j \<le> hi \<longrightarrow> key (arr' ! s) \<le> key (arr' ! j)"
proof -
  define mid where "mid = lo + (hi - lo) div 2"
  have mid: "mid < length arr" "lo \<le> mid" "mid < hi" using assms(2,3) by (auto simp: mid_def)
  obtain arr2 where loop: "partitionLoop compare (arr ! mid) lo [lo..<hi] (swap_at mid hi arr) = (arr2, s)"
    and arr': "arr' = swap_at s hi arr2"
    using assms(1) by (auto simp: partition_at_def mid_def Let_def split: prod.splits)
  have nth1: "swap_at mid hi arr ! m = (if m = hi then arr ! mid else if m = mid then arr ! hi else arr ! m)" for m
    using nth_swap_at [OF mid(1) assms(3)] by simp
  have empty: "\<forall>j. lo \<le> j \<and> j < lo \<longrightarrow> P j" for P :: "nat \<Rightarrow> bool" by auto
  have lens: "lo \<le> hi" "hi < length (swap_at mid hi arr)" using assms(2,3) by simp_all
  note spec0 = partitionLoop_spec [OF loop le_refl le_refl lens empty empty]
  have spec: "mset arr2 = mset (swap_at mid hi arr)" "length arr2 = length arr" "s \<le> hi" "lo \<le> s"
    "\<And>j. j < lo \<or> hi \<le> j \<Longrightarrow> arr2 ! j = swap_at mid hi arr ! j"
    "\<And>j. lo \<le> j \<and> j < s \<Longrightarrow> key (arr2 ! j) < key (arr ! mid)" "\<And>j. s \<le> j \<and> j < hi \<Longrightarrow> key (arr ! mid) \<le> key (arr2 ! j)"
    using spec0 by (simp_all, blast)
  have hs: "s < length arr2" "hi < length arr2" using spec(2,3) assms(3) by auto
  have nth2: "arr' ! m = (if m = hi then arr2 ! s else if m = s then arr2 ! hi else arr2 ! m)" for m
    unfolding arr' using nth_swap_at [OF hs] by simp
  have pivot: "arr2 ! hi = arr ! mid" using spec(5) [of hi] nth1 by simp
  show "mset arr' = mset arr" using arr' mset_swap_at [OF hs] spec(1) mset_swap_at [OF mid(1) assms(3)] by simp
  have len: "length arr' = length arr" using arr' spec(2) by simp
  show "take lo arr' = take lo arr"
    using len spec(4,5) assms(2,3) mid by (intro nth_equalityI) (auto simp: nth2 nth1)
  show "drop (Suc hi) arr' = drop (Suc hi) arr"
    using len spec(3,5) mid by (intro nth_equalityI) (auto simp: nth2 nth1)
  show "lo \<le> s" "s \<le> hi" by fact+
  have at_s: "arr' ! s = arr ! mid" using pivot by (auto simp: nth2)
  show *: "\<forall>j. s \<le> j \<and> j \<le> hi \<longrightarrow> key (arr' ! s) \<le> key (arr' ! j)"
    unfolding at_s using spec(7) pivot by (auto simp: nth2 le_less)
  have "key (arr' ! i) \<le> key (arr' ! s)" if "lo \<le> i" "i < s" for i
    using that spec(3) spec(6) [of i] unfolding at_s by (auto simp: nth2)
  then show "\<forall>i j. lo \<le> i \<and> i < s \<and> s \<le> j \<and> j \<le> hi \<longrightarrow> key (arr' ! i) \<le> key (arr' ! j)"
    using * by (meson order_trans)
qed

lemma selectLoop_cut:
  assumes "cut lo arr" "cut (Suc hi) arr" "lo \<le> k - 1" "k - 1 \<le> hi" "hi < length arr" "0 < k"
  shows "mset (selectLoop compare k lo hi arr) = mset arr \<and> cut k (selectLoop compare k lo hi arr)"
  using assms
proof (induction "hi - lo" arbitrary: lo hi arr rule: less_induct)
  case less
  show ?case
  proof (cases "lo < hi")
    case False
    then have "Suc hi = k" using less.prems(3,4,6) by simp
    with False less.prems(2) show ?thesis by (subst (1 2) selectLoop.simps) simp
  next
    case True
    obtain arr' s where part: "partition_at compare arr lo hi = (arr', s)" by fastforce
    note spec = partition_at_spec [OF part True less.prems(5)]
    have len: "length arr' = length arr" using spec(1) by (metis size_mset)
    have cuts: "cut lo arr'" "cut (Suc hi) arr'"
      using cut_rearranged [OF spec(1)] spec(2,3) less.prems(1,2) by blast+
    have cut_s: "cut s arr'" unfolding cut_nth
    proof (intro allI impI)
      fix i j assume ij: "i < s \<and> s \<le> j \<and> j < length arr'"
      consider "i < lo" | "lo \<le> i" "hi < j" | "lo \<le> i" "j \<le> hi" by linarith
      then show "key (arr' ! i) \<le> key (arr' ! j)"
        using ij spec(4-6) cuts unfolding cut_nth by cases auto
    qed
    have cut_Suc: "cut (Suc s) arr'" unfolding cut_nth
    proof (intro allI impI)
      fix i j assume ij: "i < Suc s \<and> Suc s \<le> j \<and> j < length arr'"
      consider "i < s" | "i = s" "hi < j" | "i = s" "j \<le> hi" using ij by linarith
      then show "key (arr' ! i) \<le> key (arr' ! j)"
        using ij spec(5,7) cuts cut_s unfolding cut_nth by cases auto
    qed
    consider "s < k - 1" | "k - 1 < s" | "s = k - 1" by linarith
    then show ?thesis
    proof cases
      case 1
      with less.hyps [of hi "s + 1" arr'] cut_Suc cuts(2) less.prems(4-6) spec(1,4,5) len True part
      show ?thesis by (subst (1 2) selectLoop.simps) simp
    next
      case 2
      with less.hyps [of "s - 1" lo arr'] cut_s cuts(1) less.prems(3-6) spec(1,4,5) len True part
      show ?thesis by (subst (1 2) selectLoop.simps) simp
    next
      case 3
      with cut_Suc less.prems(6) spec(1) True part show ?thesis by (subst (1 2) selectLoop.simps) simp
    qed
  qed
qed

lemma partialSelect_cut:
  "mset (partialSelect arr k compare) = mset arr \<and> cut k (partialSelect arr k compare)"
proof (cases "k = 0 \<or> k \<ge> length arr")
  case True
  then show ?thesis by (auto simp: partialSelect_def cut_def)
next
  case False
  then have "cut 0 arr" "cut (Suc (length arr - 1)) arr" by (simp_all add: cut_def)
  with selectLoop_cut [of 0 arr "length arr - 1" k] False show ?thesis by (auto simp: partialSelect_def)
qed

lemma sort_cut:
  assumes "cut k ys"
  shows "sort (map key ys) = sort (map key (take k ys)) @ sort (map key (drop k ys))"
proof (rule properties_for_sort)
  have "mset (map key ys) = mset (map key (take k ys)) + mset (map key (drop k ys))"
    by (metis append_take_drop_id map_append mset_append)
  then show "mset (sort (map key (take k ys)) @ sort (map key (drop k ys))) = mset (map key ys)" by simp
  show "sorted (sort (map key (take k ys)) @ sort (map key (drop k ys)))"
    using assms by (auto simp: sorted_append cut_def)
qed

lemma partialSelect_sorts:
  "sort (map key (take k (partialSelect arr k compare))) = take k (sort (map key arr))" (is ?chosen)
  "sort (map key (drop k (partialSelect arr k compare))) = drop k (sort (map key arr))" (is ?rest)
proof -
  let ?ys = "partialSelect arr k compare"
  have "mset (map key ?ys) = mset (map key arr)" using partialSelect_cut by (metis mset_map)
  then have "sort (map key arr) = sort (map key ?ys)" by (metis properties_for_sort sorted_sort mset_sort)
  also have "\<dots> = sort (map key (take k ?ys)) @ sort (map key (drop k ?ys))" using partialSelect_cut by (rule sort_cut [OF conjunct2])
  finally have eq: "sort (map key arr) = sort (map key (take k ?ys)) @ sort (map key (drop k ?ys))" .
  have "length ?ys = length arr" using partialSelect_cut by (metis size_mset)
  then show ?chosen ?rest unfolding eq by (cases "k \<le> length arr"; simp)+
qed

end

definition feeKey :: "MempoolTx \<Rightarrow> bigint \<times> int" where
  "feeKey tx = (gasPrice tx, receivedAtMs tx)"

interpretation fee: comparator feeCompare feeKey
  by unfold_locales (auto simp: feeCompare_def feeKey_def)


section \<open>The indices\<close>

lemma colon_not_in_show_int: "CHR '':'' \<notin> set (show_int n)"
proof -
  have "CHR '':'' \<notin> set (show_nat m)" for m using show_nat_digits [of "CHR '':''" m] by auto
  then show ?thesis by (simp add: show_int_def)
qed

lemma split_last_colon:
  assumes "CHR '':'' \<notin> set s" and "CHR '':'' \<notin> set t" and "x @ '':'' @ s = y @ '':'' @ t"
  shows "x = y \<and> s = t"
proof -
  have front: "takeWhile (\<lambda>c. c \<noteq> CHR '':'') (a @ CHR '':'' # b) = a" if "CHR '':'' \<notin> set a" for a b
    using that by (subst takeWhile_append2) auto
  have "rev s @ CHR '':'' # rev x = rev t @ CHR '':'' # rev y" using arg_cong [OF assms(3), of rev] by simp
  then have "rev s = rev t" using front [of "rev s" "rev x"] front [of "rev t" "rev y"] assms(1,2) by simp
  with assms(3) show ?thesis by simp
qed

lemma nonceKey_inj [simp]: "nonceKey f n = nonceKey g m \<longleftrightarrow> f = g \<and> n = m"
  unfolding nonceKey_def using split_last_colon [OF colon_not_in_show_int colon_not_in_show_int, of f n g m] by auto

text \<open>
  A transaction's hash is the digest of its signed bytes: it is not empty, and two transactions with the same hash have the same
  sender and nonce. \<open>bind\<close> is the sender and nonce of a hash.
\<close>

definition hash_binds :: "(hex \<Rightarrow> hex \<times> bigint) \<Rightarrow> EthTx \<Rightarrow> bool" where
  "hash_binds bind tx \<longleftrightarrow> e_hash tx \<noteq> [] \<and> bind (e_hash tx) = (toLowerCase (coalesce (e_from tx) []), int (e_nonce tx))"

definition holds_tx :: "MempoolState \<Rightarrow> hex \<Rightarrow> MempoolTx \<Rightarrow> bool" where
  "holds_tx p h tx \<longleftrightarrow> jget (poolTxs p) h = Some tx"

definition pool_maps_ok :: "MempoolState \<Rightarrow> bool" where
  "pool_maps_ok p \<longleftrightarrow> jmap_ok (poolTxs p) \<and> jmap_ok (bySender p) \<and> jmap_ok (byNonce p)"

definition pool_index_ok :: "(hex \<Rightarrow> hex \<times> bigint) \<Rightarrow> MempoolState \<Rightarrow> bool" where
  "pool_index_ok bind p \<longleftrightarrow>
     (\<forall>h tx. holds_tx p h tx \<longrightarrow> h \<noteq> [] \<and> txHash tx = h \<and> bind h = (txFrom tx, txNonce tx)) \<and>
     (\<forall>k h. jget (byNonce p) k = Some h \<longleftrightarrow> (\<exists>tx. holds_tx p h tx \<and> k = nonceKey (txFrom tx) (txNonce tx))) \<and>
     (\<forall>s. set (get_or [] (bySender p) s) = {h. \<exists>tx. holds_tx p h tx \<and> txFrom tx = s}) \<and>
     (\<forall>s hs. jget (bySender p) s = Some hs \<longrightarrow> hs \<noteq> [] \<and> distinct hs)"

definition pool_limits_ok :: "MempoolState \<Rightarrow> bool" where
  "pool_limits_ok p \<longleftrightarrow> length (poolTxs p) \<le> maxSize (cfg p) \<and>
     (\<forall>s. length (get_or [] (bySender p) s) \<le> max 1 (maxPerSender (cfg p)))"

definition pool_ok :: "(hex \<Rightarrow> hex \<times> bigint) \<Rightarrow> MempoolState \<Rightarrow> bool" where
  "pool_ok bind p \<longleftrightarrow> pool_maps_ok p \<and> pool_index_ok bind p \<and> pool_limits_ok p"

lemma newMempool_ok: "pool_ok bind (newMempool c)"
  by (simp add: pool_ok_def pool_maps_ok_def pool_index_ok_def pool_limits_ok_def newMempool_def holds_tx_def get_or_def)

lemma pool_index_facts:
  assumes "pool_index_ok bind p"
  shows index_hash: "holds_tx p h tx \<Longrightarrow> h \<noteq> [] \<and> txHash tx = h \<and> bind h = (txFrom tx, txNonce tx)"
    and index_nonce: "jget (byNonce p) k = Some h \<longleftrightarrow> (\<exists>tx. holds_tx p h tx \<and> k = nonceKey (txFrom tx) (txNonce tx))"
    and index_sender: "set (get_or [] (bySender p) s) = {h. \<exists>tx. holds_tx p h tx \<and> txFrom tx = s}"
    and index_nonempty: "jget (bySender p) s = Some hs \<Longrightarrow> hs \<noteq> [] \<and> distinct hs"
  using assms unfolding pool_index_ok_def by blast+

lemma holds_tx_det: "holds_tx p h tx \<Longrightarrow> holds_tx p h tx' \<longleftrightarrow> tx' = tx"
  by (auto simp: holds_tx_def)

subsection \<open>Removal\<close>

lemma removeTx_absent: "jget (poolTxs p) h = None \<Longrightarrow> removeTx h p = p"
  by (simp add: removeTx_def)

lemma removeTx_poolTxs: "poolTxs (removeTx h p) = jdel h (poolTxs p)"
proof (cases "jget (poolTxs p) h")
  case None
  then have "h \<notin> fst ` set (poolTxs p)" by (simp add: map_of_eq_None_iff)
  with None show ?thesis by (simp add: removeTx_def delete_idem)
qed (simp add: removeTx_def)

lemma removeTx_frame [simp]: "cfg (removeTx h p) = cfg p" "poisoned (removeTx h p) = poisoned p"
  by (simp_all add: removeTx_def split: option.splits)

lemma removeTx_holds: "holds_tx (removeTx h p) h' tx \<longleftrightarrow> h' \<noteq> h \<and> holds_tx p h' tx"
  by (auto simp: holds_tx_def removeTx_poolTxs)

lemma removeTx_bySender:
  assumes "pool_index_ok bind p" and "holds_tx p h tx"
  shows "get_or [] (bySender (removeTx h p)) s = removeAll h (get_or [] (bySender p) s)"
proof -
  have in_s: "h \<in> set (get_or [] (bySender p) s) \<longleftrightarrow> txFrom tx = s" for s
    unfolding index_sender [OF assms(1)] using holds_tx_det [OF assms(2)] assms(2) by auto
  then have "get_or [] (bySender p) (txFrom tx) \<noteq> []" by (metis empty_iff empty_set)
  then obtain hs where hs: "jget (bySender p) (txFrom tx) = Some hs"
    by (cases "jget (bySender p) (txFrom tx)") (simp_all add: get_or_def)
  have "h \<notin> set (get_or [] (bySender p) s)" if "txFrom tx \<noteq> s" using in_s that by simp
  then show ?thesis
    using assms(2) hs by (cases "txFrom tx = s") (auto simp: removeTx_def holds_tx_def get_or_def Let_def split: option.splits)
qed

lemma removeTx_maps: "pool_maps_ok p \<Longrightarrow> pool_maps_ok (removeTx h p)"
  by (auto simp: pool_maps_ok_def removeTx_def Let_def split: option.splits)

lemma removeTx_index:
  assumes "pool_index_ok bind p"
  shows "pool_index_ok bind (removeTx h p)"
proof (cases "jget (poolTxs p) h")
  case None
  then show ?thesis using assms by (simp add: removeTx_absent)
next
  case (Some tx)
  then have tx: "holds_tx p h tx" by (simp add: holds_tx_def)
  note key = index_nonce [OF assms] and ne = index_nonempty [OF assms]
  have nonce: "byNonce (removeTx h p) = jdel (nonceKey (txFrom tx) (txNonce tx)) (byNonce p)" using Some by (simp add: removeTx_def)
  have at_key: "jget (byNonce p) (nonceKey (txFrom tx) (txNonce tx)) = Some h" using key tx by blast
  have "jget (byNonce (removeTx h p)) k = Some h' \<longleftrightarrow> (\<exists>tx. holds_tx (removeTx h p) h' tx \<and> k = nonceKey (txFrom tx) (txNonce tx))"
    for k h'
  proof (cases "k = nonceKey (txFrom tx) (txNonce tx)")
    case True
    then show ?thesis unfolding nonce removeTx_holds using key [of k h'] at_key by auto
  next
    case False
    then show ?thesis unfolding nonce removeTx_holds using key [of k h'] holds_tx_det [OF tx] by auto
  qed
  moreover have "\<And>s. set (get_or [] (bySender (removeTx h p)) s) = {h'. \<exists>tx. holds_tx (removeTx h p) h' tx \<and> txFrom tx = s}"
    unfolding removeTx_bySender [OF assms tx] removeTx_holds using index_sender [OF assms] by auto
  moreover have "hs \<noteq> [] \<and> distinct hs" if hs: "jget (bySender (removeTx h p)) s = Some hs" for s hs
  proof (cases "jget (bySender p) (txFrom tx)")
    case None
    with Some hs show ?thesis by (intro ne [of s]) (simp add: removeTx_def)
  next
    case left: (Some hs0)
    then have "distinct (removeAll h hs0)" using ne [OF left] by (simp add: distinct_removeAll)
    moreover have "bySender (removeTx h p) =
        (if removeAll h hs0 = [] then jdel (txFrom tx) (bySender p) else jset (txFrom tx) (removeAll h hs0) (bySender p))"
      using Some left by (simp add: removeTx_def)
    ultimately show ?thesis
      using hs ne [of s hs] by (cases "s = txFrom tx") (simp_all split: if_splits)
  qed
  ultimately show ?thesis using assms unfolding pool_index_ok_def removeTx_holds by blast
qed

lemma removeTx_limits:
  assumes "pool_index_ok bind p" and "pool_limits_ok p"
  shows "pool_limits_ok (removeTx h p)"
proof (cases "jget (poolTxs p) h")
  case (Some tx)
  then have tx: "holds_tx p h tx" by (simp add: holds_tx_def)
  show ?thesis
    using assms(2) unfolding pool_limits_ok_def removeTx_poolTxs removeTx_bySender [OF assms(1) tx] removeTx_frame
    by (meson length_delete_le length_removeAll_less_eq order_trans)
qed (use assms in \<open>simp add: removeTx_absent\<close>)

lemma removeTx_ok: "pool_ok bind p \<Longrightarrow> pool_ok bind (removeTx h p)"
  unfolding pool_ok_def using removeTx_maps removeTx_index removeTx_limits by blast

lemma removeTxs_ok: "pool_ok bind p \<Longrightarrow> pool_ok bind (foldl (\<lambda>p x. removeTx (f x) p) p xs)"
  by (induction xs arbitrary: p) (simp_all add: removeTx_ok)

lemma removeTxs_poolTxs: "poolTxs (foldl (\<lambda>p x. removeTx (f x) p) p xs) = filter (\<lambda>(h, tx). h \<notin> f ` set xs) (poolTxs p)"
proof (induction xs arbitrary: p)
  case (Cons x xs)
  then show ?case by (auto simp: removeTx_poolTxs AList.delete_eq intro!: filter_cong)
qed (simp add: case_prod_beta)

lemma removeTxs_frame [simp]: "cfg (foldl (\<lambda>p x. removeTx (f x) p) p xs) = cfg p"
  by (induction xs arbitrary: p) simp_all


subsection \<open>Insertion\<close>

definition fresh_for :: "(hex \<Rightarrow> hex \<times> bigint) \<Rightarrow> MempoolTx \<Rightarrow> MempoolState \<Rightarrow> bool" where
  "fresh_for bind item p \<longleftrightarrow> txHash item \<noteq> [] \<and> bind (txHash item) = (txFrom item, txNonce item) \<and>
     jget (byNonce p) (nonceKey (txFrom item) (txNonce item)) = None"

lemma fresh_hash:
  assumes "fresh_for bind item p" and "pool_index_ok bind p"
  shows "jget (poolTxs p) (txHash item) = None"
proof (rule ccontr)
  assume "jget (poolTxs p) (txHash item) \<noteq> None"
  then obtain tx where tx: "holds_tx p (txHash item) tx" by (auto simp: holds_tx_def)
  then have "txFrom tx = txFrom item" "txNonce tx = txNonce item"
    using index_hash [OF assms(2) tx] assms(1) by (simp_all add: fresh_for_def)
  with tx have "jget (byNonce p) (nonceKey (txFrom item) (txNonce item)) = Some (txHash item)"
    unfolding index_nonce [OF assms(2)] by metis
  with assms(1) show False by (simp add: fresh_for_def)
qed

lemma insertTx_holds: "holds_tx (insertTx item p) h tx \<longleftrightarrow> (if h = txHash item then tx = item else holds_tx p h tx)"
  by (auto simp: insertTx_def holds_tx_def)

lemma insertTx_frame [simp]: "cfg (insertTx item p) = cfg p" "poisoned (insertTx item p) = poisoned p"
  by (simp_all add: insertTx_def)

lemma index_distinct:
  assumes "pool_index_ok bind p"
  shows "distinct (get_or [] (bySender p) s)"
proof (cases "jget (bySender p) s")
  case (Some hs)
  then show ?thesis using index_nonempty [OF assms Some] by (simp add: get_or_def)
qed (simp add: get_or_def)

lemma insertTx_index:
  assumes "fresh_for bind item p" and "pool_index_ok bind p"
  shows "pool_index_ok bind (insertTx item p)"
proof -
  let ?p = "insertTx item p"
  have new: "\<not> holds_tx p (txHash item) tx" for tx using fresh_hash [OF assms] by (simp add: holds_tx_def)
  have item: "txHash item \<noteq> []" "bind (txHash item) = (txFrom item, txNonce item)"
    "jget (byNonce p) (nonceKey (txFrom item) (txNonce item)) = None"
    using assms(1) by (simp_all add: fresh_for_def)
  have "h \<noteq> [] \<and> txHash tx = h \<and> bind h = (txFrom tx, txNonce tx)" if "holds_tx ?p h tx" for h tx
    using that item index_hash [OF assms(2), of h tx] by (cases "h = txHash item") (simp_all add: insertTx_holds)
  moreover have "jget (byNonce ?p) k = Some h \<longleftrightarrow> (\<exists>tx. holds_tx ?p h tx \<and> k = nonceKey (txFrom tx) (txNonce tx))" for k h
  proof (cases "h = txHash item")
    case True
    have "jget (byNonce p) k \<noteq> Some (txHash item)" unfolding index_nonce [OF assms(2)] using new by blast
    with True show ?thesis unfolding insertTx_holds by (auto simp: insertTx_def)
  next
    case False
    have "jget (byNonce p) k = Some h \<longleftrightarrow> (\<exists>tx. holds_tx p h tx \<and> k = nonceKey (txFrom tx) (txNonce tx))"
      by (rule index_nonce [OF assms(2)])
    moreover have "jget (byNonce ?p) k = Some h \<longleftrightarrow> jget (byNonce p) k = Some h"
      using False item(3) by (auto simp: insertTx_def)
    ultimately show ?thesis using False by (simp add: insertTx_holds)
  qed
  moreover have "set (get_or [] (bySender ?p) s) = {h. \<exists>tx. holds_tx ?p h tx \<and> txFrom tx = s}" for s
  proof -
    have "set (get_or [] (bySender ?p) s) = (if s = txFrom item then {txHash item} else {}) \<union> set (get_or [] (bySender p) s)"
      by (simp add: insertTx_def)
    then show ?thesis unfolding index_sender [OF assms(2)] insertTx_holds using new by auto
  qed
  moreover have "hs \<noteq> [] \<and> distinct hs" if "jget (bySender ?p) s = Some hs" for s hs
  proof (cases "s = txFrom item")
    case True
    have "hs = set_add (txHash item) (get_or [] (bySender p) s)" using that True by (simp add: insertTx_def)
    then show ?thesis using index_distinct [OF assms(2), of s] by (auto simp: set_add_def)
  next
    case False
    with that show ?thesis by (intro index_nonempty [OF assms(2), of s]) (simp add: insertTx_def)
  qed
  ultimately show ?thesis unfolding pool_index_ok_def by blast
qed

lemma insertTx_ok:
  assumes "fresh_for bind item p" and "pool_ok bind p"
    and "length (poolTxs p) < maxSize (cfg p)" and "length (get_or [] (bySender p) (txFrom item)) < max 1 (maxPerSender (cfg p))"
  shows "pool_ok bind (insertTx item p)"
proof -
  have ok: "pool_maps_ok p" "pool_index_ok bind p" "pool_limits_ok p" using assms(2) by (simp_all add: pool_ok_def)
  have "txHash item \<notin> fst ` set (poolTxs p)" using fresh_hash [OF assms(1) ok(2)] by (simp add: map_of_eq_None_iff)
  then have "length (poolTxs (insertTx item p)) = Suc (length (poolTxs p))" by (simp add: insertTx_def jset_fresh)
  moreover have "length (get_or [] (bySender (insertTx item p)) s) \<le> max 1 (maxPerSender (cfg p))" for s
    using assms(4) ok(3) by (auto simp: insertTx_def set_add_def pool_limits_ok_def)
  ultimately have "pool_limits_ok (insertTx item p)" using assms(3) by (simp add: pool_limits_ok_def)
  moreover have "pool_maps_ok (insertTx item p)" using ok(1) by (simp add: pool_maps_ok_def insertTx_def)
  ultimately show ?thesis using insertTx_index [OF assms(1) ok(2)] by (simp add: pool_ok_def)
qed

subsection \<open>Eviction and expiry\<close>

lemma evictLowestFee_eq:
  "evictLowestFee p = foldl (\<lambda>p tx. removeTx (txHash tx) p) p
     (take (evictionBatchSize (cfg p)) (partialSelect (map snd (poolTxs p)) (min (evictionBatchSize (cfg p)) (length (poolTxs p))) feeCompare))"
proof -
  let ?k = "min (evictionBatchSize (cfg p)) (length (poolTxs p))"
  let ?ys = "partialSelect (map snd (poolTxs p)) ?k feeCompare"
  have "length ?ys = length (poolTxs p)" using fee.partialSelect_cut by (metis size_mset length_map)
  moreover have "take (min b (length ys)) ys = take b ys" for b and ys :: "MempoolTx list" by (simp add: min_def)
  ultimately have "take ?k ?ys = take (evictionBatchSize (cfg p)) ?ys" by metis
  then show ?thesis by (cases "?k = 0") (auto simp: evictLowestFee_def Let_def)
qed

lemma evictLowestFee_ok: "pool_ok bind p \<Longrightarrow> pool_ok bind (evictLowestFee p)"
  unfolding evictLowestFee_eq by (rule removeTxs_ok)

lemma evictLowestFee_cfg [simp]: "cfg (evictLowestFee p) = cfg p"
  unfolding evictLowestFee_eq by simp

lemma evictLowestFee_byNonce:
  assumes "pool_ok bind p" and "jget (byNonce p) k = None"
  shows "jget (byNonce (evictLowestFee p)) k = None"
proof (rule ccontr)
  assume "jget (byNonce (evictLowestFee p)) k \<noteq> None"
  then obtain h where h: "jget (byNonce (evictLowestFee p)) k = Some h" by blast
  have ix: "pool_index_ok bind p" "pool_index_ok bind (evictLowestFee p)"
    using assms(1) evictLowestFee_ok [OF assms(1)] by (simp_all add: pool_ok_def)
  have maps: "jmap_ok (poolTxs p)" using assms(1) by (simp add: pool_ok_def pool_maps_ok_def)
  obtain tx where tx: "holds_tx (evictLowestFee p) h tx" "k = nonceKey (txFrom tx) (txNonce tx)"
    using h unfolding index_nonce [OF ix(2)] by blast
  have "holds_tx p h tx"
    using tx(1) maps by (auto simp: holds_tx_def evictLowestFee_eq removeTxs_poolTxs jget_filter split: option.splits if_splits)
  then have "jget (byNonce p) k = Some h" using tx(2) unfolding index_nonce [OF ix(1)] by blast
  with assms(2) show False by simp
qed

lemma evictLowestFee_bySender:
  assumes "pool_ok bind p"
  shows "length (get_or [] (bySender (evictLowestFee p)) s) \<le> length (get_or [] (bySender p) s)"
proof -
  have "length (get_or [] (bySender (foldl (\<lambda>p x. removeTx (txHash x) p) p xs)) s) \<le> length (get_or [] (bySender p) s)" for xs
    using assms
  proof (induction xs arbitrary: p)
    case (Cons x xs)
    have ix: "pool_index_ok bind p" using Cons.prems by (simp add: pool_ok_def)
    have "length (get_or [] (bySender (removeTx (txHash x) p)) s) \<le> length (get_or [] (bySender p) s)"
    proof (cases "jget (poolTxs p) (txHash x)")
      case (Some tx)
      then show ?thesis using removeTx_bySender [OF ix, of "txHash x" tx s] by (simp add: holds_tx_def length_removeAll_less_eq)
    qed (simp add: removeTx_absent)
    with Cons.IH [OF removeTx_ok [OF Cons.prems]] show ?case by (simp, meson order_trans)
  qed simp
  then show ?thesis unfolding evictLowestFee_eq .
qed

lemma evictLowestFee_shrinks:
  assumes "pool_ok bind p" and "evictLowestFee p \<noteq> p"
  shows "length (poolTxs (evictLowestFee p)) < length (poolTxs p)"
proof -
  let ?ys = "partialSelect (map snd (poolTxs p)) (min (evictionBatchSize (cfg p)) (length (poolTxs p))) feeCompare"
  obtain tx xs where xs: "take (evictionBatchSize (cfg p)) ?ys = tx # xs"
    using assms(2) unfolding evictLowestFee_eq by (cases "take (evictionBatchSize (cfg p)) ?ys") auto
  then have "tx \<in> set (map snd (poolTxs p))"
    using fee.partialSelect_cut by (metis in_set_takeD list.set_intros(1) mset_eq_setD)
  then obtain h where h: "(h, tx) \<in> set (poolTxs p)" by auto
  then have "holds_tx p h tx" using assms(1) by (simp add: holds_tx_def pool_ok_def pool_maps_ok_def jget_iff)
  then have "txHash tx = h" using index_hash assms(1) by (auto simp: pool_ok_def)
  with h show ?thesis
    unfolding evictLowestFee_eq removeTxs_poolTxs xs by (intro length_filter_less) auto
qed

lemma evictExpired_eq:
  "evictExpired now p =
     (let old = filter (\<lambda>(h, tx). receivedAtMs tx < now - txTtlMs (cfg p)) (poolTxs p)
      in (foldl (\<lambda>p e. removeTx (fst e) p) p old, length old))"
proof -
  have "foldl (\<lambda>(p, n) (h, tx). if receivedAtMs tx < c then (removeTx h p, n + 1) else (p, n)) (p, n) m =
      (foldl (\<lambda>p e. removeTx (fst e) p) p (filter (\<lambda>(h, tx). receivedAtMs tx < c) m),
       n + length (filter (\<lambda>(h, tx). receivedAtMs tx < c) m))" for c n and m :: "(hex \<times> MempoolTx) list"
    by (induction m arbitrary: p n) auto
  then show ?thesis by (simp add: evictExpired_def Let_def)
qed

lemma evictExpired_ok: "pool_ok bind p \<Longrightarrow> pool_ok bind (fst (evictExpired now p))"
  unfolding evictExpired_eq Let_def fst_conv by (rule removeTxs_ok)


subsection \<open>Admission\<close>

lemma admitTx_spec:
  assumes "pool_ok bind p" and "fresh_for bind item p"
  obtains (refused) e where "admitTx item p = (p, Inl e)"
      "length (poolTxs p) = maxSize (cfg p) \<or>
       (\<exists>s. jget (bySender p) (txFrom item) = Some s \<and> maxPerSender (cfg p) \<le> length s)"
  | (stored) "admitTx item p = (insertTx item p, Inr item)" "pool_ok bind (insertTx item p)" "length (poolTxs p) < maxSize (cfg p)"
  | (evicting) "admitTx item p = (insertTx item (evictLowestFee p), Inr item)" "pool_ok bind (insertTx item (evictLowestFee p))"
      "length (poolTxs p) = maxSize (cfg p)"
proof (cases "case jget (bySender p) (txFrom item) of None \<Rightarrow> False | Some s \<Rightarrow> length s \<ge> maxPerSender (cfg p)")
  case True
  then show ?thesis by (intro refused) (auto simp: admitTx_def split: option.splits)
next
  case False
  then have room: "length (get_or [] (bySender p) (txFrom item)) < max 1 (maxPerSender (cfg p))"
    by (auto simp: get_or_def split: option.splits)
  have "length (poolTxs p) \<le> maxSize (cfg p)" using assms(1) by (simp add: pool_ok_def pool_limits_ok_def)
  then consider "length (poolTxs p) < maxSize (cfg p)" | "length (poolTxs p) = maxSize (cfg p)" by linarith
  then show ?thesis
  proof cases
    case 1
    with False show ?thesis by (intro stored insertTx_ok assms room) (simp_all add: admitTx_def)
  next
    case full: 2
    let ?p2 = "evictLowestFee p"
    show ?thesis
    proof (cases "length (poolTxs ?p2) < maxSize (cfg p)")
      case True
      have "fresh_for bind item ?p2"
        using assms(2) evictLowestFee_byNonce [OF assms(1)] by (simp add: fresh_for_def)
      moreover have "length (get_or [] (bySender ?p2) (txFrom item)) < max 1 (maxPerSender (cfg p))"
        using room evictLowestFee_bySender [OF assms(1), of "txFrom item"] by linarith
      ultimately have "pool_ok bind (insertTx item ?p2)"
        using True evictLowestFee_ok [OF assms(1)] by (intro insertTx_ok) simp_all
      with False True full show ?thesis by (intro evicting) (simp_all add: admitTx_def Let_def)
    next
      case stuck: False
      then have "?p2 = p" using evictLowestFee_shrinks [OF assms(1)] full by fastforce
      with False stuck full show ?thesis by (intro refused) (auto simp: admitTx_def Let_def)
    qed
  qed
qed

text \<open>The transaction that takes the place of another: its predecessor is gone, so nothing refuses it.\<close>

lemma replace_admits:
  assumes "pool_ok bind p" and "holds_tx p h old" and "fresh_for bind item (removeTx h p)" and "txFrom item = txFrom old"
  shows "admitTx item (removeTx h p) = (insertTx item (removeTx h p), Inr item) \<and> pool_ok bind (insertTx item (removeTx h p))"
proof -
  let ?q = "removeTx h p"
  have ix: "pool_index_ok bind p" and ixq: "pool_index_ok bind ?q" and q: "pool_ok bind ?q"
    and lim: "pool_limits_ok p" and maps: "jmap_ok (poolTxs p)"
    using assms(1) removeTx_ok [OF assms(1)] by (simp_all add: pool_ok_def pool_maps_ok_def)
  have "(h, old) \<in> set (poolTxs p)" using assms(2) by (simp add: holds_tx_def map_of_SomeD)
  then have "length (poolTxs ?q) < length (poolTxs p)"
    unfolding removeTx_poolTxs AList.delete_eq by (rule length_filter_less) simp
  then have size: "length (poolTxs ?q) \<noteq> maxSize (cfg ?q)" using lim by (simp add: pool_limits_ok_def)
  have "h \<in> set (get_or [] (bySender p) (txFrom old))" using assms(2) unfolding index_sender [OF ix] by blast
  then have "length (removeAll h (get_or [] (bySender p) (txFrom old))) < length (get_or [] (bySender p) (txFrom old))"
    by (rule length_removeAll_less)
  then have less: "length (get_or [] (bySender ?q) (txFrom item)) < max 1 (maxPerSender (cfg p))"
    using lim assms(4) unfolding removeTx_bySender [OF ix assms(2)] pool_limits_ok_def by (metis less_le_trans)
  have "\<not> (jget (bySender ?q) (txFrom item) = Some s \<and> maxPerSender (cfg ?q) \<le> length s)" for s
  proof
    assume s: "jget (bySender ?q) (txFrom item) = Some s \<and> maxPerSender (cfg ?q) \<le> length s"
    have "s \<noteq> []" using index_nonempty [OF ixq conjunct1 [OF s]] by simp
    moreover have "length s < max 1 (maxPerSender (cfg p))" using less s by (simp add: get_or_def)
    ultimately show False using s by (cases s) (simp_all add: max_def split: if_splits)
  qed
  with q assms(3) show ?thesis by (cases rule: admitTx_spec) (use size in auto)
qed

lemma mempoolItem_simps [simp]:
  "txHash (mempoolItem raw tx now) = e_hash tx" "txNonce (mempoolItem raw tx now) = int (e_nonce tx)"
  "txFrom (mempoolItem raw tx now) = toLowerCase (coalesce (e_from tx) [])"
  by (simp_all add: mempoolItem_def)

definition same_slot :: "MempoolTx \<Rightarrow> MempoolTx \<Rightarrow> bool" where
  "same_slot a b \<longleftrightarrow> txFrom a = txFrom b \<and> txNonce a = txNonce b"

lemma slot_unique:
  assumes "pool_index_ok bind p" and "holds_tx p h a" and "holds_tx p h' b" and "same_slot a b"
  shows "h = h' \<and> a = b"
proof -
  have "jget (byNonce p) (nonceKey (txFrom a) (txNonce a)) = Some h"
    "jget (byNonce p) (nonceKey (txFrom a) (txNonce a)) = Some h'"
    unfolding index_nonce [OF assms(1)] using assms(2-4) by (auto simp: same_slot_def)
  then have "h = h'" by simp
  with assms(2,3) show ?thesis by (simp add: holds_tx_def)
qed

lemma offerTx_spec:
  assumes "pool_ok bind p" and "txHash item \<noteq> []" "bind (txHash item) = (txFrom item, txNonce item)"
  obtains (refused) e where "offerTx item p = (p, Inl e)"
  | (accepted) q where "offerTx item p = (insertTx item q, Inr item)" "pool_ok bind (insertTx item q)"
      "(\<exists>h old. holds_tx p h old \<and> same_slot old item \<and> minReplacementPrice (cfg p) old \<le> gasPrice item \<and> q = removeTx h p) \<or>
       (\<nexists>h old. holds_tx p h old \<and> same_slot old item) \<and>
         (q = p \<and> length (poolTxs p) < maxSize (cfg p) \<or> q = evictLowestFee p \<and> length (poolTxs p) = maxSize (cfg p))"
proof (cases "jget (byNonce p) (nonceKey (txFrom item) (txNonce item))")
  case None
  have ix: "pool_index_ok bind p" using assms(1) by (simp add: pool_ok_def)
  have none: "\<nexists>h old. holds_tx p h old \<and> same_slot old item"
    using None index_nonce [OF ix, of "nonceKey (txFrom item) (txNonce item)"] unfolding same_slot_def
    by (metis option.distinct(1))
  have run: "offerTx item p = admitTx item p" using None by (simp add: offerTx_def)
  have fresh: "fresh_for bind item p" using None assms(2,3) by (simp add: fresh_for_def)
  from assms(1) fresh show ?thesis
  proof (cases rule: admitTx_spec)
    case (refused e)
    then show ?thesis by (intro that(1)) (simp add: run)
  next
    case stored
    with none show ?thesis by (intro that(2) [of p]) (simp_all add: run)
  next
    case evicting
    with none show ?thesis by (intro that(2) [of "evictLowestFee p"]) (simp_all add: run)
  qed
next
  case (Some eh)
  have ix: "pool_index_ok bind p" using assms(1) by (simp add: pool_ok_def)
  obtain ex where ex: "holds_tx p eh ex" "same_slot ex item"
    using Some unfolding index_nonce [OF ix] by (auto simp: same_slot_def)
  have eh: "eh \<noteq> []" "jget (poolTxs p) eh = Some ex" using index_hash [OF ix ex(1)] ex(1) by (simp_all add: holds_tx_def)
  show ?thesis
  proof (cases "gasPrice item < minReplacementPrice (cfg p) ex")
    case True
    with Some eh show ?thesis by (intro that(1)) (simp add: offerTx_def Let_def)
  next
    case False
    then have run: "offerTx item p = admitTx item (removeTx eh p)" using Some eh by (simp add: offerTx_def Let_def)
    have "fresh_for bind item (removeTx eh p)"
      using assms(2,3) Some eh ex(2) by (simp add: fresh_for_def removeTx_def same_slot_def)
    from replace_admits [OF assms(1) ex(1) this] ex(2) run
    have "offerTx item p = (insertTx item (removeTx eh p), Inr item)" "pool_ok bind (insertTx item (removeTx eh p))"
      by (simp_all add: same_slot_def)
    moreover have "minReplacementPrice (cfg p) ex \<le> gasPrice item" using False by simp
    ultimately show ?thesis using ex by (intro that(2) [of "removeTx eh p"]) blast+
  qed
qed

definition decodedTx :: "(hex \<Rightarrow> EthTx option) \<Rightarrow> hex \<Rightarrow> EthTx option \<Rightarrow> EthTx option" where
  "decodedTx decode raw preDecoded = (case preDecoded of Some t \<Rightarrow> Some t | None \<Rightarrow> decode raw)"

definition admissible :: "EthTx \<Rightarrow> MempoolState \<Rightarrow> bool" where
  "admissible tx p \<longleftrightarrow> validateTxStructure tx = None \<and> e_chainId tx = chainId (cfg p) \<and> \<not> isPoisoned (e_hash tx) p"

lemma addRawTx_eq:
  "decodedTx decode raw preDecoded = Some tx \<Longrightarrow> admissible tx p \<Longrightarrow>
     addRawTx decode raw preDecoded now p = offerTx (mempoolItem raw tx now) p"
  by (simp add: addRawTx_def decodedTx_def admissible_def isPoisoned_def)

lemma addRawTx_refused:
  assumes "\<nexists>tx. decodedTx decode raw preDecoded = Some tx \<and> admissible tx p"
  shows "\<exists>e. addRawTx decode raw preDecoded now p = (p, Inl e)"
  using assms unfolding addRawTx_def decodedTx_def [symmetric]
  by (auto simp: admissible_def isPoisoned_def split: option.splits)

lemma hash_binds_item:
  "hash_binds bind tx \<Longrightarrow> txHash (mempoolItem raw tx now) \<noteq> [] \<and>
     bind (txHash (mempoolItem raw tx now)) = (txFrom (mempoolItem raw tx now), txNonce (mempoolItem raw tx now))"
  by (simp add: hash_binds_def)

lemma addRawTx_ok:
  assumes "pool_ok bind p" and "\<forall>tx. decodedTx decode raw preDecoded = Some tx \<longrightarrow> hash_binds bind tx"
  shows "pool_ok bind (fst (addRawTx decode raw preDecoded now p))"
proof (cases "\<exists>tx. decodedTx decode raw preDecoded = Some tx \<and> admissible tx p")
  case False
  then show ?thesis using addRawTx_refused [of decode raw preDecoded p now] assms(1) by auto
next
  case True
  then obtain tx where tx: "decodedTx decode raw preDecoded = Some tx" "admissible tx p" by blast
  note item = hash_binds_item [OF assms(2) [rule_format, OF tx(1)], of raw now]
  show ?thesis unfolding addRawTx_eq [OF tx]
    by (rule offerTx_spec [OF assms(1) conjunct1 [OF item] conjunct2 [OF item]]) (use assms(1) in auto)
qed


lemma pool_hash_key:
  assumes "pool_ok bind p" and "(h, tx) \<in> set (poolTxs p)"
  shows "txHash tx = h"
proof -
  have "holds_tx p h tx" using assms by (simp add: holds_tx_def pool_ok_def pool_maps_ok_def jget_iff)
  then show ?thesis using index_hash assms(1) by (auto simp: pool_ok_def)
qed

lemma pool_hashes_distinct:
  assumes "pool_ok bind p"
  shows "inj_on txHash (set (map snd (poolTxs p)))" "distinct (map snd (poolTxs p))"
proof -
  have "map txHash (map snd (poolTxs p)) = map fst (poolTxs p)" using pool_hash_key [OF assms] by auto
  moreover have "distinct (map fst (poolTxs p))" using assms by (simp add: pool_ok_def pool_maps_ok_def jmap_ok_def)
  ultimately have "distinct (map txHash (map snd (poolTxs p)))" by metis
  then show "inj_on txHash (set (map snd (poolTxs p)))" "distinct (map snd (poolTxs p))" unfolding distinct_map [of txHash] by blast+
qed

lemma filter_not_take: "distinct ys \<Longrightarrow> filter (\<lambda>y. y \<notin> set (take b ys)) ys = drop b ys"
proof -
  assume "distinct ys"
  then have "distinct (take b ys @ drop b ys)" by simp
  then have disj: "set (take b ys) \<inter> set (drop b ys) = {}" unfolding distinct_append by blast
  have "filter (\<lambda>y. y \<notin> set (take b ys)) (take b ys @ drop b ys) = drop b ys"
    using disj unfolding filter_append by (auto simp: filter_id_conv)
  then show ?thesis by simp
qed

subsection \<open>Checked transactions\<close>

lemma countBytes_nonneg: "0 \<le> z \<Longrightarrow> 0 \<le> n \<Longrightarrow> countBytes ds z n = (z', n') \<Longrightarrow> 0 \<le> z' \<and> 0 \<le> n'"
  by (induction ds z n rule: countBytes.induct) (auto split: if_splits)

lemma computeIntrinsicGas_min:
  assumes "computeIntrinsicGas tx = Inr g"
  shows "21000 \<le> g"
proof -
  define ds where "ds = (let data = coalesce (e_data tx) ''0x'' in if take 2 data = ''0x'' then drop 2 data else data)"
  obtain z n where zn: "countBytes ds 0 0 = (z, n)" by fastforce
  then have "0 \<le> z \<and> 0 \<le> n" using countBytes_nonneg [of 0 0 ds z n] by simp
  moreover have "0 \<le> (int (length ds div 2) + 31) sdiv 32" by simp
  ultimately show ?thesis
    using assms zn unfolding computeIntrinsicGas_def ds_def [unfolded Let_def, symmetric] Let_def
    by (simp split: if_splits)
qed

lemma validated_tx:
  assumes "validateTxStructure tx = None"
  shows "21000 \<le> txGasLimit (mempoolItem raw tx now) \<and> txGasLimit (mempoolItem raw tx now) \<le> MAX_TX_GAS_LIMIT \<and>
    MIN_BASE_FEE \<le> maxFeePerGas (mempoolItem raw tx now)"
  using assms computeIntrinsicGas_min [of tx]
  by (auto simp: validateTxStructure_def mempoolItem_def Let_def split: if_splits sum.splits)

lemma replacement_bump:
  assumes "0 \<le> minGasBump c" and "0 \<le> gasPrice old" and "minReplacementPrice c old \<le> price"
  shows "gasPrice old * (100 + minGasBump c) \<le> 100 * price"
proof -
  have "0 \<le> gasPrice old * minGasBump c" using assms(1,2) by simp
  then have "gasPrice old + (gasPrice old * minGasBump c + 99) div 100 \<le> price" using assms(3) by (simp add: minReplacementPrice_def)
  then show ?thesis by (simp add: algebra_simps)
qed

lemma lookupTxs_set: "set (lookupTxs hs p) = {tx. \<exists>h\<in>set hs. jget (poolTxs p) h = Some tx}"
  by (induction hs) (auto simp: lookupTxs_def map_filter_simps split: option.splits)

lemma set_nonces: "set (foldl (\<lambda>s tx. set_add (txNonce tx) s) acc txs) = set acc \<union> txNonce ` set txs"
  by (induction txs arbitrary: acc) auto

lemma firstGap_Nil [simp]: "firstGap [] n = n"
  by (subst firstGap.simps) simp

lemma firstGap_spec: "n \<le> firstGap ns n \<and> firstGap ns n \<notin> set ns \<and> {n..<firstGap ns n} \<subseteq> set ns"
proof (induction ns n rule: firstGap.induct)
  case (1 ns n)
  show ?case
  proof (cases "n \<in> set ns")
    case True
    then have "firstGap ns n = firstGap ns (n + 1)" by (subst firstGap.simps) simp
    moreover have "{n..<m} \<subseteq> insert n {n + 1..<m}" for m by auto
    ultimately show ?thesis using 1 [OF True] True by auto
  qed (subst (1 2 3) firstGap.simps, simp)
qed

section \<open>What the pool guarantees\<close>

text \<open>
  (C22) A refused transaction leaves no trace. The checks come before the removal of the transaction it would have
  replaced and before any eviction that does not make room, so in a consistent pool every error of
  \<^verbatim>\<open>addRawTx\<close> leaves the pool as it was.
\<close>
theorem addRawTx_error_changes_nothing:
  assumes "pool_ok bind p" and "\<forall>tx. decodedTx decode raw preDecoded = Some tx \<longrightarrow> hash_binds bind tx"
    and "addRawTx decode raw preDecoded now p = (p', Inl e)"
  shows "p' = p"
proof (cases "\<exists>tx. decodedTx decode raw preDecoded = Some tx \<and> admissible tx p")
  case False
  then show ?thesis using addRawTx_refused [of decode raw preDecoded p now] assms(3) by auto
next
  case True
  then obtain tx where tx: "decodedTx decode raw preDecoded = Some tx" "admissible tx p" by blast
  note item = hash_binds_item [OF assms(2) [rule_format, OF tx(1)], of raw now]
  show ?thesis using assms(3) unfolding addRawTx_eq [OF tx]
    by (cases rule: offerTx_spec [OF assms(1) conjunct1 [OF item] conjunct2 [OF item]]) auto
qed

definition sampleTx :: EthTx where
  "sampleTx = \<lparr>e_from = Some ''0xAA'', e_type = Some 2, e_to = Some ''0xBB'', e_data = Some ''0x0001'', e_gasLimit = Some 50000,
     e_gasPrice = None, e_maxFeePerGas = Some 2000000000, e_maxPriorityFeePerGas = Some 1, e_chainId = 18780,
     e_hash = ''0xh1'', e_nonce = 0, e_value = Some 5\<rparr>"

definition sampleTx2 :: EthTx where
  "sampleTx2 = sampleTx\<lparr>e_maxFeePerGas := Some 3000000000, e_hash := ''0xh2'', e_nonce := 1\<rparr>"

definition sampleDecode :: "hex \<Rightarrow> EthTx option" where
  "sampleDecode raw = (if raw = ''0x01'' then Some sampleTx else if raw = ''0x02'' then Some sampleTx2 else None)"

definition sampleBind :: "hex \<Rightarrow> hex \<times> bigint" where
  "sampleBind h = (''0xaa'', if h = ''0xh1'' then 0 else 1)"

definition samplePool :: MempoolState where
  "samplePool = fst (addRawTx sampleDecode ''0x01'' None 0
     (fst (addRawTx sampleDecode ''0x02'' None 0 (newMempool (DEFAULT_CONFIG\<lparr>evictionBatchSize := 1\<rparr>)))))"

lemma sample_binds: "\<forall>tx. decodedTx sampleDecode raw None = Some tx \<longrightarrow> hash_binds sampleBind tx"
proof -
  have "hash_binds sampleBind sampleTx" "hash_binds sampleBind sampleTx2" by code_simp+
  then show ?thesis by (auto simp: decodedTx_def sampleDecode_def)
qed

lemma samplePool_ok: "pool_ok sampleBind samplePool"
  unfolding samplePool_def by (intro addRawTx_ok newMempool_ok sample_binds)

theorem addRawTx_error_changes_nothing_witness:
  "fst (addRawTx sampleDecode ''0x01'' None 7 samplePool) = samplePool"
proof -
  let ?r = "addRawTx sampleDecode ''0x01'' None 7 samplePool"
  have "snd ?r = Inl (ReplacementTooLow 2200000000 2000000000)" by code_simp
  then have "?r = (fst ?r, Inl (ReplacementTooLow 2200000000 2000000000))" by (metis prod.collapse)
  from addRawTx_error_changes_nothing [OF samplePool_ok sample_binds this] show ?thesis .
qed

text \<open>
  An accepted transaction is in the pool, it is signed for this chain, it can pay the least possible base fee, its gas limit is
  allowed, and it has not been poisoned. If its sender had a transaction with that nonce in the pool, the new one pays more by at
  least the configured percentage, and the old one is out.
\<close>
lemma accepted_tx_outbids:
  assumes "pool_ok bind p" and "decodedTx decode raw preDecoded = Some tx" and "hash_binds bind tx"
    and "addRawTx decode raw preDecoded now p = (p', Inr item)" and "0 \<le> minGasBump (cfg p)"
  shows "jget (poolTxs p') (txHash item) = Some item \<and> e_chainId tx = chainId (cfg p) \<and> \<not> isPoisoned (e_hash tx) p \<and>
    MIN_BASE_FEE \<le> maxFeePerGas item \<and> 21000 \<le> txGasLimit item \<and> txGasLimit item \<le> MAX_TX_GAS_LIMIT \<and>
    (\<forall>h old. jget (poolTxs p) h = Some old \<and> txFrom old = txFrom item \<and> txNonce old = txNonce item \<and> 0 \<le> gasPrice old \<longrightarrow>
       gasPrice old * (100 + minGasBump (cfg p)) \<le> 100 * gasPrice item \<and> (h \<noteq> txHash item \<longrightarrow> \<not> hasTx h p'))"
proof -
  have adm: "admissible tx p" using addRawTx_refused [of decode raw preDecoded p now] assms(2,4) by fastforce
  note item = hash_binds_item [OF assms(3), of raw now]
  have offer: "offerTx (mempoolItem raw tx now) p = (p', Inr item)" using assms(4) unfolding addRawTx_eq [OF assms(2) adm] .
  have ix: "pool_index_ok bind p" using assms(1) by (simp add: pool_ok_def)
  obtain q where eq: "item = mempoolItem raw tx now" "p' = insertTx item q"
    and q: "(\<exists>h old. holds_tx p h old \<and> same_slot old item \<and> minReplacementPrice (cfg p) old \<le> gasPrice item \<and> q = removeTx h p) \<or>
       (\<nexists>h old. holds_tx p h old \<and> same_slot old item)"
    using offer by (cases rule: offerTx_spec [OF assms(1) conjunct1 [OF item] conjunct2 [OF item]]) auto
  have "gasPrice old * (100 + minGasBump (cfg p)) \<le> 100 * gasPrice item \<and> (h \<noteq> txHash item \<longrightarrow> \<not> hasTx h p')"
    if old: "jget (poolTxs p) h = Some old" "txFrom old = txFrom item" "txNonce old = txNonce item" "0 \<le> gasPrice old" for h old
  proof -
    have h: "holds_tx p h old" "same_slot old item" using old by (simp_all add: holds_tx_def same_slot_def)
    then obtain h0 old0 where o: "holds_tx p h0 old0" "same_slot old0 item" "minReplacementPrice (cfg p) old0 \<le> gasPrice item" "q = removeTx h0 p"
      using q by blast
    moreover have "h = h0 \<and> old = old0" using slot_unique [OF ix h(1) o(1)] h(2) o(2) by (simp add: same_slot_def)
    ultimately show ?thesis
      using replacement_bump [OF assms(5) old(4)] eq(2) by (simp add: hasTx_def insertTx_def removeTx_poolTxs)
  qed
  moreover have "jget (poolTxs p') (txHash item) = Some item" using eq(2) by (simp add: insertTx_def)
  ultimately show ?thesis using adm validated_tx [of tx raw now] eq(1) by (auto simp: admissible_def)
qed

text \<open>
  (C23) Eviction drops the cheapest. The selection that moves the \<open>k\<close> smallest to the front agrees with a full sort: the
  fees (and, among equals, the arrival times) left in the pool are those of the sorted pool without its first \<open>k\<close>.
\<close>
theorem evictLowestFee_keeps_best:
  assumes "pool_ok bind p"
  shows "sort (map feeKey (map snd (poolTxs (evictLowestFee p)))) =
    drop (evictionBatchSize (cfg p)) (sort (map feeKey (map snd (poolTxs p))))"
proof -
  let ?all = "map snd (poolTxs p)" and ?b = "evictionBatchSize (cfg p)"
  let ?k = "min ?b (length (poolTxs p))"
  let ?ys = "partialSelect ?all ?k feeCompare"
  have len: "length ?ys = length (poolTxs p)" using fee.partialSelect_cut by (metis size_mset length_map)
  note key = pool_hash_key [OF assms] and inj = pool_hashes_distinct [OF assms]
  have eq_all: "mset ?ys = mset ?all" using fee.partialSelect_cut by blast
  have "distinct ?ys" using eq_all inj(2) mset_eq_imp_distinct_iff by blast
  have "map snd (poolTxs (evictLowestFee p)) = filter (\<lambda>tx. txHash tx \<notin> txHash ` set (take ?b ?ys)) ?all"
    unfolding evictLowestFee_eq removeTxs_poolTxs using key by (auto simp: filter_map o_def intro!: arg_cong [where f = "map snd"] filter_cong)
  also have "\<dots> = filter (\<lambda>tx. tx \<notin> set (take ?b ?ys)) ?all"
  proof (rule filter_cong [OF refl])
    fix tx assume "tx \<in> set ?all"
    moreover have "set (take ?b ?ys) \<subseteq> set ?all" using eq_all by (metis mset_eq_setD set_take_subset)
    ultimately show "(txHash tx \<notin> txHash ` set (take ?b ?ys)) = (tx \<notin> set (take ?b ?ys))"
      using inj(1) by (metis inj_on_image_mem_iff)
  qed
  finally have left: "mset (map snd (poolTxs (evictLowestFee p))) = filter_mset (\<lambda>tx. tx \<notin> set (take ?b ?ys)) (mset ?ys)"
    using eq_all by (simp only: mset_filter)
  have "filter (\<lambda>tx. tx \<notin> set (take ?b ?ys)) ?ys = drop ?b ?ys" using \<open>distinct ?ys\<close> by (rule filter_not_take)
  then have "mset (map snd (poolTxs (evictLowestFee p))) = mset (drop ?b ?ys)" using left by (simp only: mset_filter [symmetric])
  then have "sort (map feeKey (map snd (poolTxs (evictLowestFee p)))) = sort (map feeKey (drop ?b ?ys))"
    by (metis mset_map properties_for_sort sorted_sort mset_sort)
  also have "drop ?b ?ys = drop ?k ?ys" using len by (cases "?b \<le> length (poolTxs p)") simp_all
  also have "sort (map feeKey (drop ?k ?ys)) = drop ?k (sort (map feeKey ?all))" by (rule fee.partialSelect_sorts(2))
  also have "\<dots> = drop ?b (sort (map feeKey ?all))" by (cases "?b \<le> length (poolTxs p)") simp_all
  finally show ?thesis .
qed

theorem evictLowestFee_keeps_best_witness:
  "sort (map feeKey (map snd (poolTxs (evictLowestFee samplePool)))) = [(3000000000, 0)]"
proof -
  have "drop (evictionBatchSize (cfg samplePool)) (sort (map feeKey (map snd (poolTxs samplePool)))) = [(3000000000, 0)]"
    by code_simp
  then show ?thesis using evictLowestFee_keeps_best [OF samplePool_ok] by simp
qed

text \<open>
  The next nonce offered to a wallet is the first one from the account's on-chain nonce that no transaction of
  the account in the pool uses.
\<close>
lemma getPendingNonce_first_gap:
  assumes "pool_ok bind p"
  shows "let n = getPendingNonce from onchain p; used = {txNonce tx | h tx. jget (poolTxs p) h = Some tx \<and> txFrom tx = toLowerCase from}
    in onchain \<le> n \<and> n \<notin> used \<and> {onchain..<n} \<subseteq> used"
proof -
  let ?s = "toLowerCase from"
  let ?nonces = "foldl (\<lambda>s tx. set_add (txNonce tx) s) [] (lookupTxs (get_or [] (bySender p) ?s) p)"
  have ix: "pool_index_ok bind p" using assms by (simp add: pool_ok_def)
  have "getPendingNonce from onchain p = firstGap ?nonces onchain"
    by (simp add: getPendingNonce_def get_or_def lookupTxs_def split: option.splits)
  moreover have "set ?nonces = {txNonce tx | h tx. jget (poolTxs p) h = Some tx \<and> txFrom tx = ?s}"
    unfolding set_nonces lookupTxs_set index_sender [OF ix] holds_tx_def by (simp add: image_def) (metis option.inject)
  ultimately show ?thesis using firstGap_spec [of onchain ?nonces] by (simp add: Let_def)
qed

end
