(* ===== verification/Block_Selection.thy ===== *)
theory Block_Selection
  imports Mempool
begin

text \<open>
  \<^verbatim>\<open>Mempool.pickForBlock\<close> of \<^verbatim>\<open>node/src/mempool.ts\<close>: the transactions a proposer puts into its block.
  The pool is filtered by fee and sorted by effective price; then one pass over it takes what fits, postpones the transactions
  whose nonce is ahead of their sender's, and drains the postponed ones as soon as the gap closes.

  The account queries are parameters; \<open>None\<close> is a query that fails. The method awaits them between the
  sorting and the pass, so the pool the pass removes transactions from is whatever the other handlers made of it
  meanwhile: that is the argument \<open>meanwhile\<close>.
\<close>

record PickArgs =
  maxTx :: int
  getOnchainNonce :: "hex \<Rightarrow> bigint option"
  minGasPriceWei :: bigint
  baseFeePerGas :: bigint
  blockGasLimit :: bigint
  getBalance :: "(hex \<Rightarrow> bigint option) option"

definition effectivePrice :: "PickArgs \<Rightarrow> MempoolTx \<Rightarrow> bigint" where
  "effectivePrice a tx =
     (if maxFeePerGas tx > 0 \<and> maxPriorityFeePerGas tx > 0 then
        let dynamic = baseFeePerGas a + maxPriorityFeePerGas tx
        in if maxFeePerGas tx < dynamic then maxFeePerGas tx else dynamic
      else gasPrice tx)"

definition canPayBaseFee :: "PickArgs \<Rightarrow> MempoolTx \<Rightarrow> bool" where
  "canPayBaseFee a tx =
     (let feeCap = (if maxFeePerGas tx > 0 then maxFeePerGas tx else gasPrice tx) in feeCap \<ge> baseFeePerGas a)"

definition feeEligible :: "PickArgs \<Rightarrow> MempoolTx \<Rightarrow> bool" where
  "feeEligible a tx = (canPayBaseFee a tx \<and> effectivePrice a tx \<ge> minGasPriceWei a)"

definition sortedCandidates :: "PickArgs \<Rightarrow> MempoolState \<Rightarrow> MempoolTx list" where
  "sortedCandidates a p =
     sort_key (\<lambda>tx. (Down (effectivePrice a tx), txNonce tx, receivedAtMs tx)) (filter (feeEligible a) (map snd (poolTxs p)))"

definition uniqueSenders :: "MempoolTx list \<Rightarrow> hex list" where
  "uniqueSenders cands = foldl (\<lambda>s tx. set_add (txFrom tx) s) [] cands"

definition fetchNonces :: "PickArgs \<Rightarrow> hex list \<Rightarrow> (hex, bigint) jsmap" where
  "fetchNonces a ss = foldl (\<lambda>m s. jset s (coalesce (getOnchainNonce a s) (- 1)) m) [] ss"

definition fetchBalances :: "PickArgs \<Rightarrow> hex list \<Rightarrow> (hex, bigint) jsmap" where
  "fetchBalances a ss =
     (case getBalance a of None \<Rightarrow> [] | Some balanceOf \<Rightarrow> foldl (\<lambda>m s. jset s (coalesce (balanceOf s) 0) m) [] ss)"

record Diag =
  nonceUnknown :: nat
  staleNonceEvicted :: nat
  unaffordable :: nat
  gasOrCountBudget :: nat
  deferredGap :: nat

record PickState =
  pool :: MempoolState
  picked :: "MempoolTx list"
  cumulativeGas :: bigint
  expected :: "(hex, bigint) jsmap"
  cumulativeSpend :: "(hex, bigint) jsmap"
  deferred :: "(hex, MempoolTx list) jsmap"
  diag :: Diag

datatype PickResult = Picked | Deferred | Rejected

definition upfrontCost :: "PickArgs \<Rightarrow> MempoolTx \<Rightarrow> bigint" where
  "upfrontCost a tx = effectivePrice a tx * txGasLimit tx + txValue tx"

definition takeTx :: "MempoolTx \<Rightarrow> bigint \<Rightarrow> PickState \<Rightarrow> PickState" where
  "takeTx tx nxt s =
     s\<lparr>picked := picked s @ [tx], cumulativeGas := cumulativeGas s + txGasLimit tx, expected := jset (txFrom tx) (nxt + 1) (expected s)\<rparr>"

definition tryPickOne :: "PickArgs \<Rightarrow> (hex, bigint) jsmap \<Rightarrow> MempoolTx \<Rightarrow> PickState \<Rightarrow> PickState \<times> PickResult" where
  "tryPickOne a balances tx s =
     (if int (length (picked s)) \<ge> maxTx a
      then (s\<lparr>diag := (diag s)\<lparr>gasOrCountBudget := gasOrCountBudget (diag s) + 1\<rparr>\<rparr>, Rejected)
      else if cumulativeGas s + txGasLimit tx > blockGasLimit a
      then (s\<lparr>diag := (diag s)\<lparr>gasOrCountBudget := gasOrCountBudget (diag s) + 1\<rparr>\<rparr>, Rejected)
      else case jget (expected s) (txFrom tx) of
        None \<Rightarrow> (s\<lparr>diag := (diag s)\<lparr>nonceUnknown := nonceUnknown (diag s) + 1\<rparr>\<rparr>, Rejected)
      | Some nxt \<Rightarrow>
          if nxt = - 1 then (s\<lparr>diag := (diag s)\<lparr>nonceUnknown := nonceUnknown (diag s) + 1\<rparr>\<rparr>, Rejected)
          else if txNonce tx < nxt
          then (s\<lparr>pool := removeTx (txHash tx) (pool s),
                  diag := (diag s)\<lparr>staleNonceEvicted := staleNonceEvicted (diag s) + 1\<rparr>\<rparr>, Rejected)
          else if txNonce tx \<noteq> nxt
          then (s\<lparr>diag := (diag s)\<lparr>deferredGap := deferredGap (diag s) + 1\<rparr>\<rparr>, Deferred)
          else if getBalance a = None then (takeTx tx nxt s, Picked)
          else
            let balance = get_or 0 balances (txFrom tx);
                alreadySpent = get_or 0 (cumulativeSpend s) (txFrom tx)
            in if alreadySpent + upfrontCost a tx > balance then
                 let s1 = s\<lparr>diag := (diag s)\<lparr>unaffordable := unaffordable (diag s) + 1\<rparr>\<rparr>;
                     absoluteMin = minGasPriceWei a * txGasLimit tx
                 in ((if balance < absoluteMin then s1\<lparr>pool := removeTx (txHash tx) (pool s1)\<rparr> else s1), Rejected)
               else
                 (takeTx tx nxt (s\<lparr>cumulativeSpend := jset (txFrom tx) (alreadySpent + upfrontCost a tx) (cumulativeSpend s)\<rparr>), Picked))"

definition insertByNonce :: "MempoolTx \<Rightarrow> MempoolTx list \<Rightarrow> MempoolTx list" where
  "insertByNonce tx q = takeWhile (\<lambda>t. txNonce t < txNonce tx) q @ tx # dropWhile (\<lambda>t. txNonce t < txNonce tx) q"

definition enqueueDeferred :: "MempoolTx \<Rightarrow> PickState \<Rightarrow> PickState" where
  "enqueueDeferred tx s = s\<lparr>deferred := jset (txFrom tx) (insertByNonce tx (get_or [] (deferred s) (txFrom tx))) (deferred s)\<rparr>"

text \<open>The \<^verbatim>\<open>while (q.length > 0)\<close> loop on the sender's queue; it also returns what is left of the queue.\<close>

fun drainLoop :: "PickArgs \<Rightarrow> (hex, bigint) jsmap \<Rightarrow> hex \<Rightarrow> MempoolTx list \<Rightarrow> PickState \<Rightarrow> PickState \<times> MempoolTx list" where
  "drainLoop a balances sender [] s = (s, [])"
| "drainLoop a balances sender (head # q) s =
     (if jget (expected s) sender \<noteq> Some (txNonce head) then (s, head # q)
      else case tryPickOne a balances head s of
        (s1, Picked) \<Rightarrow> drainLoop a balances sender q s1
      | (s1, r) \<Rightarrow> (s1, q))"

definition drainDeferred :: "PickArgs \<Rightarrow> (hex, bigint) jsmap \<Rightarrow> hex \<Rightarrow> PickState \<Rightarrow> PickState" where
  "drainDeferred a balances sender s =
     (case jget (deferred s) sender of None \<Rightarrow> s
      | Some q \<Rightarrow> (case drainLoop a balances sender q s of (s1, q1) \<Rightarrow> s1\<lparr>deferred := jset sender q1 (deferred s1)\<rparr>))"

definition visitTx :: "PickArgs \<Rightarrow> (hex, bigint) jsmap \<Rightarrow> PickState \<Rightarrow> MempoolTx \<Rightarrow> PickState" where
  "visitTx a balances s tx =
     (case tryPickOne a balances tx s of
        (s1, Deferred) \<Rightarrow> enqueueDeferred tx s1
      | (s1, Picked) \<Rightarrow> drainDeferred a balances (txFrom tx) s1
      | (s1, Rejected) \<Rightarrow> s1)"

definition startPick :: "PickArgs \<Rightarrow> hex list \<Rightarrow> MempoolState \<Rightarrow> PickState" where
  "startPick a ss p =
     \<lparr>pool = p, picked = [], cumulativeGas = 0, expected = fetchNonces a ss, cumulativeSpend = [], deferred = [],
      diag = \<lparr>nonceUnknown = 0, staleNonceEvicted = 0, unaffordable = 0, gasOrCountBudget = 0, deferredGap = 0\<rparr>\<rparr>"

definition pickPass :: "PickArgs \<Rightarrow> MempoolTx list \<Rightarrow> MempoolState \<Rightarrow> PickState" where
  "pickPass a cands p =
     (let ss = uniqueSenders cands in foldl (visitTx a (fetchBalances a ss)) (startPick a ss p) cands)"

definition pickForBlock ::
  "PickArgs \<Rightarrow> int \<Rightarrow> (MempoolState \<Rightarrow> MempoolState) \<Rightarrow> MempoolState \<Rightarrow> MempoolState \<times> MempoolTx list" where
  "pickForBlock a now meanwhile p =
     (if maxTx a \<le> 0 \<or> poolTxs p = [] then (p, [])
      else
        let p1 = fst (evictExpired now p);
            s = pickPass a (sortedCandidates a p1) (meanwhile p1)
        in (pool s, picked s))"


section \<open>One attempt\<close>

lemma tryPickOne_cases:
  assumes "tryPickOne a balances tx s = (s', r)"
  obtains (picked) sp where "r = Picked" "int (length (picked s)) < maxTx a" "cumulativeGas s + txGasLimit tx \<le> blockGasLimit a"
      "jget (expected s) (txFrom tx) = Some (txNonce tx)" "txNonce tx \<noteq> - 1" "s' = takeTx tx (txNonce tx) (s\<lparr>cumulativeSpend := sp\<rparr>)"
      "if getBalance a = None then sp = cumulativeSpend s
       else get_or 0 (cumulativeSpend s) (txFrom tx) + upfrontCost a tx \<le> get_or 0 balances (txFrom tx) \<and>
         sp = jset (txFrom tx) (get_or 0 (cumulativeSpend s) (txFrom tx) + upfrontCost a tx) (cumulativeSpend s)"
  | (deferred) nxt d where "r = Deferred" "jget (expected s) (txFrom tx) = Some nxt" "nxt < txNonce tx" "s' = s\<lparr>diag := d\<rparr>"
  | (rejected) p d where "r = Rejected" "s' = s\<lparr>pool := p, diag := d\<rparr>" "p = pool s \<or> p = removeTx (txHash tx) (pool s)"
      "maxTx a \<le> int (length (picked s)) \<or> blockGasLimit a < cumulativeGas s + txGasLimit tx \<or>
       jget (expected s) (txFrom tx) = None \<or> jget (expected s) (txFrom tx) = Some (- 1) \<or>
       (\<exists>nxt. jget (expected s) (txFrom tx) = Some nxt \<and> txNonce tx < nxt) \<or>
       getBalance a \<noteq> None \<and> get_or 0 balances (txFrom tx) < get_or 0 (cumulativeSpend s) (txFrom tx) + upfrontCost a tx"
proof -
  have same: "s\<lparr>diag := d\<rparr> = s\<lparr>pool := pool s, diag := d\<rparr>" for d by simp
  consider "maxTx a \<le> int (length (picked s)) \<or> blockGasLimit a < cumulativeGas s + txGasLimit tx"
    | "int (length (picked s)) < maxTx a" "cumulativeGas s + txGasLimit tx \<le> blockGasLimit a" by linarith
  then show ?thesis
  proof cases
    case 1
    then show ?thesis using assms by (intro rejected [of "diag s'" "pool s"]) (auto simp: tryPickOne_def split: if_splits)
  next
    case room: 2
    show ?thesis
    proof (cases "jget (expected s) (txFrom tx)")
      case None
      then show ?thesis using assms room by (intro rejected [of "diag s'" "pool s"]) (auto simp: tryPickOne_def)
    next
      case (Some nxt)
      note run = assms [unfolded tryPickOne_def Some]
      consider "nxt = - 1" | "nxt \<noteq> - 1" "txNonce tx < nxt" | "nxt \<noteq> - 1" "nxt < txNonce tx" | "nxt \<noteq> - 1" "txNonce tx = nxt" by linarith
      then show ?thesis
      proof cases
        case 1
        then show ?thesis using run room Some by (intro rejected [of "diag s'" "pool s"]) auto
      next
        case 2
        then show ?thesis
          using run room Some by (intro rejected [of "diag s'" "removeTx (txHash tx) (pool s)"]) auto
      next
        case 3
        then show ?thesis using run room Some by (intro deferred [of nxt "diag s'"]) auto
      next
        case 4
        show ?thesis
        proof (cases "getBalance a")
          case None
          then show ?thesis using run room Some 4 by (intro picked [of "cumulativeSpend s"]) auto
        next
          case bal: (Some b)
          let ?spent = "get_or 0 (cumulativeSpend s) (txFrom tx) + upfrontCost a tx"
          show ?thesis
          proof (cases "?spent \<le> get_or 0 balances (txFrom tx)")
            case True
            then show ?thesis using run room Some 4 bal
              by (intro picked [of "jset (txFrom tx) ?spent (cumulativeSpend s)"]) (auto simp: Let_def)
          next
            case False
            then show ?thesis using run room Some 4 bal
              by (intro rejected [of "diag s'" "pool s'"]) (auto simp: Let_def split: if_splits)
          qed
        qed
      qed
    qed
  qed
qed

lemma jget_fetch: "jget (foldl (\<lambda>m s. jset s (f s) m) m ss) s = (if s \<in> set ss then Some (f s) else jget m s)"
  by (induction ss arbitrary: m) auto

lemma jget_fetchNonces: "jget (fetchNonces a ss) s = (if s \<in> set ss then Some (coalesce (getOnchainNonce a s) (- 1)) else None)"
  by (simp add: fetchNonces_def jget_fetch)

lemma set_uniqueSenders: "set (uniqueSenders cands) = txFrom ` set cands"
proof -
  have "set (foldl (\<lambda>s tx. set_add (txFrom tx) s) acc cands) = set acc \<union> txFrom ` set cands" for acc
    by (induction cands arbitrary: acc) auto
  then show ?thesis by (simp add: uniqueSenders_def)
qed

lemma set_insertByNonce: "set (insertByNonce tx q) = insert tx (set q)"
proof -
  let ?P = "\<lambda>t. txNonce t < txNonce tx"
  have "set q = set (takeWhile ?P q) \<union> set (dropWhile ?P q)" by (metis set_append takeWhile_dropWhile_id)
  then show ?thesis by (auto simp: insertByNonce_def)
qed

section \<open>What a selection satisfies at every moment\<close>

abbreviation of_sender :: "hex \<Rightarrow> MempoolTx list \<Rightarrow> MempoolTx list" where
  "of_sender x \<equiv> filter (\<lambda>tx. txFrom tx = x)"

definition budget_ok :: "PickArgs \<Rightarrow> PickState \<Rightarrow> bool" where
  "budget_ok a s \<longleftrightarrow> int (length (picked s)) \<le> max 0 (maxTx a) \<and> cumulativeGas s = sum_list (map txGasLimit (picked s)) \<and>
     (picked s = [] \<or> cumulativeGas s \<le> blockGasLimit a)"

text \<open>The nonces of one sender in the block, from the account's nonce \<open>start\<close> to the one expected next.\<close>

definition nonce_run :: "bigint option \<Rightarrow> bigint option \<Rightarrow> bigint list \<Rightarrow> bool" where
  "nonce_run start next ns \<longleftrightarrow> (case start of None \<Rightarrow> next = None \<and> ns = []
     | Some n \<Rightarrow> (\<exists>e. next = Some e \<and> n \<le> e \<and> (n = - 1 \<longrightarrow> e = - 1) \<and> ns = [n..e - 1]))"

definition nonces_ok :: "(hex, bigint) jsmap \<Rightarrow> PickState \<Rightarrow> bool" where
  "nonces_ok start s \<longleftrightarrow> (\<forall>x. nonce_run (jget start x) (jget (expected s) x) (map txNonce (of_sender x (picked s))))"

lemma nonce_run_step:
  "nonce_run start (Some e) ns \<Longrightarrow> e \<noteq> - 1 \<Longrightarrow> nonce_run start (Some (e + 1)) (ns @ [e])"
  by (auto simp: nonce_run_def upto_rec2 split: option.splits)

definition spend_ok :: "PickArgs \<Rightarrow> (hex, bigint) jsmap \<Rightarrow> PickState \<Rightarrow> bool" where
  "spend_ok a balances s \<longleftrightarrow> getBalance a = None \<or>
     (\<forall>x. get_or 0 (cumulativeSpend s) x = sum_list (map (upfrontCost a) (of_sender x (picked s))) \<and>
        (of_sender x (picked s) = [] \<or> get_or 0 (cumulativeSpend s) x \<le> get_or 0 balances x))"

definition sources_ok :: "MempoolTx set \<Rightarrow> PickState \<Rightarrow> bool" where
  "sources_ok cands s \<longleftrightarrow> set (picked s) \<subseteq> cands \<and>
     (\<forall>x q. jget (deferred s) x = Some q \<longrightarrow> (\<forall>tx\<in>set q. tx \<in> cands \<and> txFrom tx = x))"

definition pick_inv :: "PickArgs \<Rightarrow> (hex, bigint) jsmap \<Rightarrow> (hex, bigint) jsmap \<Rightarrow> MempoolTx set \<Rightarrow> PickState \<Rightarrow> bool" where
  "pick_inv a start balances cands s \<longleftrightarrow> budget_ok a s \<and> nonces_ok start s \<and> spend_ok a balances s \<and> sources_ok cands s"

lemmas pick_inv_defs = pick_inv_def budget_ok_def nonces_ok_def spend_ok_def sources_ok_def

lemma pick_inv_aux [simp]:
  "pick_inv a start balances cands (s\<lparr>pool := p\<rparr>) = pick_inv a start balances cands s"
  "pick_inv a start balances cands (s\<lparr>diag := d\<rparr>) = pick_inv a start balances cands s"
  by (simp_all add: pick_inv_defs)

lemma pick_inv_deferred:
  assumes "pick_inv a start balances cands s" and "\<forall>t\<in>set q. t \<in> cands \<and> txFrom t = x"
  shows "pick_inv a start balances cands (s\<lparr>deferred := jset x q (deferred s)\<rparr>)"
proof -
  have "sources_ok cands (s\<lparr>deferred := jset x q (deferred s)\<rparr>)"
    using assms unfolding pick_inv_def sources_ok_def by simp
  moreover have "budget_ok a (s\<lparr>deferred := d\<rparr>) = budget_ok a s" "nonces_ok start (s\<lparr>deferred := d\<rparr>) = nonces_ok start s"
    "spend_ok a balances (s\<lparr>deferred := d\<rparr>) = spend_ok a balances s" for d
    by (simp_all add: budget_ok_def nonces_ok_def spend_ok_def)
  ultimately show ?thesis using assms(1) by (simp add: pick_inv_def)
qed

lemma takeTx_nonces:
  assumes "nonces_ok start s" and "jget (expected s) (txFrom tx) = Some (txNonce tx)" and "txNonce tx \<noteq> - 1"
  shows "nonces_ok start (takeTx tx (txNonce tx) (s\<lparr>cumulativeSpend := sp\<rparr>))"
proof -
  have "nonce_run (jget start (txFrom tx)) (Some (txNonce tx)) (map txNonce (of_sender (txFrom tx) (picked s)))"
    using assms(1,2) unfolding nonces_ok_def by metis
  then show ?thesis using nonce_run_step [OF _ assms(3)] assms(1) by (simp add: nonces_ok_def takeTx_def)
qed

lemma takeTx_spend:
  assumes "spend_ok a balances s"
    and "if getBalance a = None then sp = cumulativeSpend s
       else get_or 0 (cumulativeSpend s) (txFrom tx) + upfrontCost a tx \<le> get_or 0 balances (txFrom tx) \<and>
         sp = jset (txFrom tx) (get_or 0 (cumulativeSpend s) (txFrom tx) + upfrontCost a tx) (cumulativeSpend s)"
  shows "spend_ok a balances (takeTx tx n (s\<lparr>cumulativeSpend := sp\<rparr>))"
proof (cases "getBalance a = None")
  case False
  then show ?thesis using assms unfolding spend_ok_def takeTx_def by (auto split: if_splits)
qed (simp add: spend_ok_def)

lemma tryPickOne_inv:
  assumes "pick_inv a start balances cands s" and "tx \<in> cands" and "tryPickOne a balances tx s = (s', r)"
  shows "pick_inv a start balances cands s'" "deferred s' = deferred s"
proof -
  have "pick_inv a start balances cands s' \<and> deferred s' = deferred s"
    using assms(3)
  proof (cases rule: tryPickOne_cases)
    case (picked sp)
    have "budget_ok a s'" using assms(1) picked(2,3) unfolding picked(6) pick_inv_def budget_ok_def takeTx_def by auto
    moreover have "sources_ok cands s'" using assms(1,2) unfolding picked(6) pick_inv_def sources_ok_def takeTx_def by auto
    ultimately show ?thesis
      using assms(1) takeTx_nonces [OF _ picked(4,5)] takeTx_spend [OF _ picked(7)] unfolding picked(6) pick_inv_def
      by (simp add: takeTx_def)
  next
    case (deferred nxt d)
    with assms(1) show ?thesis by simp
  next
    case (rejected p d)
    with assms(1) show ?thesis by simp
  qed
  then show "pick_inv a start balances cands s'" "deferred s' = deferred s" by simp_all
qed

lemma drainLoop_inv:
  assumes "pick_inv a start balances cands s" and "set q \<subseteq> cands" and "drainLoop a balances x q s = (s', q')"
  shows "pick_inv a start balances cands s' \<and> deferred s' = deferred s \<and> set q' \<subseteq> set q"
  using assms
proof (induction q arbitrary: s)
  case (Cons tx q)
  show ?case
  proof (cases "jget (expected s) x = Some (txNonce tx)")
    case True
    obtain s1 r where t: "tryPickOne a balances tx s = (s1, r)" by fastforce
    have "tx \<in> cands" using Cons.prems(2) by simp
    note inv = tryPickOne_inv [OF Cons.prems(1) this t]
    show ?thesis using Cons.IH [OF inv(1)] Cons.prems(2,3) True t inv by (cases r) auto
  qed (use Cons.prems in auto)
qed simp

lemma visitTx_inv:
  assumes "pick_inv a start balances cands s" and "tx \<in> cands"
  shows "pick_inv a start balances cands (visitTx a balances s tx)"
proof -
  obtain s1 r where t: "tryPickOne a balances tx s = (s1, r)" by fastforce
  note inv = tryPickOne_inv [OF assms t]
  show ?thesis
  proof (cases r)
    case Picked
    show ?thesis
    proof (cases "jget (deferred s1) (txFrom tx)")
      case (Some q)
      obtain s2 q2 where d: "drainLoop a balances (txFrom tx) q s1 = (s2, q2)" by fastforce
      have q: "\<forall>t\<in>set q. t \<in> cands \<and> txFrom t = txFrom tx" using inv(1) Some by (auto simp: pick_inv_def sources_ok_def)
      then have "set q \<subseteq> cands" by auto
      note inv2 = drainLoop_inv [OF inv(1) this d]
      have "visitTx a balances s tx = s2\<lparr>deferred := jset (txFrom tx) q2 (deferred s2)\<rparr>"
        using t Picked Some d by (simp add: visitTx_def drainDeferred_def)
      moreover have "\<forall>t\<in>set q2. t \<in> cands \<and> txFrom t = txFrom tx" using inv2 q by blast
      ultimately show ?thesis using pick_inv_deferred [of a start balances cands s2 q2] inv2 by metis
    qed (use t Picked inv in \<open>simp add: visitTx_def drainDeferred_def\<close>)
  next
    case Deferred
    then have "visitTx a balances s tx = enqueueDeferred tx s1" using t by (simp add: visitTx_def)
    moreover have "\<forall>t\<in>set (insertByNonce tx (get_or [] (deferred s1) (txFrom tx))). t \<in> cands \<and> txFrom t = txFrom tx"
      using inv(1) assms(2) unfolding set_insertByNonce pick_inv_def sources_ok_def
      by (cases "jget (deferred s1) (txFrom tx)") (auto simp: get_or_def)
    ultimately show ?thesis using pick_inv_deferred [OF inv(1)] unfolding enqueueDeferred_def by metis
  qed (use t inv in \<open>simp add: visitTx_def\<close>)
qed

lemma startPick_inv: "pick_inv a (fetchNonces a ss) balances cands (startPick a ss p)"
  by (auto simp: pick_inv_defs nonce_run_def startPick_def get_or_def split: option.splits)

lemma pickPass_inv:
  "pick_inv a (fetchNonces a (uniqueSenders cands)) (fetchBalances a (uniqueSenders cands)) (set cands) (pickPass a cands p)"
proof -
  have "pick_inv a start balances (set cands) (foldl (visitTx a balances) s txs)"
    if "pick_inv a start balances (set cands) s" "set txs \<subseteq> set cands" for start balances s txs
    using that by (induction txs arbitrary: s) (simp_all add: visitTx_inv)
  then show ?thesis using startPick_inv by (simp add: pickPass_def Let_def)
qed


section \<open>A block with room for everything\<close>

definition by_nonce :: "MempoolTx list \<Rightarrow> bool" where
  "by_nonce q \<longleftrightarrow> sorted_wrt (\<lambda>t u. txNonce t < txNonce u) q"

lemma insertByNonce_sorted: "by_nonce q \<Longrightarrow> \<forall>t\<in>set q. txNonce t \<noteq> txNonce tx \<Longrightarrow> by_nonce (insertByNonce tx q)"
proof (induction q)
  case Nil
  show ?case by (simp add: insertByNonce_def by_nonce_def)
next
  case (Cons t q)
  show ?case
  proof (cases "txNonce t < txNonce tx")
    case True
    then have "insertByNonce tx (t # q) = t # insertByNonce tx q" by (simp add: insertByNonce_def)
    then show ?thesis using Cons True set_insertByNonce [of tx q] by (auto simp: by_nonce_def)
  next
    case False
    then have "insertByNonce tx (t # q) = tx # t # q" by (simp add: insertByNonce_def)
    moreover have "txNonce tx < txNonce t" using False Cons.prems(2) by force
    ultimately show ?thesis using Cons.prems by (fastforce simp: by_nonce_def)
  qed
qed

text \<open>
  The candidates fit: their number, their gas and, where balances are checked, each sender's total cost are within bounds; and every
  sender's nonce is known. No two candidates share a sender and a nonce.
\<close>

definition enough_room :: "PickArgs \<Rightarrow> MempoolTx list \<Rightarrow> bool" where
  "enough_room a cands \<longleftrightarrow> int (length cands) \<le> maxTx a \<and> sum_list (map txGasLimit cands) \<le> blockGasLimit a \<and>
     (\<forall>t\<in>set cands. 0 \<le> txGasLimit t \<and> (case getOnchainNonce a (txFrom t) of None \<Rightarrow> False | Some n \<Rightarrow> 0 \<le> n) \<and>
        (case getBalance a of None \<Rightarrow> True
         | Some b \<Rightarrow> 0 \<le> upfrontCost a t \<and> sum_list (map (upfrontCost a) (of_sender (txFrom t) cands)) \<le> coalesce (b (txFrom t)) 0))"

lemma enough_room_nonce:
  assumes "enough_room a cands" and "t \<in> set cands"
  obtains n where "0 \<le> n" "getOnchainNonce a (txFrom t) = Some n"
  using assms unfolding enough_room_def by (cases "getOnchainNonce a (txFrom t)") fastforce+

definition unique_slots :: "MempoolTx list \<Rightarrow> bool" where
  "unique_slots cands \<longleftrightarrow> distinct cands \<and> inj_on (\<lambda>t. (txFrom t, txNonce t)) (set cands)"

lemma distinct_by_sender: "(\<And>x. distinct (map txNonce (of_sender x l))) \<Longrightarrow> distinct l"
proof (induction l)
  case (Cons t l)
  have "distinct (map txNonce (of_sender x l))" for x using Cons.prems [of x] by (cases "txFrom t = x") simp_all
  moreover have "t \<notin> set l" using Cons.prems [of "txFrom t"] by force
  ultimately show ?case using Cons.IH by simp
qed simp

lemma sum_part_le:
  assumes "distinct (tx # l)" and "set (tx # l) \<subseteq> set cands" and "distinct cands" and "\<forall>t\<in>set cands. 0 \<le> (f t :: int)"
  shows "sum_list (map f l) + f tx \<le> sum_list (map f cands)"
proof -
  have "sum_list (map f (tx # l)) = sum f (set (tx # l))" using assms(1) by (rule sum_list_distinct_conv_sum_set)
  also have "\<dots> \<le> sum f (set cands)" using assms(2,4) by (intro sum_mono2) auto
  also have "\<dots> = sum_list (map f cands)" using assms(3) by (rule sum_list_distinct_conv_sum_set [symmetric])
  finally show ?thesis by simp
qed

abbreviation run_inv :: "PickArgs \<Rightarrow> MempoolTx list \<Rightarrow> PickState \<Rightarrow> bool" where
  "run_inv a cands \<equiv> pick_inv a (fetchNonces a (uniqueSenders cands)) (fetchBalances a (uniqueSenders cands)) (set cands)"

lemma run_inv_nonces:
  assumes "run_inv a cands s" and "t \<in> set cands" and "getOnchainNonce a (txFrom t) = Some n" "0 \<le> n"
  obtains e where "jget (expected s) (txFrom t) = Some e" "0 \<le> e" "map txNonce (of_sender (txFrom t) (picked s)) = [n..e - 1]"
proof -
  have "nonce_run (jget (fetchNonces a (uniqueSenders cands)) (txFrom t)) (jget (expected s) (txFrom t))
      (map txNonce (of_sender (txFrom t) (picked s)))"
    using assms(1) by (simp add: pick_inv_def nonces_ok_def)
  then show ?thesis using that assms(2-4) by (auto simp: jget_fetchNonces set_uniqueSenders nonce_run_def coalesce_def)
qed

lemma picked_distinct:
  assumes "run_inv a cands s"
  shows "distinct (picked s)"
proof (rule distinct_by_sender)
  fix x
  have "nonce_run (jget (fetchNonces a (uniqueSenders cands)) x) (jget (expected s) x) (map txNonce (of_sender x (picked s)))"
    using assms by (simp add: pick_inv_def nonces_ok_def)
  then show "distinct (map txNonce (of_sender x (picked s)))" by (auto simp: nonce_run_def split: option.splits)
qed

lemma room_left:
  assumes "run_inv a cands s" "enough_room a cands" "distinct cands" "tx \<in> set cands"
    and "jget (expected s) (txFrom tx) = Some e" "e \<le> txNonce tx"
  shows "distinct (tx # picked s)" "set (tx # picked s) \<subseteq> set cands" "int (length (picked s)) < maxTx a"
    "cumulativeGas s + txGasLimit tx \<le> blockGasLimit a" "0 \<le> e"
proof -
  obtain n where n: "0 \<le> n" "getOnchainNonce a (txFrom tx) = Some n" using enough_room_nonce [OF assms(2,4)] .
  obtain e' where e': "jget (expected s) (txFrom tx) = Some e'" "0 \<le> e'" "map txNonce (of_sender (txFrom tx) (picked s)) = [n..e' - 1]"
    using run_inv_nonces [OF assms(1,4) n(2,1)] .
  have e: "e' = e" using assms(5) e'(1) by simp
  have "txNonce tx \<notin> set (map txNonce (of_sender (txFrom tx) (picked s)))" unfolding e'(3) e using assms(6) by simp
  then show new: "distinct (tx # picked s)" using picked_distinct [OF assms(1)] by force
  show sub: "set (tx # picked s) \<subseteq> set cands" using assms(1,4) by (simp add: pick_inv_def sources_ok_def)
  have "length (tx # picked s) \<le> length cands" using new sub assms(3) by (metis card_mono distinct_card List.finite_set)
  then show "int (length (picked s)) < maxTx a" using assms(2) by (simp add: enough_room_def)
  show "cumulativeGas s + txGasLimit tx \<le> blockGasLimit a"
    using sum_part_le [OF new sub assms(3), of txGasLimit] assms(1,2) by (simp add: enough_room_def pick_inv_def budget_ok_def)
  show "0 \<le> e" using e'(2) e by simp
qed

lemma expected_is_picked:
  assumes "run_inv a cands s" "enough_room a cands" "distinct cands" "tx \<in> set cands"
    and "jget (expected s) (txFrom tx) = Some (txNonce tx)"
  obtains s' sp where "tryPickOne a (fetchBalances a (uniqueSenders cands)) tx s = (s', Picked)"
    "s' = takeTx tx (txNonce tx) (s\<lparr>cumulativeSpend := sp\<rparr>)"
proof -
  note room = room_left [OF assms order_refl]
  have funds: "get_or 0 (cumulativeSpend s) (txFrom tx) + upfrontCost a tx \<le> get_or 0 (fetchBalances a (uniqueSenders cands)) (txFrom tx)"
    if b: "getBalance a = Some b" for b
  proof -
    have "sum_list (map (upfrontCost a) (of_sender (txFrom tx) (picked s))) + upfrontCost a tx \<le>
        sum_list (map (upfrontCost a) (of_sender (txFrom tx) cands))"
      using room(1,2) assms(2,3) b by (intro sum_part_le) (auto simp: enough_room_def)
    moreover have "get_or 0 (fetchBalances a (uniqueSenders cands)) (txFrom tx) = coalesce (b (txFrom tx)) 0"
      using b assms(4) by (simp add: fetchBalances_def get_or_def jget_fetch set_uniqueSenders)
    ultimately show ?thesis using assms(1,2,4) b by (fastforce simp: enough_room_def pick_inv_def spend_ok_def)
  qed
  obtain s' r where t: "tryPickOne a (fetchBalances a (uniqueSenders cands)) tx s = (s', r)" by fastforce
  from t show ?thesis
  proof (cases rule: tryPickOne_cases)
    case (picked sp)
    with t that show ?thesis by simp
  next
    case (deferred nxt d)
    with assms(5) show ?thesis by simp
  next
    case (rejected d p)
    with room(3-5) funds assms(5) show ?thesis by fastforce
  qed
qed

lemma slot_eq:
  "unique_slots cands \<Longrightarrow> t \<in> set cands \<Longrightarrow> u \<in> set cands \<Longrightarrow> txFrom t = txFrom u \<Longrightarrow> txNonce t = txNonce u \<Longrightarrow> t = u"
  by (auto simp: unique_slots_def inj_on_def)


subsection \<open>The postponed transactions\<close>

definition queue_ok :: "MempoolTx set \<Rightarrow> hex \<Rightarrow> bigint \<Rightarrow> MempoolTx list \<Rightarrow> bool" where
  "queue_ok V x e q \<longleftrightarrow> set q = {t \<in> V. txFrom t = x \<and> e \<le> txNonce t} \<and> by_nonce q"

definition settled :: "MempoolTx set \<Rightarrow> hex \<Rightarrow> bigint \<Rightarrow> bool" where
  "settled V x e \<longleftrightarrow> (\<forall>t\<in>V. txFrom t = x \<longrightarrow> txNonce t \<noteq> e)"

definition live :: "MempoolTx set \<Rightarrow> PickState \<Rightarrow> bool" where
  "live V s \<longleftrightarrow> (\<forall>x e. jget (expected s) x = Some e \<longrightarrow> queue_ok V x e (get_or [] (deferred s) x) \<and> settled V x e)"

lemma takeTx_expected: "jget (expected (takeTx tx n s)) y = (if y = txFrom tx then Some (n + 1) else jget (expected s) y)"
  by (simp add: takeTx_def)

lemma queue_pop:
  assumes "unique_slots cands" and "V \<subseteq> set cands" and "queue_ok V x (txNonce h) (h # q)"
  shows "queue_ok V x (txNonce h + 1) q"
proof -
  have h: "h \<in> V" "txFrom h = x" using assms(3) by (auto simp: queue_ok_def)
  have later: "\<forall>t\<in>set q. txNonce h < txNonce t" "by_nonce q" using assms(3) by (auto simp: queue_ok_def by_nonce_def)
  have only: "t = h" if "t \<in> V" "txFrom t = x" "txNonce t = txNonce h" for t
    by (rule slot_eq [OF assms(1)]) (use assms(2) that h in auto)
  have all: "insert h (set q) = {t \<in> V. txFrom t = x \<and> txNonce h \<le> txNonce t}" using assms(3) by (simp add: queue_ok_def)
  have "set q = {t \<in> V. txFrom t = x \<and> txNonce h + 1 \<le> txNonce t}"
  proof
    show "set q \<subseteq> {t \<in> V. txFrom t = x \<and> txNonce h + 1 \<le> txNonce t}" using all later(1) by auto
    show "{t \<in> V. txFrom t = x \<and> txNonce h + 1 \<le> txNonce t} \<subseteq> set q"
    proof
      fix t assume t: "t \<in> {t \<in> V. txFrom t = x \<and> txNonce h + 1 \<le> txNonce t}"
      then have "t \<in> insert h (set q)" unfolding all by simp
      with t show "t \<in> set q" by auto
    qed
  qed
  with later(2) show ?thesis by (simp add: queue_ok_def)
qed

lemma queue_head_settles:
  assumes "queue_ok V x e (h # q)" and "txNonce h \<noteq> e"
  shows "settled V x e"
  unfolding settled_def
proof (intro ballI impI notI)
  fix t assume t: "t \<in> V" "txFrom t = x" "txNonce t = e"
  then have "t \<in> set (h # q)" using assms(1) by (simp add: queue_ok_def)
  moreover have "h \<in> {t \<in> V. txFrom t = x \<and> e \<le> txNonce t}" using assms(1) by (auto simp: queue_ok_def)
  ultimately show False using assms t(3) by (auto simp: queue_ok_def by_nonce_def)
qed

lemma drain_settles:
  assumes "run_inv a cands s" "enough_room a cands" "unique_slots cands" "V \<subseteq> set cands"
    and "jget (expected s) x = Some e" and "queue_ok V x e q"
    and "drainLoop a (fetchBalances a (uniqueSenders cands)) x q s = (s', q')"
  shows "(\<exists>e'. jget (expected s') x = Some e' \<and> queue_ok V x e' q' \<and> settled V x e') \<and>
    (\<forall>y. y \<noteq> x \<longrightarrow> jget (expected s') y = jget (expected s) y) \<and> deferred s' = deferred s"
  using assms(1,5-7)
proof (induction q arbitrary: s e)
  case Nil
  then have "settled V x e" by (fastforce simp: queue_ok_def settled_def)
  with Nil show ?case by auto
next
  case (Cons h q)
  have h: "h \<in> set cands" "txFrom h = x" using Cons.prems(3) assms(4) by (auto simp: queue_ok_def)
  show ?case
  proof (cases "txNonce h = e")
    case False
    then have "s' = s" "q' = h # q" using Cons.prems(2,4) by auto
    with queue_head_settles [OF Cons.prems(3) False] Cons.prems(2,3) show ?thesis by auto
  next
    case True
    have dist: "distinct cands" using assms(3) by (simp add: unique_slots_def)
    obtain s1 sp where s1: "tryPickOne a (fetchBalances a (uniqueSenders cands)) h s = (s1, Picked)"
      "s1 = takeTx h (txNonce h) (s\<lparr>cumulativeSpend := sp\<rparr>)"
      using expected_is_picked [OF Cons.prems(1) assms(2) dist h(1)] Cons.prems(2) h(2) True by metis
    have ex: "jget (expected s1) y = (if y = x then Some (e + 1) else jget (expected s) y)" for y
      unfolding s1(2) takeTx_expected using h(2) True by simp
    have "queue_ok V x (e + 1) q" using queue_pop [OF assms(3,4)] Cons.prems(3) True by blast
    moreover have "drainLoop a (fetchBalances a (uniqueSenders cands)) x q s1 = (s', q')"
      using Cons.prems(2,4) s1(1) True by simp
    ultimately show ?thesis
      using Cons.IH [OF tryPickOne_inv(1) [OF Cons.prems(1) h(1) s1(1)], of "e + 1"] ex
        tryPickOne_inv(2) [OF Cons.prems(1) h(1) s1(1)] by simp
  qed
qed

lemma queue_extend:
  assumes "queue_ok V x e q" and "txFrom tx \<noteq> x \<or> txNonce tx < e"
  shows "queue_ok (insert tx V) x e q"
proof -
  have "{t \<in> insert tx V. txFrom t = x \<and> e \<le> txNonce t} = {t \<in> V. txFrom t = x \<and> e \<le> txNonce t}" using assms(2) by auto
  with assms(1) show ?thesis by (simp add: queue_ok_def)
qed

lemma queue_insert:
  assumes "queue_ok V x e q" and "txFrom tx = x" "e < txNonce tx"
    and "unique_slots cands" "insert tx V \<subseteq> set cands" "tx \<notin> V"
  shows "queue_ok (insert tx V) x e (insertByNonce tx q)"
proof -
  have "\<forall>t\<in>set q. txNonce t \<noteq> txNonce tx"
  proof
    fix t assume "t \<in> set q"
    then have "t \<in> V" "txFrom t = x" using assms(1) by (auto simp: queue_ok_def)
    moreover have "t = tx" if "txNonce t = txNonce tx"
      by (rule slot_eq [OF assms(4)]) (use that calculation assms(2,5) in auto)
    ultimately show "txNonce t \<noteq> txNonce tx" using assms(6) by auto
  qed
  then have "by_nonce (insertByNonce tx q)" using assms(1) by (simp add: queue_ok_def insertByNonce_sorted)
  moreover have "set q = {t \<in> V. txFrom t = x \<and> e \<le> txNonce t}" using assms(1) by (simp add: queue_ok_def)
  then have "set (insertByNonce tx q) = {t \<in> insert tx V. txFrom t = x \<and> e \<le> txNonce t}"
    unfolding set_insertByNonce using assms(2,3) by simp (auto simp: order_le_less)
  ultimately show ?thesis by (simp add: queue_ok_def)
qed

text \<open>A visit only touches the visited transaction's sender.\<close>

definition settles :: "MempoolTx \<Rightarrow> MempoolTx set \<Rightarrow> PickState \<Rightarrow> PickState \<Rightarrow> bool" where
  "settles tx V s s' \<longleftrightarrow>
     (\<exists>e. jget (expected s') (txFrom tx) = Some e \<and> queue_ok (insert tx V) (txFrom tx) e (get_or [] (deferred s') (txFrom tx)) \<and>
        settled (insert tx V) (txFrom tx) e) \<and>
     (\<forall>y. y \<noteq> txFrom tx \<longrightarrow> jget (expected s') y = jget (expected s) y \<and> get_or [] (deferred s') y = get_or [] (deferred s) y)"

lemma settles_live:
  assumes "live V s" and "settles tx V s s'"
  shows "live (insert tx V) s'"
  unfolding live_def
proof (intro allI impI)
  fix y f assume f: "jget (expected s') y = Some f"
  show "queue_ok (insert tx V) y f (get_or [] (deferred s') y) \<and> settled (insert tx V) y f"
  proof (cases "y = txFrom tx")
    case True
    with assms(2) f show ?thesis by (auto simp: settles_def)
  next
    case False
    with assms f have "queue_ok V y f (get_or [] (deferred s') y) \<and> settled V y f" by (auto simp: settles_def live_def)
    with False queue_extend [of V y f _ tx] show ?thesis by (auto simp: settled_def)
  qed
qed

lemma visit_expected:
  assumes "run_inv a cands s" "enough_room a cands" "unique_slots cands" "insert tx V \<subseteq> set cands"
    and "jget (expected s) (txFrom tx) = Some (txNonce tx)"
    and "queue_ok V (txFrom tx) (txNonce tx) (get_or [] (deferred s) (txFrom tx))" "settled V (txFrom tx) (txNonce tx)"
  shows "settles tx V s (visitTx a (fetchBalances a (uniqueSenders cands)) s tx)"
proof -
  let ?b = "fetchBalances a (uniqueSenders cands)" and ?x = "txFrom tx" and ?e = "txNonce tx"
  have tx: "tx \<in> set cands" and dist: "distinct cands" using assms(3,4) by (simp_all add: unique_slots_def)
  obtain s1 sp where s1: "tryPickOne a ?b tx s = (s1, Picked)" "s1 = takeTx tx ?e (s\<lparr>cumulativeSpend := sp\<rparr>)"
    using expected_is_picked [OF assms(1,2) dist tx assms(5)] by metis
  have inv1: "run_inv a cands s1" "deferred s1 = deferred s" using tryPickOne_inv [OF assms(1) tx s1(1)] by simp_all
  have ex: "jget (expected s1) y = (if y = ?x then Some (?e + 1) else jget (expected s) y)" for y
    unfolding s1(2) takeTx_expected by simp
  have "queue_ok V ?x (?e + 1) (get_or [] (deferred s) ?x)" using assms(6,7) by (force simp: queue_ok_def settled_def)
  then have q1: "queue_ok (insert tx V) ?x (?e + 1) (get_or [] (deferred s) ?x)" using queue_extend by simp
  show ?thesis
  proof (cases "jget (deferred s) ?x")
    case None
    then have v: "visitTx a ?b s tx = s1" using s1(1) inv1(2) by (simp add: visitTx_def drainDeferred_def)
    have "settled (insert tx V) ?x (?e + 1)" using q1 None by (fastforce simp: queue_ok_def settled_def get_or_def)
    then show ?thesis unfolding v settles_def ex inv1(2) using q1 by simp
  next
    case (Some q0)
    obtain s2 q2 where d: "drainLoop a ?b ?x q0 s1 = (s2, q2)" by fastforce
    have v: "visitTx a ?b s tx = s2\<lparr>deferred := jset ?x q2 (deferred s2)\<rparr>"
      using s1(1) inv1(2) Some d by (simp add: visitTx_def drainDeferred_def)
    have "queue_ok (insert tx V) ?x (?e + 1) q0" using q1 Some by (simp add: get_or_def)
    from drain_settles [OF inv1(1) assms(2-4) _ this d] ex
    show ?thesis unfolding v settles_def using inv1(2) by auto
  qed
qed

lemma visit_ahead:
  assumes "run_inv a cands s" "enough_room a cands" "unique_slots cands" "insert tx V \<subseteq> set cands" "tx \<notin> V"
    and "jget (expected s) (txFrom tx) = Some e" "e < txNonce tx"
    and "queue_ok V (txFrom tx) e (get_or [] (deferred s) (txFrom tx))" "settled V (txFrom tx) e"
  shows "settles tx V s (visitTx a (fetchBalances a (uniqueSenders cands)) s tx)"
proof -
  let ?b = "fetchBalances a (uniqueSenders cands)" and ?x = "txFrom tx"
  let ?s1 = "s\<lparr>diag := (diag s)\<lparr>deferredGap := deferredGap (diag s) + 1\<rparr>\<rparr>"
  have tx: "tx \<in> set cands" and dist: "distinct cands" using assms(3,4) by (simp_all add: unique_slots_def)
  note room = room_left [OF assms(1,2) dist tx assms(6) less_imp_le [OF assms(7)]]
  have "tryPickOne a ?b tx s = (?s1, Deferred)" using room(3-5) assms(6,7) by (simp add: tryPickOne_def)
  then have v: "visitTx a ?b s tx = enqueueDeferred tx ?s1" by (simp add: visitTx_def)
  have "queue_ok (insert tx V) ?x e (insertByNonce tx (get_or [] (deferred s) ?x))"
    by (rule queue_insert [OF assms(8) refl assms(7,3,4,5)])
  moreover have "settled (insert tx V) ?x e" using assms(7,9) by (auto simp: settled_def)
  ultimately show ?thesis unfolding v settles_def enqueueDeferred_def using assms(6) by simp
qed

lemma visit_stale:
  assumes "jget (expected s) (txFrom tx) = Some e" "txNonce tx < e"
    and "queue_ok V (txFrom tx) e (get_or [] (deferred s) (txFrom tx))" "settled V (txFrom tx) e"
  shows "settles tx V s (visitTx a balances s tx)"
proof -
  obtain s1 r where t: "tryPickOne a balances tx s = (s1, r)" by fastforce
  then have v: "expected (visitTx a balances s tx) = expected s \<and> deferred (visitTx a balances s tx) = deferred s"
    by (cases rule: tryPickOne_cases) (use assms(1,2) t in \<open>auto simp: visitTx_def\<close>)
  have "queue_ok (insert tx V) (txFrom tx) e (get_or [] (deferred s) (txFrom tx)) \<and> settled (insert tx V) (txFrom tx) e"
    using assms(2,4) queue_extend [OF assms(3), of tx] by (auto simp: settled_def)
  with v assms(1) show ?thesis by (simp add: settles_def)
qed

lemma visit_live:
  assumes "run_inv a cands s" "enough_room a cands" "unique_slots cands" "live V s" "insert tx V \<subseteq> set cands" "tx \<notin> V"
  shows "live (insert tx V) (visitTx a (fetchBalances a (uniqueSenders cands)) s tx)"
proof (rule settles_live [OF assms(4)])
  have tx: "tx \<in> set cands" using assms(5) by simp
  obtain n where n: "0 \<le> n" "getOnchainNonce a (txFrom tx) = Some n" using enough_room_nonce [OF assms(2) tx] .
  obtain e where e: "jget (expected s) (txFrom tx) = Some e" using run_inv_nonces [OF assms(1) tx n(2,1)] by metis
  have q: "queue_ok V (txFrom tx) e (get_or [] (deferred s) (txFrom tx))" "settled V (txFrom tx) e"
    using assms(4) e by (simp_all add: live_def)
  consider "txNonce tx = e" | "e < txNonce tx" | "txNonce tx < e" by linarith
  then show "settles tx V s (visitTx a (fetchBalances a (uniqueSenders cands)) s tx)"
    using visit_expected [OF assms(1-3,5)] visit_ahead [OF assms(1-3,5,6) e _ q] visit_stale [OF e _ q] e q by cases auto
qed

lemma pass_live:
  assumes "enough_room a cands" "unique_slots cands"
  shows "live (set cands) (pickPass a cands p)"
proof -
  let ?b = "fetchBalances a (uniqueSenders cands)"
  have "live (set done \<union> set todo) (foldl (visitTx a ?b) s todo)"
    if "live (set done) s" "run_inv a cands s" "distinct (done @ todo)" "set done \<union> set todo \<subseteq> set cands" for s "done" todo
    using that
  proof (induction todo arbitrary: s "done")
    case (Cons tx todo)
    have sub: "insert tx (set done) \<subseteq> set cands" "tx \<notin> set done" using Cons.prems(3,4) by auto
    have "live (insert tx (set done)) (visitTx a ?b s tx)"
      by (rule visit_live [OF Cons.prems(2) assms Cons.prems(1) sub])
    moreover have "run_inv a cands (visitTx a ?b s tx)" using visitTx_inv [OF Cons.prems(2)] sub(1) by simp
    ultimately show ?case using Cons.IH [of "done @ [tx]" "visitTx a ?b s tx"] Cons.prems(3,4) by simp
  qed simp
  from this [of "[]" "startPick a (uniqueSenders cands) p" cands] startPick_inv assms(2)
  show ?thesis
    by (simp add: pickPass_def Let_def unique_slots_def live_def queue_ok_def settled_def startPick_def get_or_def by_nonce_def)
qed

lemma pass_complete:
  assumes "enough_room a cands" "unique_slots cands" and "t \<in> set cands" and "getOnchainNonce a (txFrom t) = Some n" "n \<le> txNonce t"
    and "\<forall>m\<in>{n..txNonce t}. \<exists>u\<in>set cands. txFrom u = txFrom t \<and> txNonce u = m"
  shows "t \<in> set (picked (pickPass a cands p))"
proof -
  let ?s = "pickPass a cands p"
  have "0 \<le> n" using enough_room_nonce [OF assms(1,3)] assms(4) by auto
  then obtain e where e: "jget (expected ?s) (txFrom t) = Some e" "map txNonce (of_sender (txFrom t) (picked ?s)) = [n..e - 1]"
    using run_inv_nonces [OF pickPass_inv assms(3,4)] by metis
  have st: "settled (set cands) (txFrom t) e" using pass_live [OF assms(1,2), of p] e(1) by (simp add: live_def)
  have "n \<le> e" using pickPass_inv [of a cands p] e(1) assms(3,4)
    by (fastforce simp: pick_inv_def nonces_ok_def nonce_run_def jget_fetchNonces set_uniqueSenders coalesce_def dest: spec [of _ "txFrom t"])
  have "txNonce t < e"
  proof (rule ccontr)
    assume "\<not> txNonce t < e"
    then have "e \<in> {n..txNonce t}" using \<open>n \<le> e\<close> by simp
    with assms(6) st show False unfolding settled_def by metis
  qed
  then have "txNonce t \<in> set (map txNonce (of_sender (txFrom t) (picked ?s)))" unfolding e(2) using assms(5) by simp
  then obtain u where u: "u \<in> set (picked ?s)" "txFrom u = txFrom t" "txNonce u = txNonce t" by auto
  have "u \<in> set cands" using pickPass_inv [of a cands p] u(1) by (auto simp: pick_inv_def sources_ok_def)
  with slot_eq [OF assms(2) this assms(3)] u show ?thesis by simp
qed


section \<open>The pool through all its operations\<close>

definition removals :: "MempoolState \<Rightarrow> MempoolState \<Rightarrow> bool" where
  "removals p p' \<longleftrightarrow> (\<exists>hs. p' = foldl (\<lambda>p h. removeTx h p) p hs)"

lemma removals_refl [simp]: "removals p p"
  unfolding removals_def by (rule exI [of _ "[]"]) simp

lemma removals_one [simp]: "removals p (removeTx h p)"
  unfolding removals_def by (rule exI [of _ "[h]"]) simp

lemma removals_trans: "removals p q \<Longrightarrow> removals q r \<Longrightarrow> removals p r"
  unfolding removals_def by (metis foldl_append)

lemma removals_ok: "removals p p' \<Longrightarrow> pool_ok bind p \<Longrightarrow> pool_ok bind p' \<and> cfg p' = cfg p"
  unfolding removals_def using removeTxs_ok [of bind p "\<lambda>h. h"] removeTxs_frame [of "\<lambda>h. h" p] by auto

lemma tryPickOne_removals: "tryPickOne a balances tx s = (s', r) \<Longrightarrow> removals (pool s) (pool s')"
  by (erule tryPickOne_cases) (auto simp: takeTx_def)

lemma drainLoop_removals: "drainLoop a balances x q s = (s', q') \<Longrightarrow> removals (pool s) (pool s')"
proof (induction q arbitrary: s)
  case (Cons h q)
  obtain s1 r where t: "tryPickOne a balances h s = (s1, r)" by fastforce
  have "removals (pool s1) (pool s')" if "r = Picked" "jget (expected s) x = Some (txNonce h)"
    using Cons.IH [of s1] Cons.prems t that by simp
  then show ?case
    using Cons.prems t tryPickOne_removals [OF t] removals_trans [of "pool s" "pool s1" "pool s'"] by (cases r) (auto split: if_splits)
qed simp

lemma visitTx_removals: "removals (pool s) (pool (visitTx a balances s tx))"
proof -
  obtain s1 r where t: "tryPickOne a balances tx s = (s1, r)" by fastforce
  note one = tryPickOne_removals [OF t]
  show ?thesis
  proof (cases r)
    case Picked
    show ?thesis
    proof (cases "jget (deferred s1) (txFrom tx)")
      case (Some q)
      obtain s2 q2 where d: "drainLoop a balances (txFrom tx) q s1 = (s2, q2)" by fastforce
      with t Picked Some removals_trans [OF one drainLoop_removals [OF d]] show ?thesis by (simp add: visitTx_def drainDeferred_def)
    qed (use t Picked one in \<open>simp add: visitTx_def drainDeferred_def\<close>)
  qed (use t one in \<open>simp_all add: visitTx_def enqueueDeferred_def\<close>)
qed

lemma pickPass_removals: "removals p (pool (pickPass a cands p))"
proof -
  have "removals (pool s) (pool (foldl (visitTx a balances) s txs))" for balances s txs
    by (induction txs arbitrary: s) (simp, metis foldl_Cons removals_trans visitTx_removals)
  from this [of "startPick a (uniqueSenders cands) p" "fetchBalances a (uniqueSenders cands)" cands] show ?thesis
    by (simp add: pickPass_def Let_def startPick_def)
qed

text \<open>
  The handlers of the pool. The selection for a block is two of them: it expires old transactions, and after the
  awaited account queries it makes its pass with the candidates it sorted before.
\<close>

datatype PoolOp =
    AddRaw hex "EthTx option" int | RemoveHash hex | PoisonHash hex | LoadPoisoned "hex list" | Expire int
  | Pass PickArgs "MempoolTx list"

fun poolStep :: "(hex \<Rightarrow> EthTx option) \<Rightarrow> MempoolState \<Rightarrow> PoolOp \<Rightarrow> MempoolState" where
  "poolStep decode p (AddRaw raw pre now) = fst (addRawTx decode raw pre now p)"
| "poolStep decode p (RemoveHash h) = removeTx h p"
| "poolStep decode p (PoisonHash h) = poison h p"
| "poolStep decode p (LoadPoisoned hs) = loadPoisonedHashes hs p"
| "poolStep decode p (Expire now) = fst (evictExpired now p)"
| "poolStep decode p (Pass a cands) = pool (pickPass a cands p)"

fun op_binds :: "(hex \<Rightarrow> EthTx option) \<Rightarrow> (hex \<Rightarrow> hex \<times> bigint) \<Rightarrow> PoolOp \<Rightarrow> bool" where
  "op_binds decode bind (AddRaw raw pre now) = (\<forall>tx. decodedTx decode raw pre = Some tx \<longrightarrow> hash_binds bind tx)"
| "op_binds decode bind op = True"

lemma pool_ok_poisoned [simp]: "pool_ok bind (p\<lparr>poisoned := l\<rparr>) = pool_ok bind p"
  by (simp add: pool_ok_def pool_maps_ok_def pool_index_ok_def pool_limits_ok_def holds_tx_def)

lemma addRawTx_cfg: "cfg (fst (addRawTx decode raw pre now p)) = cfg p"
proof -
  have "cfg (fst (admitTx item q)) = cfg q" for item q by (simp add: admitTx_def Let_def)
  then show ?thesis by (simp add: addRawTx_def offerTx_def Let_def split: option.splits)
qed

lemma poolStep_ok: "pool_ok bind p \<Longrightarrow> op_binds decode bind op \<Longrightarrow> pool_ok bind (poolStep decode p op) \<and> cfg (poolStep decode p op) = cfg p"
proof (cases op)
  case (Expire now)
  assume "pool_ok bind p"
  then show ?thesis using Expire evictExpired_ok by (simp add: evictExpired_eq Let_def)
next
  case (Pass a cands)
  assume "pool_ok bind p"
  with removals_ok [OF pickPass_removals] Pass show ?thesis by simp
qed (auto simp: addRawTx_ok addRawTx_cfg removeTx_ok poison_def Let_def loadPoisonedHashes_def)

lemma pool_run_ok:
  assumes "\<forall>op\<in>set ops. op_binds decode bind op" and "pool_ok bind p"
  shows "pool_ok bind (foldl (poolStep decode) p ops) \<and> cfg (foldl (poolStep decode) p ops) = cfg p"
  using assms by (induction ops arbitrary: p) (auto simp: poolStep_ok)

lemma lookupTxs_present:
  "\<forall>h\<in>set hs. \<exists>tx. holds_tx p h tx \<Longrightarrow> map Some (lookupTxs hs p) = map (jget (poolTxs p)) hs"
  by (induction hs) (auto simp: lookupTxs_def map_filter_simps holds_tx_def)

lemma pending_of_sender:
  assumes "pool_ok bind p"
  shows "length (getPendingByAddress x p) \<le> max 1 (maxPerSender (cfg p))"
    "set (getPendingByAddress x p) = {tx \<in> snd ` set (poolTxs p). txFrom tx = toLowerCase x}"
    "sorted_wrt (\<lambda>t u. txNonce t < txNonce u) (getPendingByAddress x p)"
proof -
  let ?hs = "get_or [] (bySender p) (toLowerCase x)"
  have ix: "pool_index_ok bind p" and maps: "jmap_ok (poolTxs p)" using assms by (simp_all add: pool_ok_def pool_maps_ok_def)
  have eq: "getPendingByAddress x p = sort_key txNonce (lookupTxs ?hs p)"
    by (simp add: getPendingByAddress_def get_or_def lookupTxs_def split: option.splits)
  have present: "\<forall>h\<in>set ?hs. \<exists>tx. holds_tx p h tx" unfolding index_sender [OF ix] by blast
  from lookupTxs_present [OF this] have look: "map Some (lookupTxs ?hs p) = map (jget (poolTxs p)) ?hs" .
  then have len: "length (lookupTxs ?hs p) = length ?hs" by (metis length_map)
  show "length (getPendingByAddress x p) \<le> max 1 (maxPerSender (cfg p))"
    using assms unfolding eq by (simp add: len pool_ok_def pool_limits_ok_def)
  have held: "set (lookupTxs ?hs p) = {tx. \<exists>h. holds_tx p h tx \<and> txFrom tx = toLowerCase x}"
    unfolding lookupTxs_set index_sender [OF ix] by (auto simp: holds_tx_def)
  then show "set (getPendingByAddress x p) = {tx \<in> snd ` set (poolTxs p). txFrom tx = toLowerCase x}"
    unfolding eq set_sort holds_tx_def jget_iff [OF maps] by force
  have "map txHash (lookupTxs ?hs p) = map (\<lambda>h. txHash (the (jget (poolTxs p) h))) ?hs"
    using arg_cong [OF look, of "map (\<lambda>t. txHash (the t))"] by (simp add: o_def)
  also have "\<dots> = ?hs" using index_hash [OF ix] present by (intro map_idI) (auto simp: holds_tx_def)
  finally have "map txHash (lookupTxs ?hs p) = ?hs" .
  then have "distinct (lookupTxs ?hs p)" using index_distinct [OF ix] by (metis distinct_map)
  moreover have "inj_on txNonce (set (lookupTxs ?hs p))"
    unfolding held inj_on_def using slot_unique [OF ix] by (auto simp: same_slot_def)
  ultimately have "distinct (map txNonce (sort_key txNonce (lookupTxs ?hs p)))" by (simp add: distinct_map)
  then have "sorted_wrt (<) (map txNonce (sort_key txNonce (lookupTxs ?hs p)))" by (simp add: strict_sorted_iff)
  then show "sorted_wrt (\<lambda>t u. txNonce t < txNonce u) (getPendingByAddress x p)" unfolding eq by (simp add: sorted_wrt_map)
qed

lemma evictExpired_subset: "set (poolTxs (fst (evictExpired now p))) \<subseteq> set (poolTxs p)"
  by (auto simp: evictExpired_eq Let_def removeTxs_poolTxs)

lemma sortedCandidates_eligible:
  "set (sortedCandidates a (fst (evictExpired now p))) \<subseteq>
     {tx \<in> snd ` set (poolTxs p). canPayBaseFee a tx \<and> minGasPriceWei a \<le> effectivePrice a tx}"
  using evictExpired_subset [of now p] by (auto simp: sortedCandidates_def feeEligible_def)

lemma nonce_run_block:
  assumes "nonce_run (if b then Some (coalesce on (- 1)) else None) next (map txNonce mine)"
  shows "case on of None \<Rightarrow> mine = [] | Some n \<Rightarrow> map txNonce mine = [n..n + int (length mine) - 1]"
proof (cases b)
  case True
  then obtain e where e: "coalesce on (- 1) \<le> e" "coalesce on (- 1) = - 1 \<longrightarrow> e = - 1" "map txNonce mine = [coalesce on (- 1)..e - 1]"
    using assms by (auto simp: nonce_run_def)
  have "length mine = nat (e - coalesce on (- 1))" using arg_cong [OF e(3), of length] by simp
  then show ?thesis using e by (cases on) (auto simp: coalesce_def)
qed (use assms in \<open>auto simp: nonce_run_def split: option.splits\<close>)

lemma run_inv_funds:
  assumes "run_inv a cands s"
  shows "case getBalance a of None \<Rightarrow> True
    | Some b \<Rightarrow> of_sender x (picked s) = [] \<or> sum_list (map (upfrontCost a) (of_sender x (picked s))) \<le> coalesce (b x) 0"
proof (cases "getBalance a")
  case (Some b)
  have "get_or 0 (fetchBalances a (uniqueSenders cands)) x = coalesce (b x) 0" if ne: "of_sender x (picked s) \<noteq> []"
  proof -
    obtain tx where "tx \<in> set (picked s)" "txFrom tx = x" using ne by (auto simp: filter_empty_conv)
    then have "x \<in> txFrom ` set cands" using assms by (auto simp: pick_inv_def sources_ok_def)
    then show ?thesis using Some by (simp add: fetchBalances_def get_or_def jget_fetch set_uniqueSenders)
  qed
  moreover have "get_or 0 (cumulativeSpend s) x = sum_list (map (upfrontCost a) (of_sender x (picked s))) \<and>
      (of_sender x (picked s) = [] \<or> get_or 0 (cumulativeSpend s) x \<le> get_or 0 (fetchBalances a (uniqueSenders cands)) x)"
    using assms Some unfolding pick_inv_def spend_ok_def by (metis option.distinct(1))
  ultimately show ?thesis using Some by (cases "of_sender x (picked s) = []") simp_all
qed simp

lemma pool_slots_unique:
  assumes "pool_ok bind p"
  shows "unique_slots (sortedCandidates a p)"
proof -
  have ix: "pool_index_ok bind p" and maps: "jmap_ok (poolTxs p)" using assms by (simp_all add: pool_ok_def pool_maps_ok_def)
  have held: "holds_tx p h tx \<longleftrightarrow> (h, tx) \<in> set (poolTxs p)" for h tx using maps by (simp add: holds_tx_def jget_iff)
  have "inj_on (\<lambda>t. (txFrom t, txNonce t)) (snd ` set (poolTxs p))"
    unfolding inj_on_def using slot_unique [OF ix] held by (fastforce simp: same_slot_def)
  then show ?thesis
    using pool_hashes_distinct(2) [OF assms] by (auto simp: unique_slots_def sortedCandidates_def intro: inj_on_subset)
qed

section \<open>What block selection guarantees\<close>

text \<open>
  (C21) However transactions are added, replaced, evicted, expired, poisoned and picked, the pool stays within its limits
  and its indices stay exact: it holds at most \<^verbatim>\<open>maxSize\<close> transactions, and the pending transactions of an address
  are exactly its transactions in the pool, at most \<^verbatim>\<open>maxPerSender\<close> of them, in strictly increasing order of nonce.
\<close>
theorem pool_stays_consistent:
  assumes "\<forall>op\<in>set ops. op_binds decode bind op"
  shows "let p = foldl (poolStep decode) (newMempool c) ops; pending = getPendingByAddress x p
    in poolSize p \<le> maxSize c \<and> length pending \<le> max 1 (maxPerSender c) \<and>
       set pending = {tx \<in> snd ` set (poolTxs p). txFrom tx = toLowerCase x} \<and>
       sorted_wrt (\<lambda>t u. txNonce t < txNonce u) pending"
proof -
  let ?p = "foldl (poolStep decode) (newMempool c) ops"
  have run: "pool_ok bind ?p" "cfg ?p = c" using pool_run_ok [OF assms newMempool_ok, of c] by (simp_all add: newMempool_def)
  show ?thesis
    using pending_of_sender [OF run(1), of x] run by (simp add: Let_def poolSize_def pool_ok_def pool_limits_ok_def)
qed

theorem pool_stays_consistent_witness:
  "length (getPendingByAddress ''0xAA'' (foldl (poolStep sampleDecode) (newMempool DEFAULT_CONFIG)
      [AddRaw ''0x02'' None 5, AddRaw ''0x01'' None 6, Expire 7])) \<le> 64"
proof -
  have "\<forall>op\<in>set [AddRaw ''0x02'' None 5, AddRaw ''0x01'' None 6, Expire 7]. op_binds sampleDecode sampleBind op"
    using sample_binds by simp
  from pool_stays_consistent [OF this, of DEFAULT_CONFIG "''0xAA''"]
  have "length (getPendingByAddress ''0xAA'' (foldl (poolStep sampleDecode) (newMempool DEFAULT_CONFIG)
      [AddRaw ''0x02'' None 5, AddRaw ''0x01'' None 6, Expire 7])) \<le> max 1 (maxPerSender DEFAULT_CONFIG)"
    unfolding Let_def by blast
  moreover have "max 1 (maxPerSender DEFAULT_CONFIG) = 64" by code_simp
  ultimately show ?thesis by simp
qed

text \<open>
  (C20) A proposed block is valid for its accounts: it respects the count and gas limits, every transaction in it comes from the
  pool and pays the base fee and the minimum price, each sender's transactions carry consecutive nonces starting at the account's
  nonce, in order, and where balances are known the sender can pay for all of them together. A sender whose nonce
  could not be fetched has none.
\<close>
theorem pickForBlock_valid:
  shows "let txs = snd (pickForBlock a now meanwhile p); mine = of_sender x txs
    in int (length txs) \<le> max 0 (maxTx a) \<and> (txs = [] \<or> sum_list (map txGasLimit txs) \<le> blockGasLimit a) \<and>
       set txs \<subseteq> {tx \<in> snd ` set (poolTxs p). canPayBaseFee a tx \<and> minGasPriceWei a \<le> effectivePrice a tx} \<and>
       (case getOnchainNonce a x of None \<Rightarrow> mine = [] | Some n \<Rightarrow> map txNonce mine = [n..n + int (length mine) - 1]) \<and>
       (case getBalance a of None \<Rightarrow> True
        | Some b \<Rightarrow> mine = [] \<or> sum_list (map (upfrontCost a) mine) \<le> coalesce (b x) 0)"
proof (cases "maxTx a \<le> 0 \<or> poolTxs p = []")
  case True
  then show ?thesis by (simp add: pickForBlock_def split: option.splits)
next
  case False
  define p1 where "p1 = fst (evictExpired now p)"
  define cands where "cands = sortedCandidates a p1"
  define s where "s = pickPass a cands (meanwhile p1)"
  have picked: "snd (pickForBlock a now meanwhile p) = picked s"
    using False by (simp add: pickForBlock_def Let_def p1_def cands_def s_def)
  have inv: "run_inv a cands s" unfolding s_def by (rule pickPass_inv)
  have "set cands \<subseteq> {tx \<in> snd ` set (poolTxs p). canPayBaseFee a tx \<and> minGasPriceWei a \<le> effectivePrice a tx}"
    unfolding cands_def p1_def by (rule sortedCandidates_eligible)
  then have from_pool: "set (picked s) \<subseteq> {tx \<in> snd ` set (poolTxs p). canPayBaseFee a tx \<and> minGasPriceWei a \<le> effectivePrice a tx}"
    using inv by (auto simp: pick_inv_def sources_ok_def)
  have budget: "int (length (picked s)) \<le> max 0 (maxTx a)" "picked s = [] \<or> sum_list (map txGasLimit (picked s)) \<le> blockGasLimit a"
    using inv by (auto simp: pick_inv_def budget_ok_def)
  have "nonce_run (jget (fetchNonces a (uniqueSenders cands)) x) (jget (expected s) x) (map txNonce (of_sender x (picked s)))"
    using inv by (simp add: pick_inv_def nonces_ok_def)
  then have nonces: "case getOnchainNonce a x of None \<Rightarrow> of_sender x (picked s) = []
      | Some n \<Rightarrow> map txNonce (of_sender x (picked s)) = [n..n + int (length (of_sender x (picked s))) - 1]"
    unfolding jget_fetchNonces by (rule nonce_run_block)
  have funds: "case getBalance a of None \<Rightarrow> True
      | Some b \<Rightarrow> of_sender x (picked s) = [] \<or> sum_list (map (upfrontCost a) (of_sender x (picked s))) \<le> coalesce (b x) 0"
    using inv by (rule run_inv_funds)
  show ?thesis unfolding picked Let_def using budget from_pool nonces funds by blast
qed

text \<open>
  (C19) Nothing that fits is left out. If the eligible transactions fit into the block together and every sender can pay for all of theirs,
  then a transaction is picked whenever its sender's eligible transactions cover every nonce from the account's up to its own,
  whatever prices they offer: the transactions met before their predecessor are postponed, and the queue is drained in time.
\<close>
theorem pickForBlock_complete:
  assumes "pool_ok bind p" and "0 < maxTx a"
    and "cands = sortedCandidates a (fst (evictExpired now p))" and "enough_room a cands"
    and "t \<in> set cands" and "getOnchainNonce a (txFrom t) = Some n" "n \<le> txNonce t"
    and "\<forall>m\<in>{n..txNonce t}. \<exists>u\<in>set cands. txFrom u = txFrom t \<and> txNonce u = m"
  shows "t \<in> set (snd (pickForBlock a now meanwhile p))"
proof -
  have "poolTxs p \<noteq> []" using sortedCandidates_eligible [of a now p] assms(3,5) by auto
  then have "snd (pickForBlock a now meanwhile p) = picked (pickPass a cands (meanwhile (fst (evictExpired now p))))"
    using assms(2,3) by (simp add: pickForBlock_def Let_def)
  moreover have "unique_slots cands" unfolding assms(3) using evictExpired_ok [OF assms(1)] by (rule pool_slots_unique)
  ultimately show ?thesis using pass_complete [OF assms(4) _ assms(5-8)] by simp
qed

definition sampleArgs :: PickArgs where
  "sampleArgs = \<lparr>maxTx = 10, getOnchainNonce = (\<lambda>x. Some 0), minGasPriceWei = 1, baseFeePerGas = 1000000000,
     blockGasLimit = 30000000, getBalance = Some (\<lambda>x. Some 1000000000000000000)\<rparr>"

definition sampleNext :: MempoolTx where
  "sampleNext = mempoolItem ''0x02'' sampleTx2 0"

theorem pickForBlock_complete_witness:
  "sampleNext \<in> set (snd (pickForBlock sampleArgs 1 (\<lambda>p. p) samplePool))"
proof (rule pickForBlock_complete [OF samplePool_ok])
  show "0 < maxTx sampleArgs" "getOnchainNonce sampleArgs (txFrom sampleNext) = Some 0" "0 \<le> txNonce sampleNext"
    by (code_simp)+
  show "enough_room sampleArgs (sortedCandidates sampleArgs (fst (evictExpired 1 samplePool)))"
    by code_simp
  show "sampleNext \<in> set (sortedCandidates sampleArgs (fst (evictExpired 1 samplePool)))" by code_simp
  show "\<forall>m\<in>{0..txNonce sampleNext}. \<exists>u\<in>set (sortedCandidates sampleArgs (fst (evictExpired 1 samplePool))).
      txFrom u = txFrom sampleNext \<and> txNonce u = m" by code_simp
qed simp

end
