(* ===== verification/Chain_Types.thy ===== *)
theory Chain_Types
  imports Pali_Prelude
begin

text \<open>The block type of \<^verbatim>\<open>node/src/blockchain-types.ts\<close>, shared by the consensus components.\<close>

record ChainBlock =
  number :: bigint
  hash :: hex
  parentHash :: hex
  proposer :: string
  timestampMs :: int
  txs :: "hex list"
  finalized :: bool
  blockBftFinalized :: "bool option"
  blockSignature :: "hex option"
  stateRootSig :: "hex option"
  blockStateRoot :: "hex option"
  blockBaseFee :: "bigint option"
  blockGasUsed :: "bigint option"
  blockCumulativeWeight :: "bigint option"
  blobGasUsed :: "bigint option"
  excessBlobGas :: "bigint option"
  parentBeaconBlockRoot :: "hex option"

record Validator =
  vid :: string
  stake :: bigint

end
