(* ===== verification/Keccak.thy ===== *)
theory Keccak
  imports Pali_Prelude "HOL-Library.Word"
begin

text \<open>
  The hash of \<^verbatim>\<open>services/relayer/keccak256.ts\<close>, which identifies blocks, Merkle nodes and evidence. The code computes with
  unbounded \<^verbatim>\<open>bigint\<close> lanes that it cuts to 64 bits and with tables of rotations and round constants; the reference
  below is the Keccak-f[1600] permutation on 64-bit words with the tables generated as the standard (FIPS 202) does, and the
  sponge with multi-rate padding over whole blocks.
\<close>

unbundle bit_operations_syntax

type_synonym bytes = "8 word list"


section \<open>The code\<close>

definition MASK_64 :: bigint where
  "MASK_64 = 0xffffffffffffffff"

definition ROTATION_OFFSETS :: "nat list" where
  "ROTATION_OFFSETS =
     [0, 1, 62, 28, 27,
      36, 44, 6, 55, 20,
      3, 10, 43, 25, 39,
      41, 45, 15, 21, 8,
      18, 2, 61, 56, 14]"

definition ROUND_CONSTANTS :: "bigint list" where
  "ROUND_CONSTANTS =
     [0x0000000000000001, 0x0000000000008082, 0x800000000000808a, 0x8000000080008000,
      0x000000000000808b, 0x0000000080000001, 0x8000000080008081, 0x8000000000008009,
      0x000000000000008a, 0x0000000000000088, 0x0000000080008009, 0x000000008000000a,
      0x000000008000808b, 0x800000000000008b, 0x8000000000008089, 0x8000000000008003,
      0x8000000000008002, 0x8000000000000080, 0x000000000000800a, 0x800000008000000a,
      0x8000000080008081, 0x8000000000008080, 0x0000000080000001, 0x8000000080008008]"

definition rotl64 :: "bigint \<Rightarrow> nat \<Rightarrow> bigint" where
  "rotl64 x shift =
     (let s = shift mod 64
      in if s = 0 then x AND MASK_64 else (push_bit s x OR drop_bit (64 - s) x) AND MASK_64)"

definition readLaneLE :: "bytes \<Rightarrow> nat \<Rightarrow> bigint" where
  "readLaneLE bytes offset =
     foldl (\<lambda>out i. out OR push_bit (i * 8) (if offset + i < length bytes then uint (bytes ! (offset + i)) else 0)) 0 [0..<8]"

definition writeLaneLE :: "bytes \<Rightarrow> nat \<Rightarrow> bigint \<Rightarrow> bytes" where
  "writeLaneLE out offset lane =
     fst (foldl (\<lambda>(out, v) i. (out[offset + i := word_of_int (v AND 0xff)], drop_bit 8 v)) (out, lane AND MASK_64) [0..<8])"

text \<open>One turn of the loop over the rounds; a loop over \<^verbatim>\<open>y\<close> and \<^verbatim>\<open>x\<close> runs through the indices \<^verbatim>\<open>x + 5 * y\<close> in order.\<close>

definition columns :: "bigint list \<Rightarrow> bigint list" where
  "columns state = map (\<lambda>x. state ! x XOR state ! (x + 5) XOR state ! (x + 10) XOR state ! (x + 15) XOR state ! (x + 20)) [0..<5]"

definition mixColumns :: "bigint list \<Rightarrow> bigint list" where
  "mixColumns state =
     (let c = columns state;
          d = map (\<lambda>x. c ! ((x + 4) mod 5) XOR rotl64 (c ! ((x + 1) mod 5)) 1) [0..<5]
      in foldl (\<lambda>st idx. st[idx := (st ! idx XOR d ! (idx mod 5)) AND MASK_64]) state [0..<25])"

definition moveLanes :: "bigint list \<Rightarrow> bigint list" where
  "moveLanes state =
     foldl (\<lambda>b idx.
         let x = idx mod 5; y = idx div 5
         in b[y + 5 * ((2 * x + 3 * y) mod 5) := rotl64 (state ! idx) (ROTATION_OFFSETS ! idx)])
       (replicate 25 0) [0..<25]"

definition combineRows :: "bigint list \<Rightarrow> bigint list \<Rightarrow> bigint list" where
  "combineRows b state =
     foldl (\<lambda>st idx.
         let x = idx mod 5; y = idx div 5
         in st[idx := (b ! idx XOR (NOT (b ! ((x + 1) mod 5 + 5 * y)) AND b ! ((x + 2) mod 5 + 5 * y))) AND MASK_64])
       state [0..<25]"

definition keccakRound :: "bigint list \<Rightarrow> nat \<Rightarrow> bigint list" where
  "keccakRound state round =
     (let state1 = mixColumns state;
          b = moveLanes state1;
          state2 = combineRows b state1
      in state2[0 := (state2 ! 0 XOR ROUND_CONSTANTS ! round) AND MASK_64])"

definition keccakF1600 :: "bigint list \<Rightarrow> bigint list" where
  "keccakF1600 state = foldl keccakRound state [0..<24]"

definition rateBytes :: nat where
  "rateBytes = 136"

definition outputBytes :: nat where
  "outputBytes = 32"

definition absorbBlock :: "bytes \<Rightarrow> nat \<Rightarrow> bigint list \<Rightarrow> bigint list" where
  "absorbBlock input offset state =
     foldl (\<lambda>st lane. st[lane := (st ! lane XOR readLaneLE input (offset + lane * 8)) AND MASK_64]) state [0..<rateBytes div 8]"

text \<open>The loop over the full blocks of the input, with the offset it ends at.\<close>

function absorbFull :: "bytes \<Rightarrow> nat \<Rightarrow> bigint list \<Rightarrow> nat \<times> bigint list" where
  "absorbFull input offset state =
     (if offset + rateBytes \<le> length input
      then absorbFull input (offset + rateBytes) (keccakF1600 (absorbBlock input offset state))
      else (offset, state))"
  by pat_completeness auto
termination
  by (relation "measure (\<lambda>(input, offset, state). length input - offset)") (auto simp: rateBytes_def)

declare absorbFull.simps [simp del]

definition lastBlock :: "bytes \<Rightarrow> nat \<Rightarrow> bytes" where
  "lastBlock input offset =
     (let remaining = length input - offset;
          block = drop offset input @ replicate (rateBytes - remaining) 0;
          block1 = block[remaining := block ! remaining XOR 0x01]
      in block1[rateBytes - 1 := block1 ! (rateBytes - 1) XOR 0x80])"

definition keccak256Bytes :: "bytes \<Rightarrow> bytes" where
  "keccak256Bytes input =
     (case absorbFull input 0 (replicate 25 0) of (offset, state) \<Rightarrow>
        let state1 = keccakF1600 (absorbBlock (lastBlock input offset) 0 state)
        in foldl (\<lambda>out lane. writeLaneLE out (lane * 8) (state1 ! lane)) (replicate outputBytes 0) [0..<outputBytes div 8])"

definition hexDigit :: "nat \<Rightarrow> char" where
  "hexDigit n = char_of (if n < 10 then 48 + n else 87 + n)"

definition toHex :: "bytes \<Rightarrow> string" where
  "toHex bs = concat (map (\<lambda>b. [hexDigit (unat b div 16), hexDigit (unat b mod 16)]) bs)"

text \<open>\<^verbatim>\<open>Buffer.from(s, "utf8")\<close> of a string of code points below 256.\<close>

definition utf8Bytes :: "string \<Rightarrow> bytes" where
  "utf8Bytes s =
     concat (map (\<lambda>c. let n = of_char c :: nat
                     in if n < 128 then [of_nat n] else [of_nat (192 + n div 64), of_nat (128 + n mod 64)]) s)"

definition keccak256Hex :: "bytes \<Rightarrow> string" where
  "keccak256Hex input = toHex (keccak256Bytes input)"


section \<open>The reference\<close>

text \<open>A state as its lanes by column and row, and the steps of a round.\<close>

type_synonym lanes = "nat \<Rightarrow> nat \<Rightarrow> 64 word"

definition parity :: "lanes \<Rightarrow> nat \<Rightarrow> 64 word" where
  "parity A x = A x 0 XOR A x 1 XOR A x 2 XOR A x 3 XOR A x 4"

definition theta :: "lanes \<Rightarrow> lanes" where
  "theta A = (\<lambda>x y. A x y XOR (parity A ((x + 4) mod 5) XOR word_rotl 1 (parity A ((x + 1) mod 5))))"

text \<open>The rotations of the lanes that the walk \<open>(x, y) \<mapsto> (y, 2 * x + 3 * y)\<close> from \<open>(1, 0)\<close> meets.\<close>

fun walk :: "nat \<Rightarrow> nat \<Rightarrow> nat \<times> nat \<Rightarrow> ((nat \<times> nat) \<times> nat) list" where
  "walk 0 t p = []"
| "walk (Suc n) t (x, y) = ((x, y), (t + 1) * (t + 2) div 2 mod 64) # walk n (t + 1) (y, (2 * x + 3 * y) mod 5)"

definition rho_offset :: "nat \<Rightarrow> nat \<Rightarrow> nat" where
  "rho_offset x y = (case map_of (walk 24 0 (1, 0)) (x, y) of None \<Rightarrow> 0 | Some r \<Rightarrow> r)"

definition rho :: "lanes \<Rightarrow> lanes" where
  "rho A = (\<lambda>x y. word_rotl (rho_offset x y) (A x y))"

definition pi_lanes :: "lanes \<Rightarrow> lanes" where
  "pi_lanes A = (\<lambda>x y. A ((x + 3 * y) mod 5) x)"

definition chi :: "lanes \<Rightarrow> lanes" where
  "chi A = (\<lambda>x y. A x y XOR (NOT (A ((x + 1) mod 5) y) AND A ((x + 2) mod 5) y))"

text \<open>The round constants come from a linear feedback shift register over \<open>x\<^sup>8 + x\<^sup>6 + x\<^sup>5 + x\<^sup>4 + 1\<close>.\<close>

definition lfsr_next :: "bool list \<Rightarrow> bool list" where
  "lfsr_next r =
     (let R = False # r
      in take 8 (R[0 := (R ! 0 \<noteq> R ! 8), 4 := (R ! 4 \<noteq> R ! 8), 5 := (R ! 5 \<noteq> R ! 8), 6 := (R ! 6 \<noteq> R ! 8)]))"

fun lfsr :: "nat \<Rightarrow> bool list" where
  "lfsr 0 = [True, False, False, False, False, False, False, False]"
| "lfsr (Suc t) = lfsr_next (lfsr t)"

definition round_constant :: "nat \<Rightarrow> int" where
  "round_constant i = sum_list (map (\<lambda>j. if lfsr (j + 7 * i) ! 0 then 2 ^ (2 ^ j - 1) else 0) [0..<7])"

definition iota :: "nat \<Rightarrow> lanes \<Rightarrow> lanes" where
  "iota i A = (\<lambda>x y. if x = 0 \<and> y = 0 then A 0 0 XOR word_of_int (round_constant i) else A x y)"

definition keccak_f :: "lanes \<Rightarrow> lanes" where
  "keccak_f A = foldl (\<lambda>A i. iota i (chi (pi_lanes (rho (theta A))))) A [0..<24]"

text \<open>Padding to whole blocks of the rate, absorption of a block, and the digest of a state.\<close>

definition padding :: "nat \<Rightarrow> bytes" where
  "padding len =
     (let q = rateBytes - len mod rateBytes in if q = 1 then [0x81] else 0x01 # replicate (q - 2) 0 @ [0x80])"

fun chunks :: "nat \<Rightarrow> bytes \<Rightarrow> bytes list" where
  "chunks 0 bs = []"
| "chunks (Suc n) bs = take rateBytes bs # chunks n (drop rateBytes bs)"

definition absorb :: "lanes \<Rightarrow> bytes \<Rightarrow> lanes" where
  "absorb A block =
     (\<lambda>x y. if x + 5 * y < 17 then A x y XOR word_rcat (rev (take 8 (drop (8 * (x + 5 * y)) block))) else A x y)"

definition squeeze :: "lanes \<Rightarrow> bytes" where
  "squeeze A = map (\<lambda>k. ucast (drop_bit (8 * (k mod 8)) (A (k div 8) 0))) [0..<32]"

definition keccak256 :: "bytes \<Rightarrow> bytes" where
  "keccak256 m =
     squeeze (foldl (\<lambda>A block. keccak_f (absorb A block)) (\<lambda>x y. 0)
       (chunks (length m div rateBytes + 1) (m @ padding (length m))))"

text \<open>The register's output computed in one run, and how an array of lanes represents a state.\<close>

fun lfsr_run :: "nat \<Rightarrow> bool list \<Rightarrow> bool list" where
  "lfsr_run 0 r = []"
| "lfsr_run (Suc n) r = r ! 0 # lfsr_run n (lfsr_next r)"

definition constant_from :: "bool list \<Rightarrow> nat \<Rightarrow> int" where
  "constant_from bits i = sum_list (map (\<lambda>j. if bits ! (j + 7 * i) then 2 ^ (2 ^ j - 1) else 0) [0..<7])"

definition represents :: "bigint list \<Rightarrow> lanes \<Rightarrow> bool" where
  "represents st A \<longleftrightarrow> length st = 25 \<and> (\<forall>x<5. \<forall>y<5. st ! (x + 5 * y) = uint (A x y))"


section \<open>Lanes and tables\<close>

lemma foldl_update_upt:
  assumes "n \<le> length st"
  shows "foldl (\<lambda>st i. st[i := f i (st ! i)]) st [0..<n] = map (\<lambda>i. f i (st ! i)) [0..<n] @ drop n st"
  using assms
proof (induction n)
  case (Suc n)
  then have "drop n st = st ! n # drop (Suc n) st"
    by (simp add: Cons_nth_drop_Suc)
  with Suc show ?case
    by (simp add: nth_append list_update_append)
qed simp

lemma and_mask_64: "a AND MASK_64 = take_bit 64 a"
  by (simp add: MASK_64_def take_bit_eq_mask mask_eq_exp_minus_1)

lemma take_bit_uint_64 [simp]: "take_bit 64 (uint (w :: 64 word)) = uint w"
  by (rule bit_eqI) (use bit_imp_le_length [of w] in \<open>auto simp: bit_simps\<close>)

lemma uint64_masked [simp]: "uint (w :: 64 word) AND MASK_64 = uint w"
  by (simp add: and_mask_64)

lemma rotl64_uint: "rotl64 (uint (w :: 64 word)) s = uint (word_rotl s w)"
proof (rule bit_eqI)
  fix n
  show "bit (rotl64 (uint w) s) n \<longleftrightarrow> bit (uint (word_rotl s w)) n"
  proof (cases "n < 64")
    case True
    have "s mod 64 < 64" by simp
    show ?thesis
    proof (cases "n < s mod 64")
      case True
      moreover have "64 + n - s mod 64 = n + 64 - s mod 64" by linarith
      ultimately show ?thesis
        using \<open>s mod 64 < 64\<close> by (simp add: rotl64_def Let_def and_mask_64 bit_simps)
    next
      case False
      then have "n + (64 - s mod 64) = (n - s mod 64) + 64"
        using \<open>s mod 64 < 64\<close> by linarith
      then have "(n + (64 - s mod 64)) mod 64 = n - s mod 64"
        using \<open>n < 64\<close> by (metis mod_add_self2 mod_less less_imp_diff_less)
      moreover have "\<not> bit w (64 + n - s mod 64)"
        using False by (intro impossible_bit) simp
      ultimately show ?thesis
        using False \<open>n < 64\<close> by (auto simp: rotl64_def Let_def and_mask_64 bit_simps)
    qed
  next
    case False
    then show ?thesis
      using impossible_bit [of n w] by (simp add: rotl64_def Let_def and_mask_64 bit_simps)
  qed
qed

lemma lfsr_run_nth: "t < n \<Longrightarrow> lfsr_run n (lfsr k) ! t = lfsr (k + t) ! 0"
proof (induction n arbitrary: k t)
  case (Suc n)
  then show ?case
    using Suc.IH [of "t - 1" "Suc k"] by (cases t) simp_all
qed simp

lemma lfsr_nth: "t < 168 \<Longrightarrow> lfsr t ! 0 = lfsr_run 168 (lfsr 0) ! t"
  using lfsr_run_nth [of t 168 0] by simp

lemma round_constant_from: "i < 24 \<Longrightarrow> round_constant i = constant_from (lfsr_run 168 (lfsr 0)) i"
  unfolding round_constant_def constant_from_def
  by (rule arg_cong [of _ _ sum_list], rule map_cong) (simp_all add: lfsr_nth del: lfsr.simps)

lemma constants_table: "map (constant_from (lfsr_run 168 (lfsr 0))) [0..<24] = ROUND_CONSTANTS"
  by code_simp

lemma round_constant_table: "i < 24 \<Longrightarrow> round_constant i = ROUND_CONSTANTS ! i"
  by (simp add: round_constant_from constants_table [symmetric] del: lfsr.simps)

lemma rho_table: "x < 5 \<Longrightarrow> y < 5 \<Longrightarrow> rho_offset x y = ROTATION_OFFSETS ! (x + 5 * y)"
proof -
  have "map (\<lambda>i. rho_offset (i mod 5) (i div 5)) [0..<25] = ROTATION_OFFSETS"
    by code_simp
  then have "rho_offset (i mod 5) (i div 5) = ROTATION_OFFSETS ! i" if "i < 25" for i
    using that by (metis (no_types, lifting) add_0 diff_zero nth_map_upt)
  from this [of "x + 5 * y"] show "x < 5 \<Longrightarrow> y < 5 \<Longrightarrow> ?thesis" by simp
qed

lemma foldl_update_inj:
  assumes "inj_on g {0..<n}" and "k < n" and "g k < length b"
  shows "foldl (\<lambda>b i. b[g i := h i]) b [0..<n] ! g k = h k"
  using assms
proof (induction n)
  case (Suc n)
  have "length (foldl (\<lambda>b i. b[g i := h i]) b [0..<n]) = length b" for n
    by (induction n) simp_all
  moreover have "g n \<noteq> g k" if "k \<noteq> n"
    using Suc.prems that by (auto simp: inj_on_def)
  ultimately show ?case
    using Suc by (cases "k = n") (auto simp: inj_on_def)
qed simp


section \<open>The permutation\<close>

lemma representsI: "length st = 25 \<Longrightarrow> (\<And>x y. x < 5 \<Longrightarrow> y < 5 \<Longrightarrow> st ! (x + 5 * y) = uint (A x y)) \<Longrightarrow> represents st A"
  by (simp add: represents_def)

lemma represents_nth: "represents st A \<Longrightarrow> x < 5 \<Longrightarrow> y < 5 \<Longrightarrow> st ! (x + 5 * y) = uint (A x y)"
  by (simp add: represents_def)

lemma index_less: "x < 5 \<Longrightarrow> y < 5 \<Longrightarrow> x + 5 * y < (25 :: nat)"
  by simp

lemma uint_combine: "(uint a XOR (NOT (uint b) AND uint c)) AND MASK_64 = uint (a XOR (NOT b AND c) :: 64 word)"
  by (rule bit_eqI) (use bit_imp_le_length [of a] bit_imp_le_length [of c] in \<open>auto simp: and_mask_64 bit_simps\<close>)

lemma columns_nth:
  assumes "represents st A" and "x < 5"
  shows "columns st ! x = uint (parity A x)"
proof -
  have "st ! (x + 5 * y) = uint (A x y)" if "y < 5" for y
    using assms that by (simp add: represents_nth)
  from this [of 0] this [of 1] this [of 2] this [of 3] this [of 4] show ?thesis
    using assms(2) by (simp add: columns_def parity_def unsigned_xor_eq)
qed

lemma mixColumns_theta:
  assumes "represents st A"
  shows "represents (mixColumns st) (theta A)"
proof (rule representsI)
  have len: "length st = 25"
    using assms by (simp add: represents_def)
  define d where "d = map (\<lambda>x. columns st ! ((x + 4) mod 5) XOR rotl64 (columns st ! ((x + 1) mod 5)) 1) [0..<5]"
  have mix: "mixColumns st = map (\<lambda>i. (st ! i XOR d ! (i mod 5)) AND MASK_64) [0..<25]"
    unfolding mixColumns_def Let_def d_def [symmetric]
    using foldl_update_upt [of 25 st "\<lambda>i v. (v XOR d ! (i mod 5)) AND MASK_64"] len by simp
  then show "length (mixColumns st) = 25" by simp
  fix x y :: nat
  assume xy: "x < 5" "y < 5"
  then have "d ! x = uint (parity A ((x + 4) mod 5) XOR word_rotl 1 (parity A ((x + 1) mod 5)))"
    using columns_nth [OF assms, of "(x + 4) mod 5"] columns_nth [OF assms, of "(x + 1) mod 5"]
    by (simp add: d_def rotl64_uint unsigned_xor_eq)
  with xy show "mixColumns st ! (x + 5 * y) = uint (theta A x y)"
    using represents_nth [OF assms xy] index_less [OF xy]
    by (simp add: mix theta_def unsigned_xor_eq [symmetric])
qed

lemma moveLanes_rho_pi:
  assumes "represents st A"
  shows "represents (moveLanes st) (pi_lanes (rho A))"
proof (rule representsI)
  let ?g = "\<lambda>i :: nat. i div 5 + 5 * ((2 * (i mod 5) + 3 * (i div 5)) mod 5)"
  have "length (foldl (\<lambda>b i. b[g i := h i]) b is) = length b" for g h and b :: "int list" and "is" :: "nat list"
    by (induction "is" arbitrary: b) simp_all
  then show "length (moveLanes st) = 25"
    by (simp add: moveLanes_def Let_def)
  fix X Y :: nat
  assume XY: "X < 5" "Y < 5"
  define x where "x = (X + 3 * Y) mod 5"
  have "distinct (map ?g [0..<25])"
    by code_simp
  then have "inj_on ?g {0..<25}"
    by (simp only: distinct_map set_upt)
  moreover have "(2 * x + 3 * X) mod 5 = Y"
  proof -
    have "(2 * x + 3 * X) mod 5 = (2 * (X + 3 * Y) + 3 * X) mod 5"
      unfolding x_def by (metis mod_add_left_eq mod_mult_right_eq)
    also have "2 * (X + 3 * Y) + 3 * X = Y + 5 * (X + Y)"
      by simp
    also have "(Y + 5 * (X + Y)) mod 5 = Y"
      using XY by (simp only: mod_mult_self2 mod_less)
    finally show ?thesis .
  qed
  moreover have "x < 5"
    by (simp add: x_def)
  ultimately show "moveLanes st ! (X + 5 * Y) = uint (pi_lanes (rho A) X Y)"
    using XY foldl_update_inj [of ?g 25 "x + 5 * X" "replicate 25 0" "\<lambda>i. rotl64 (st ! i) (ROTATION_OFFSETS ! i)"]
      represents_nth [OF assms, of x X] rho_table [of x X]
    by (simp add: moveLanes_def Let_def pi_lanes_def rho_def x_def [symmetric] rotl64_uint)
qed

lemma combineRows_chi:
  assumes "represents b B" and "length st = 25"
  shows "represents (combineRows b st) (chi B)"
proof (rule representsI)
  define f where "f = (\<lambda>i. (b ! i XOR (NOT (b ! ((i mod 5 + 1) mod 5 + 5 * (i div 5))) AND b ! ((i mod 5 + 2) mod 5 + 5 * (i div 5)))) AND MASK_64)"
  have rows: "combineRows b st = map f [0..<25]"
    unfolding combineRows_def Let_def
    using foldl_update_upt [of 25 st "\<lambda>i v. f i"] assms(2) by (simp add: f_def)
  then show "length (combineRows b st) = 25" by simp
  fix x y :: nat
  assume xy: "x < 5" "y < 5"
  then show "combineRows b st ! (x + 5 * y) = uint (chi B x y)"
    using represents_nth [OF assms(1), of x y] represents_nth [OF assms(1), of "(x + 1) mod 5" y]
      represents_nth [OF assms(1), of "(x + 2) mod 5" y]
    by (simp add: rows f_def chi_def uint_combine)
qed

lemma represents_iota:
  assumes "represents st A" and "i < 24"
  shows "represents (st[0 := (st ! 0 XOR ROUND_CONSTANTS ! i) AND MASK_64]) (iota i A)"
proof (rule representsI)
  fix x y :: nat
  assume xy: "x < 5" "y < 5"
  have "(uint a XOR k) AND MASK_64 = uint (a XOR word_of_int k :: 64 word)" for a k
    by (rule bit_eqI) (use bit_imp_le_length [of a] in \<open>auto simp: and_mask_64 bit_simps\<close>)
  with xy show "st[0 := (st ! 0 XOR ROUND_CONSTANTS ! i) AND MASK_64] ! (x + 5 * y) = uint (iota i A x y)"
    using represents_nth [OF assms(1) xy] represents_nth [OF assms(1), of 0 0] assms
    by (auto simp: iota_def round_constant_table represents_def nth_list_update)
qed (use assms in \<open>simp add: represents_def\<close>)

lemma keccakRound_represents:
  assumes "represents st A" and "i < 24"
  shows "represents (keccakRound st i) (iota i (chi (pi_lanes (rho (theta A)))))"
proof -
  have "represents (mixColumns st) (theta A)"
    using assms(1) by (rule mixColumns_theta)
  then have "represents (combineRows (moveLanes (mixColumns st)) (mixColumns st)) (chi (pi_lanes (rho (theta A))))"
    by (intro combineRows_chi moveLanes_rho_pi) (simp_all add: represents_def)
  then show ?thesis
    using assms(2) unfolding keccakRound_def Let_def by (rule represents_iota)
qed

lemma keccakF1600_represents:
  assumes "represents st A"
  shows "represents (keccakF1600 st) (keccak_f A)"
proof -
  have "represents (foldl keccakRound st [0..<n]) (foldl (\<lambda>A i. iota i (chi (pi_lanes (rho (theta A))))) A [0..<n])"
    if "n \<le> 24" for n
    using that assms by (induction n) (simp_all add: keccakRound_represents)
  then show ?thesis
    unfolding keccakF1600_def keccak_f_def by blast
qed


section \<open>The sponge\<close>

lemma bit_readLane:
  "bit (foldl (\<lambda>out i. out OR push_bit (i * 8) (if offset + i < length bs then uint (bs ! (offset + i)) else 0)) 0 [0..<m]) n
   \<longleftrightarrow> n div 8 < m \<and> offset + n div 8 < length bs \<and> bit (bs ! (offset + n div 8)) (n mod 8)"
  for bs :: bytes
proof (induction m)
  case (Suc m)
  have "m * 8 \<le> n \<and> bit (uint b) (n - m * 8) \<longleftrightarrow> n div 8 = m \<and> bit b (n mod 8)" for b :: "8 word"
  proof (cases "n div 8 = m")
    case True
    then have "m * 8 \<le> n" and "n - m * 8 = n mod 8"
      by (auto simp: modulo_nat_def)
    then show ?thesis
      using True by (simp add: bit_simps)
  next
    case False
    then have "m * 8 \<le> n \<Longrightarrow> 8 \<le> n - m * 8"
      by (metis div_nat_eqI le_diff_conv2 add.commute mult.commute mult_Suc not_le)
    then show ?thesis
      using False impossible_bit [of "n - m * 8" b] by (auto simp: bit_simps)
  qed
  then show ?case
    using Suc by (auto simp: bit_simps less_Suc_eq)
qed simp

lemma bit_rcat_8:
  "bit (word_rcat ws :: 64 word) n \<longleftrightarrow> n < 64 \<and> n div 8 < length ws \<and> bit (rev ws ! (n div 8)) (n mod 8)" for ws :: bytes
  using bit_horner_sum_uint_exp_iff [of "rev ws" n] by (simp add: word_rcat_def bit_simps)

lemma readLaneLE_rcat:
  assumes "offset + 8 \<le> length bs"
  shows "readLaneLE bs offset = uint (word_rcat (rev (take 8 (drop offset bs))) :: 64 word)"
proof (rule bit_eqI)
  fix n :: nat
  have "n < 64 \<longleftrightarrow> n div 8 < 8" by presburger
  then show "bit (readLaneLE bs offset) n = bit (uint (word_rcat (rev (take 8 (drop offset bs))) :: 64 word)) n"
    unfolding readLaneLE_def bit_readLane using assms by (auto simp: bit_uint_iff bit_rcat_8)
qed

lemma absorbBlock_absorb:
  assumes "represents st A" and "offset + rateBytes \<le> length input"
  shows "represents (absorbBlock input offset st) (absorb A (take rateBytes (drop offset input)))"
proof (rule representsI)
  define f where "f = (\<lambda>i v. (v XOR readLaneLE input (offset + i * 8)) AND MASK_64)"
  have len: "length st = 25"
    using assms(1) by (simp add: represents_def)
  have block: "absorbBlock input offset st = map (\<lambda>i. f i (st ! i)) [0..<17] @ drop 17 st"
    unfolding absorbBlock_def using foldl_update_upt [of 17 st f] len by (simp add: f_def rateBytes_def)
  then show "length (absorbBlock input offset st) = 25"
    using len by simp
  fix x y :: nat
  assume xy: "x < 5" "y < 5"
  let ?i = "x + 5 * y"
  have "(uint a XOR uint b) AND MASK_64 = uint (a XOR b :: 64 word)" for a b
    by (metis uint64_masked unsigned_xor_eq)
  moreover have "?i < 17 \<Longrightarrow> readLaneLE input (offset + ?i * 8) =
      uint (word_rcat (rev (take 8 (drop (8 * ?i) (take rateBytes (drop offset input))))) :: 64 word)"
    using assms(2) by (subst readLaneLE_rcat) (auto simp: rateBytes_def drop_take min_def add.commute mult.commute)
  ultimately show "absorbBlock input offset st ! ?i = uint (absorb A (take rateBytes (drop offset input)) x y)"
    using represents_nth [OF assms(1) xy] index_less [OF xy] len
    by (auto simp: block f_def absorb_def nth_append)
qed

lemma absorbFull_represents:
  assumes "represents st A" and "offset \<le> length input"
  shows "\<exists>st'. absorbFull input offset st = (offset + (length input - offset) div rateBytes * rateBytes, st') \<and>
    represents st' (foldl (\<lambda>A block. keccak_f (absorb A block)) A (chunks ((length input - offset) div rateBytes) (drop offset input)))"
  using assms
proof (induction input offset st arbitrary: A rule: absorbFull.induct)
  case (1 input offset st)
  let ?r = "length input - offset"
  show ?case
  proof (cases "offset + rateBytes \<le> length input")
    case True
    then have rest: "?r div rateBytes = Suc ((length input - (offset + rateBytes)) div rateBytes)"
      by (simp add: rateBytes_def le_div_geq flip: diff_diff_left)
    have "represents (keccakF1600 (absorbBlock input offset st)) (keccak_f (absorb A (take rateBytes (drop offset input))))"
      using 1 True by (intro keccakF1600_represents absorbBlock_absorb)
    from "1.IH" [OF True this] True show ?thesis
      by (subst absorbFull.simps) (auto simp: rest add.commute)
  next
    case False
    then have "?r div rateBytes = 0"
      by (simp add: rateBytes_def)
    with False 1 show ?thesis
      by (subst absorbFull.simps) simp
  qed
qed

lemma chunks_append:
  "length bs = n * rateBytes \<Longrightarrow> chunks (n + k) (bs @ cs) = chunks n bs @ chunks k cs"
  by (induction n arbitrary: bs) simp_all

lemma lastBlock_padding:
  assumes "offset = length input div rateBytes * rateBytes"
  shows "lastBlock input offset = drop offset input @ padding (length input)"
proof -
  define q where "q = rateBytes - length input mod rateBytes"
  have pad: "padding (length input) = (if q = 1 then [0x81] else 0x01 # replicate (q - 2) 0 @ [0x80])"
    by (simp add: padding_def q_def Let_def)
  have "length input - offset = length input mod rateBytes"
    using assms by (simp add: minus_div_mult_eq_mod)
  moreover have "length input mod rateBytes < rateBytes"
    by (simp add: rateBytes_def)
  ultimately have r: "length (drop offset input) = rateBytes - q" "length input - offset = rateBytes - q" "0 < q" "q \<le> rateBytes"
    by (auto simp: q_def)
  then consider "q = 1" | k where "q = Suc (Suc k)"
    by (cases q; cases "q - 1") auto
  then show ?thesis
  proof cases
    case 1
    then show ?thesis
      using r by (simp add: lastBlock_def pad nth_append list_update_append rateBytes_def)
  next
    case 2
    then have "rateBytes - Suc 0 - (rateBytes - Suc (Suc k)) = Suc k" "\<not> rateBytes - Suc 0 < rateBytes - Suc (Suc k)"
      using r by simp_all
    then show ?thesis
      using r 2 by (simp add: lastBlock_def pad Let_def nth_append list_update_append replicate_append_same [symmetric])
  qed
qed

lemma length_padding: "length m mod rateBytes + length (padding (length m)) = rateBytes"
proof -
  have "length m mod rateBytes < rateBytes"
    by (simp add: rateBytes_def)
  then show ?thesis
    by (auto simp: padding_def Let_def)
qed

lemma writeLane_loop:
  assumes "foldl (\<lambda>(out, v) i. (out[offset + i := word_of_int (v AND 0xff)], drop_bit 8 v)) (out, v) [0..<m] = (out', v')"
  shows "v' = drop_bit (8 * m) v \<and> length out' = length out \<and>
    (\<forall>k<length out. out' ! k =
      (if offset \<le> k \<and> k < offset + m then word_of_int (drop_bit (8 * (k - offset)) v AND 0xff) else out ! k))"
  using assms
proof (induction m arbitrary: out' v')
  case (Suc m)
  obtain o1 v1 where loop: "foldl (\<lambda>(out, v) i. (out[offset + i := word_of_int (v AND 0xff)], drop_bit 8 v)) (out, v) [0..<m] = (o1, v1)"
    by fastforce
  with Suc.IH [OF loop] Suc.prems show ?case
    by (auto simp: less_Suc_eq add.commute)
qed auto

lemma writeLaneLE_spec:
  fixes w :: "64 word"
  shows "length (writeLaneLE out offset (uint w)) = length out"
    and "k < length out \<Longrightarrow> writeLaneLE out offset (uint w) ! k =
      (if offset \<le> k \<and> k < offset + 8 then ucast (drop_bit (8 * (k - offset)) w) else out ! k)"
proof -
  obtain out' v' where loop:
    "foldl (\<lambda>(out, v) i. (out[offset + i := word_of_int (v AND 0xff)], drop_bit 8 v)) (out, uint w AND MASK_64) [0..<8] = (out', v')"
    by fastforce
  have "a AND 0xff = take_bit 8 a" for a :: int
    by (simp add: take_bit_eq_mask mask_eq_exp_minus_1)
  then have "word_of_int (drop_bit n (uint w) AND 0xff) = (ucast (drop_bit n w) :: 8 word)" for n
    by (intro bit_word_eqI) (auto simp: bit_simps)
  with writeLane_loop [OF loop] show "length (writeLaneLE out offset (uint w)) = length out"
    and "k < length out \<Longrightarrow> writeLaneLE out offset (uint w) ! k =
      (if offset \<le> k \<and> k < offset + 8 then ucast (drop_bit (8 * (k - offset)) w) else out ! k)"
    using loop by (auto simp: writeLaneLE_def)
qed

lemma write_squeeze:
  assumes "represents st A"
  shows "foldl (\<lambda>out lane. writeLaneLE out (lane * 8) (st ! lane)) (replicate outputBytes 0) [0..<outputBytes div 8] = squeeze A"
proof -
  let ?out = "\<lambda>n. foldl (\<lambda>out lane. writeLaneLE out (lane * 8) (st ! lane)) (replicate 32 0) [0..<n]"
  have "length (?out n) = 32 \<and> (\<forall>k<8 * n. ?out n ! k = ucast (drop_bit (8 * (k mod 8)) (A (k div 8) 0)))" if "n \<le> 4" for n
    using that
  proof (induction n)
    case (Suc n)
    have lane: "st ! n = uint (A n 0)"
      using represents_nth [OF assms, of n 0] Suc.prems by simp
    have "k div 8 = n \<and> k mod 8 = k - n * 8" if "n * 8 \<le> k" "k < Suc n * 8" for k
    proof -
      have "k div 8 = n"
        using that by (intro div_nat_eqI) simp_all
      then show ?thesis
        by (simp add: modulo_nat_def)
    qed
    with Suc show ?case
      by (auto simp: lane writeLaneLE_spec)
  qed simp
  from this [of 4] show ?thesis
    by (intro nth_equalityI) (auto simp: squeeze_def outputBytes_def)
qed

text \<open>
  (C7) The hash of the code is Keccak-256: on every input, \<^verbatim>\<open>keccak256Bytes\<close>, with its unbounded integers cut to 64 bits, its
  tables of rotations and constants, its loop over full blocks and its last block, gives the digest of the reference.
\<close>

theorem keccak256Bytes_standard: "keccak256Bytes input = keccak256 input"
proof -
  let ?n = "length input div rateBytes"
  let ?step = "\<lambda>A block. keccak_f (absorb A block)"
  have "represents (replicate 25 0) (\<lambda>x y. 0)"
    by (simp add: represents_def)
  from absorbFull_represents [OF this, of 0 input] obtain st where
    st: "absorbFull input 0 (replicate 25 0) = (?n * rateBytes, st)" "represents st (foldl ?step (\<lambda>x y. 0) (chunks ?n input))"
    by auto
  let ?last = "drop (?n * rateBytes) input @ padding (length input)"
  have len: "length ?last = rateBytes"
    using length_padding [of input] by (simp add: minus_div_mult_eq_mod)
  have "chunks (?n + 1) (take (?n * rateBytes) input @ ?last) = chunks ?n (take (?n * rateBytes) input) @ chunks 1 ?last"
    by (intro chunks_append) simp
  moreover have "chunks n (take (n * rateBytes) bs) = chunks n bs" for n bs
    by (induction n arbitrary: bs) (simp_all add: drop_take)
  moreover have "chunks 1 ?last = [?last]"
    using len by simp
  moreover have "take (?n * rateBytes) input @ ?last = input @ padding (length input)"
    by (simp only: append.assoc [symmetric] append_take_drop_id)
  ultimately have "chunks (?n + 1) (input @ padding (length input)) = chunks ?n input @ [?last]"
    by (simp only:)
  moreover have "represents (keccakF1600 (absorbBlock ?last 0 st)) (keccak_f (absorb (foldl ?step (\<lambda>x y. 0) (chunks ?n input)) ?last))"
    using absorbBlock_absorb [OF st(2), of 0 ?last] len by (intro keccakF1600_represents) simp
  ultimately show ?thesis
    using lastBlock_padding [of "?n * rateBytes" input]
    by (simp add: keccak256Bytes_def keccak256_def st(1) write_squeeze del: chunks.simps)
qed

end
