(* ===== verification/Chain_Engine.thy ===== *)
theory Chain_Engine
  imports Block_Selection Chain_Types Keccak
begin

text \<open>
  The chain engine of \<^verbatim>\<open>node/src/chain-engine.ts\<close>, with the block hash and link of \<^verbatim>\<open>node/src/hash.ts\<close>, the chain file of
  \<^verbatim>\<open>node/src/storage.ts\<close> and the bounded set of \<^verbatim>\<open>node/src/p2p.ts\<close>: it admits transactions, proposes blocks, validates and
  executes blocks, keeps the chain with its indices and finality flags, and adopts the chains of others.

  \<^verbatim>\<open>applyBlock\<close> chains its calls in a queue, so at most one is under way. It is cut where it first waits for the virtual machine:
  \<open>beginApply\<close> is what runs before, \<open>finishApply\<close> what runs after, on the state found then; the steps of an engine
  interleave other calls between the two. The virtual machine, signature recovery and the transaction decoder are the
  fields of \<open>Host\<close>; \<open>'e\<close> is the state of the virtual machine. A call of it that throws still returns the state it
  leaves, with \<open>False\<close> or \<open>None\<close>; its checkpoint, revert and reset are taken not to throw. \<^verbatim>\<open>Date.now()\<close> and the
  success of a file write are arguments.
\<close>

section \<open>Data\<close>

record LogEntry =
  logAddress :: "hex option"
  logTopics :: "hex list option"
  logData :: "hex option"

record TxReceipt =
  rcGasUsed :: bigint
  rcTransactionHash :: "hex option"
  rcLogs :: "LogEntry list option"

record ExecutionContext =
  ctxBlockNumber :: bigint
  ctxBaseFee :: bigint
  ctxExcessBlobGas :: "bigint option"
  ctxBeaconRoot :: "hex option"
  ctxTimestamp :: int

record 'e Host =
  verifyNodeSig :: "string \<Rightarrow> hex \<Rightarrow> string \<Rightarrow> bool"
  decodeTx :: "hex \<Rightarrow> EthTx option"
  evmCheckpoint :: "'e \<Rightarrow> 'e"
  evmCommit :: "'e \<Rightarrow> 'e \<times> bool"
  evmRevert :: "'e \<Rightarrow> 'e"
  evmReset :: "'e \<Rightarrow> 'e"
  evmContext :: "ExecutionContext \<Rightarrow> 'e \<Rightarrow> 'e \<times> bool"
  evmExec :: "ExecutionContext \<Rightarrow> ChainBlock \<Rightarrow> nat \<Rightarrow> hex \<Rightarrow> 'e \<Rightarrow> 'e \<times> hex option"
  evmReceipt :: "'e \<Rightarrow> hex \<Rightarrow> TxReceipt option"
  evmNonce :: "'e \<Rightarrow> hex \<Rightarrow> bigint"
  evmEvictCaches :: "'e \<Rightarrow> 'e"
  stateTrieCommit :: "('e \<Rightarrow> 'e \<times> hex option) option"

datatype SigMode = SigOff | SigMonitor | SigEnforce

record NodeSigner =
  signerId :: string
  signText :: "string \<Rightarrow> hex"

record ChainEngineConfig =
  engNodeId :: string
  engChainId :: "int option"
  engValidators :: "string list"
  finalityDepth :: int
  maxTxPerBlock :: int
  engMinGasPrice :: bigint
  signatureEnforcement :: "SigMode option"
  hasRejectHook :: bool

datatype EngineError =
    InvalidLink | InvalidProposer | SignatureInvalid | SignatureMissing | NegativeTimestamp | TimestampNotAfterParent
  | TimestampTooFar | WeightMissing | WeightInvalid | HashInvalid | ExecutionFailed | GasLimitExceeded | GasUsedMismatch
  | StateRootMismatch | StateRootSigInvalid | RawTxUndecodable | WrongChainId | InitcodeTooLarge | PoolError MempoolError
  | AlreadyConfirmed | NonceTooLow | SaveFailed

datatype ChainEvent =
    PendingTx MempoolTx | NewBlock ChainBlock "TxReceipt list"
  | LogEvent hex "hex list" hex bigint hex hex nat nat | LocalApplyRejected bigint hex hex hex

text \<open>The JSON object of a stored block; a missing key is \<open>None\<close>, big integers are decimal strings.\<close>

record BlockJson =
  jNumber :: "string option"
  jHash :: "hex option"
  jParentHash :: "hex option"
  jProposer :: "string option"
  jTimestampMs :: "int option"
  jTxs :: "hex list option"
  jFinalized :: "bool option"
  jBftFinalized :: "bool option"
  jSignature :: "hex option"
  jStateRootSig :: "hex option"
  jStateRoot :: "hex option"
  jBaseFee :: "string option"
  jGasUsed :: "string option"
  jCumulativeWeight :: "string option"
  jBlobGasUsed :: "string option"
  jExcessBlobGas :: "string option"
  jParentBeaconBlockRoot :: "hex option"

datatype ChainFile = NoChainFile | UnreadableChain | ChainJson "BlockJson list"

record 'e ChainEngine =
  engCfg :: ChainEngineConfig
  nodeSigner :: "NodeSigner option"
  hasVerifier :: bool
  validatorAddressMap :: "(string, string) jsmap"
  blocks :: "ChainBlock list"
  blockByNumber :: "(bigint, ChainBlock) jsmap"
  blockByHash :: "(hex, ChainBlock) jsmap"
  receiptsByBlock :: "(bigint, TxReceipt list) jsmap"
  txHashSet :: "hex list"
  mempool :: MempoolState
  evm :: 'e
  chainFile :: ChainFile
  chainEvents :: "ChainEvent list"

definition newChainEngine :: "ChainEngineConfig \<Rightarrow> 'e \<Rightarrow> ChainFile \<Rightarrow> 'e ChainEngine" where
  "newChainEngine c e f =
     \<lparr>engCfg = c, nodeSigner = None, hasVerifier = False, validatorAddressMap = [], blocks = [], blockByNumber = [], blockByHash = [],
      receiptsByBlock = [], txHashSet = [], mempool = newMempool (DEFAULT_CONFIG\<lparr>chainId := coalesce (engChainId c) 18780\<rparr>),
      evm = e, chainFile = f, chainEvents = []\<rparr>"

definition setNodeSigner :: "NodeSigner \<Rightarrow> 'e ChainEngine \<Rightarrow> 'e ChainEngine" where
  "setNodeSigner signer s = s\<lparr>nodeSigner := Some signer, hasVerifier := True\<rparr>"

definition setValidatorAddressMap :: "(string, string) jsmap \<Rightarrow> 'e ChainEngine \<Rightarrow> 'e ChainEngine" where
  "setValidatorAddressMap m s = s\<lparr>validatorAddressMap := m\<rparr>"

definition setOnLocalApplyRejected :: "'e ChainEngine \<Rightarrow> 'e ChainEngine" where
  "setOnLocalApplyRejected s = s\<lparr>engCfg := (engCfg s)\<lparr>hasRejectHook := True\<rparr>\<rparr>"

definition resolveValidatorAddress :: "string \<Rightarrow> 'e ChainEngine \<Rightarrow> string" where
  "resolveValidatorAddress nid s = coalesce (jget (validatorAddressMap s) nid) nid"

definition sigMode :: "'e ChainEngine \<Rightarrow> SigMode" where
  "sigMode s = coalesce (signatureEnforcement (engCfg s)) SigEnforce"


section \<open>The hash and the link of a block\<close>

definition zeroHash :: hex where
  "zeroHash = ''0x'' @ replicate 64 (CHR ''0'')"

fun joinWith :: "string \<Rightarrow> string list \<Rightarrow> string" where
  "joinWith sep [] = []"
| "joinWith sep [x] = x"
| "joinWith sep (x # y # xs) = x @ sep @ joinWith sep (y # xs)"

definition stablePayload :: "ChainBlock \<Rightarrow> string" where
  "stablePayload b =
     joinWith ''|'' [show_int (number b), parentHash b, proposer b, show_int (timestampMs b), joinWith '','' (txs b),
       show_int (coalesce (blockBaseFee b) 0), show_int (coalesce (blockCumulativeWeight b) 0), show_int (coalesce (blobGasUsed b) 0),
       show_int (coalesce (excessBlobGas b) 0), coalesce (parentBeaconBlockRoot b) []]"

definition hashBlockPayload :: "ChainBlock \<Rightarrow> hex" where
  "hashBlockPayload b = ''0x'' @ keccak256Hex (utf8Bytes (stablePayload b))"

definition validateBlockLink :: "ChainBlock option \<Rightarrow> ChainBlock \<Rightarrow> bool" where
  "validateBlockLink prev b =
     (case prev of None \<Rightarrow> number b = 1 \<and> parentHash b = zeroHash
      | Some p \<Rightarrow> number b = number p + 1 \<and> parentHash b = hash p)"

definition uniformWeightValidationError :: "ChainBlock option \<Rightarrow> ChainBlock \<Rightarrow> EngineError option" where
  "uniformWeightValidationError prev b =
     (case blockCumulativeWeight b of
        None \<Rightarrow> (case prev of None \<Rightarrow> None | Some p \<Rightarrow> if blockCumulativeWeight p \<noteq> None then Some WeightMissing else None)
      | Some w \<Rightarrow> if w \<noteq> number b then Some WeightInvalid else None)"

definition bset_add :: "nat \<Rightarrow> 'a \<Rightarrow> 'a list \<Rightarrow> 'a list" where
  "bset_add cap x xs = (if x \<in> set xs then xs else (if length xs \<ge> cap then tl xs else xs) @ [x])"


section \<open>Queries\<close>

definition getTip :: "'e ChainEngine \<Rightarrow> ChainBlock option" where
  "getTip s = (if blocks s = [] then None else Some (last (blocks s)))"

definition getHeight :: "'e ChainEngine \<Rightarrow> bigint" where
  "getHeight s = (case getTip s of None \<Rightarrow> 0 | Some b \<Rightarrow> number b)"

definition getHighestFinalizedBlock :: "'e ChainEngine \<Rightarrow> bigint" where
  "getHighestFinalizedBlock s =
     (let fin = getHeight s - max 1 (finalityDepth (engCfg s)) in if fin < 0 then 0 else fin)"

definition getBlockByNumber :: "bigint \<Rightarrow> 'e ChainEngine \<Rightarrow> ChainBlock option" where
  "getBlockByNumber n s = jget (blockByNumber s) n"

definition getBlockByHash :: "hex \<Rightarrow> 'e ChainEngine \<Rightarrow> ChainBlock option" where
  "getBlockByHash h s = jget (blockByHash s) h"

definition getReceiptsByBlock :: "bigint \<Rightarrow> 'e ChainEngine \<Rightarrow> TxReceipt list" where
  "getReceiptsByBlock n s = coalesce (jget (receiptsByBlock s) n) []"

definition expectedProposer :: "bigint \<Rightarrow> 'e ChainEngine \<Rightarrow> string" where
  "expectedProposer nextHeight s =
     (let vs = engValidators (engCfg s)
      in if vs = [] then engNodeId (engCfg s)
         else if nextHeight < 1 then vs ! 0
         else vs ! nat ((nextHeight - 1) mod int (length vs)))"


section \<open>The chain file\<close>

definition serializeBlock :: "ChainBlock \<Rightarrow> BlockJson" where
  "serializeBlock b =
     \<lparr>jNumber = Some (show_int (number b)), jHash = Some (hash b), jParentHash = Some (parentHash b), jProposer = Some (proposer b),
      jTimestampMs = Some (timestampMs b), jTxs = Some (txs b), jFinalized = Some (finalized b), jBftFinalized = blockBftFinalized b,
      jSignature = blockSignature b, jStateRootSig = stateRootSig b, jStateRoot = blockStateRoot b,
      jBaseFee = map_option show_int (blockBaseFee b), jGasUsed = map_option show_int (blockGasUsed b),
      jCumulativeWeight = map_option show_int (blockCumulativeWeight b), jBlobGasUsed = map_option show_int (blobGasUsed b),
      jExcessBlobGas = map_option show_int (excessBlobGas b), jParentBeaconBlockRoot = parentBeaconBlockRoot b\<rparr>"

definition parseBlock :: "BlockJson \<Rightarrow> ChainBlock" where
  "parseBlock j =
     \<lparr>number = read_int (coalesce (jNumber j) ''0''), hash = coalesce (jHash j) ''0x'', parentHash = coalesce (jParentHash j) ''0x'',
      proposer = coalesce (jProposer j) [], timestampMs = coalesce (jTimestampMs j) 0, txs = coalesce (jTxs j) [],
      finalized = coalesce (jFinalized j) False, blockBftFinalized = None, blockSignature = None, stateRootSig = None, blockStateRoot = None,
      blockBaseFee = map_option read_int (jBaseFee j), blockGasUsed = map_option read_int (jGasUsed j),
      blockCumulativeWeight = map_option read_int (jCumulativeWeight j), blobGasUsed = map_option read_int (jBlobGasUsed j),
      excessBlobGas = map_option read_int (jExcessBlobGas j), parentBeaconBlockRoot = jParentBeaconBlockRoot j\<rparr>"

definition loadChain :: "ChainFile \<Rightarrow> ChainBlock list" where
  "loadChain f = (case f of ChainJson js \<Rightarrow> map parseBlock js | _ \<Rightarrow> [])"

definition saveChain :: "'e ChainEngine \<Rightarrow> 'e ChainEngine" where
  "saveChain s = s\<lparr>chainFile := ChainJson (map serializeBlock (blocks s))\<rparr>"


section \<open>Admitting a transaction\<close>

definition MAX_INITCODE_SIZE :: bigint where
  "MAX_INITCODE_SIZE = 49152"

text \<open>Twice the number of bytes of the creation code, which may be odd.\<close>

definition initCodeDigits :: "EthTx \<Rightarrow> bigint" where
  "initCodeDigits tx =
     (case e_data tx of None \<Rightarrow> 0
      | Some d \<Rightarrow> if d = [] then 0 else if take 2 d = ''0x'' then int (length d) - 2 else int (length d))"

definition engineAddRawTx :: "'e Host \<Rightarrow> int \<Rightarrow> hex \<Rightarrow> 'e ChainEngine \<Rightarrow> (EngineError, 'e ChainEngine, MempoolTx) outcome" where
  "engineAddRawTx host now raw s =
     (case decodeTx host raw of None \<Rightarrow> (s, Inl RawTxUndecodable)
      | Some tx \<Rightarrow>
          if e_chainId tx \<noteq> coalesce (engChainId (engCfg s)) 18780 then (s, Inl WrongChainId)
          else if \<not> truthy (e_to tx) \<and> initCodeDigits tx > 2 * MAX_INITCODE_SIZE then (s, Inl InitcodeTooLarge)
          else case validateTxStructure tx of Some err \<Rightarrow> (s, Inl (PoolError err))
          | None \<Rightarrow>
              if e_hash tx \<in> set (txHashSet s) then (s, Inl AlreadyConfirmed)
              else if (case e_from tx of None \<Rightarrow> False
                  | Some a \<Rightarrow> a \<noteq> [] \<and> int (e_nonce tx) < evmNonce host (evm s) (toLowerCase a)) then (s, Inl NonceTooLow)
              else case addRawTx (decodeTx host) raw (Some tx) now (mempool s) of
                (p, Inl err) \<Rightarrow> (s\<lparr>mempool := p\<rparr>, Inl (PoolError err))
              | (p, Inr item) \<Rightarrow> (s\<lparr>mempool := p, chainEvents := chainEvents s @ [PendingTx item]\<rparr>, Inr item))"


section \<open>Applying a block\<close>

definition setBlock :: "ChainBlock \<Rightarrow> ChainBlock \<Rightarrow> 'e ChainEngine \<Rightarrow> 'e ChainEngine" where
  "setBlock old new s =
     s\<lparr>blocks := (case findIndex (\<lambda>b. b = old) (blocks s) of None \<Rightarrow> blocks s | Some i \<Rightarrow> (blocks s)[i := new]),
       blockByNumber := jset (number new) new (blockByNumber s), blockByHash := jset (hash new) new (blockByHash s)\<rparr>"

definition promoteFinality :: "bool \<Rightarrow> bool \<Rightarrow> ChainBlock \<Rightarrow> ChainBlock \<Rightarrow> 'e ChainEngine \<Rightarrow> 'e ChainEngine" where
  "promoteFinality io locally block existing s =
     (if locally \<and> blockBftFinalized block = Some True \<and> blockBftFinalized existing \<noteq> Some True then
        let s1 = setBlock existing (existing\<lparr>blockBftFinalized := Some True\<rparr>) s in if io then saveChain s1 else s1
      else s)"

definition checkSignature :: "'e Host \<Rightarrow> ChainBlock \<Rightarrow> string \<Rightarrow> 'e ChainEngine \<Rightarrow> EngineError option" where
  "checkSignature host block addr s =
     (if hasVerifier s \<and> sigMode s \<noteq> SigOff then
        if truthy (blockSignature block) then
          if verifyNodeSig host (''block:'' @ hash block) (the (blockSignature block)) addr then None else Some SignatureInvalid
        else if sigMode s = SigEnforce then Some SignatureMissing else None
      else None)"

definition MAX_FUTURE_MS :: int where
  "MAX_FUTURE_MS = 60000"

definition checkTimestamp :: "int \<Rightarrow> ChainBlock option \<Rightarrow> ChainBlock \<Rightarrow> EngineError option" where
  "checkTimestamp now prev block =
     (if timestampMs block < 0 then Some NegativeTimestamp
      else if (case prev of None \<Rightarrow> False | Some p \<Rightarrow> timestampMs block \<le> timestampMs p) then Some TimestampNotAfterParent
      else if timestampMs block > now + MAX_FUTURE_MS then Some TimestampTooFar else None)"

definition checkBlock :: "'e Host \<Rightarrow> int \<Rightarrow> bool \<Rightarrow> ChainBlock \<Rightarrow> 'e ChainEngine \<Rightarrow> EngineError option" where
  "checkBlock host now locally block s =
     (let prev = getTip s
      in if \<not> validateBlockLink prev block then Some InvalidLink
         else if blockBftFinalized block \<noteq> Some True \<and> toLowerCase (expectedProposer (number block) s) \<noteq> toLowerCase (proposer block)
         then Some InvalidProposer
         else case (if locally then None else checkSignature host block (resolveValidatorAddress (proposer block) s) s) of
           Some err \<Rightarrow> Some err
         | None \<Rightarrow>
             (case (if locally then None else checkTimestamp now prev block) of Some err \<Rightarrow> Some err
              | None \<Rightarrow>
                  (case uniformWeightValidationError prev block of Some err \<Rightarrow> Some err
                   | None \<Rightarrow> if hashBlockPayload block \<noteq> hash block then Some HashInvalid else None)))"

record 'e ExecAcc =
  accEvm :: 'e
  accReceipts :: "TxReceipt list"
  accGas :: bigint
  accSeen :: "hex list"

definition blockContext :: "ChainBlock \<Rightarrow> ExecutionContext" where
  "blockContext block =
     \<lparr>ctxBlockNumber = number block, ctxBaseFee = coalesce (blockBaseFee block) 0, ctxExcessBlobGas = excessBlobGas block,
      ctxBeaconRoot = (if truthy (parentBeaconBlockRoot block) then parentBeaconBlockRoot block else None),
      ctxTimestamp = timestampMs block div 1000\<rparr>"

definition TX_HASHES :: nat where
  "TX_HASHES = 500000"

text \<open>The loop over the transactions; it stops at the first that throws.\<close>

fun execTxs :: "'e Host \<Rightarrow> ChainBlock \<Rightarrow> nat \<Rightarrow> hex list \<Rightarrow> 'e ExecAcc \<Rightarrow> 'e ExecAcc \<times> bool" where
  "execTxs host block i [] a = (a, True)"
| "execTxs host block i (raw # raws) a =
     (case evmExec host (blockContext block) block i raw (accEvm a) of
        (e, None) \<Rightarrow> (a\<lparr>accEvm := e\<rparr>, False)
      | (e, Some h) \<Rightarrow>
          let a1 = a\<lparr>accEvm := e\<rparr>;
              a2 = (case evmReceipt host e h of None \<Rightarrow> a1
                    | Some rc \<Rightarrow> a1\<lparr>accReceipts := accReceipts a1 @ [rc], accGas := accGas a1 + rcGasUsed rc\<rparr>)
          in execTxs host block (i + 1) raws (a2\<lparr>accSeen := bset_add TX_HASHES h (accSeen a2)\<rparr>))"

text \<open>The state trie's root of a remote block; a commit that throws is only logged.\<close>

definition commitTrie :: "'e Host \<Rightarrow> bool \<Rightarrow> ChainBlock \<Rightarrow> 'e \<Rightarrow> 'e \<times> hex option" where
  "commitTrie host locally block e =
     (if \<not> locally \<and> truthy (blockStateRoot block) then case stateTrieCommit host of None \<Rightarrow> (e, None) | Some commit \<Rightarrow> commit e
      else (e, None))"

definition checkResult :: "'e Host \<Rightarrow> bool \<Rightarrow> ChainBlock \<Rightarrow> 'e ExecAcc \<Rightarrow> 'e ChainEngine \<Rightarrow> 'e \<times> (EngineError \<times> ChainEvent list) option" where
  "checkResult host locally block a s =
     (let e = evmEvictCaches host (accEvm a)
      in if accGas a > BLOCK_GAS_LIMIT then (e, Some (GasLimitExceeded, []))
         else if \<not> locally \<and> blockGasUsed block \<noteq> None \<and> blockGasUsed block \<noteq> Some (accGas a) then (e, Some (GasUsedMismatch, []))
         else case commitTrie host locally block e of
           (e1, None) \<Rightarrow> (e1, None)
         | (e1, Some computedRoot) \<Rightarrow>
             if Some computedRoot \<noteq> blockStateRoot block then
               (e1, Some (StateRootMismatch,
                  if hasRejectHook (engCfg s) then [LocalApplyRejected (number block) (hash block) (the (blockStateRoot block)) computedRoot]
                  else []))
             else (e1, None))"

definition executeBlock :: "'e Host \<Rightarrow> bool \<Rightarrow> ChainBlock \<Rightarrow> 'e ChainEngine \<Rightarrow> (EngineError, 'e ChainEngine, TxReceipt list \<times> bigint) outcome" where
  "executeBlock host locally block s =
     (let undo = (\<lambda>e. if locally then e else evmRevert host e);
          e0 = (if locally then evm s else evmCheckpoint host (evm s))
      in case evmContext host (blockContext block) e0 of
           (e1, False) \<Rightarrow> (s\<lparr>evm := undo e1\<rparr>, Inl ExecutionFailed)
         | (e1, True) \<Rightarrow>
             (case execTxs host block 0 (txs block) \<lparr>accEvm = e1, accReceipts = [], accGas = 0, accSeen = txHashSet s\<rparr> of
                (a, False) \<Rightarrow> (s\<lparr>evm := undo (accEvm a), txHashSet := accSeen a\<rparr>, Inl ExecutionFailed)
              | (a, True) \<Rightarrow>
                  (case checkResult host locally block a s of
                     (e2, Some (err, evs)) \<Rightarrow>
                       (s\<lparr>evm := undo e2, txHashSet := accSeen a, chainEvents := chainEvents s @ evs\<rparr>, Inl err)
                   | (e2, None) \<Rightarrow>
                       (case (if locally then (e2, True) else evmCommit host e2) of
                          (e3, False) \<Rightarrow> (s\<lparr>evm := undo e3, txHashSet := accSeen a\<rparr>, Inl ExecutionFailed)
                        | (e3, True) \<Rightarrow> (s\<lparr>evm := e3, txHashSet := accSeen a\<rparr>, Inr (accReceipts a, accGas a))))))"

definition rootMessage :: "ChainBlock \<Rightarrow> string" where
  "rootMessage block = ''stateRoot:'' @ hash block @ '':'' @ the (blockStateRoot block)"

definition rootSignature :: "'e Host \<Rightarrow> bool \<Rightarrow> ChainBlock \<Rightarrow> 'e ChainEngine \<Rightarrow> EngineError + hex option" where
  "rootSignature host locally block s =
     (case (if locally \<and> truthy (blockStateRoot block) then
              case nodeSigner s of None \<Rightarrow> None
              | Some sg \<Rightarrow> if toLowerCase (proposer block) = toLowerCase (signerId sg) then Some sg else None
            else None) of
        Some sg \<Rightarrow> Inr (Some (signText sg (rootMessage block)))
      | None \<Rightarrow>
          if \<not> locally \<and> truthy (stateRootSig block) \<and> truthy (blockStateRoot block) \<and> hasVerifier s \<and>
             \<not> verifyNodeSig host (rootMessage block) (the (stateRootSig block)) (resolveValidatorAddress (proposer block) s) \<and>
             sigMode s = SigEnforce
          then Inl StateRootSigInvalid else Inr (stateRootSig block))"

definition storedBlock :: "bool \<Rightarrow> ChainBlock \<Rightarrow> bigint \<Rightarrow> hex option \<Rightarrow> ChainBlock" where
  "storedBlock locally block gas rootSig =
     block\<lparr>blockGasUsed := Some gas, stateRootSig := rootSig, finalized := False,
       blockBftFinalized := Some (locally \<and> blockBftFinalized block = Some True)\<rparr>"

definition updateFinalityFlags :: "'e ChainEngine \<Rightarrow> 'e ChainEngine" where
  "updateFinalityFlags s =
     (let newlyFinalBlock = getHeight s - max 1 (finalityDepth (engCfg s))
      in if newlyFinalBlock < 1 then s
         else case jget (blockByNumber s) newlyFinalBlock of None \<Rightarrow> s
         | Some b \<Rightarrow> if finalized b then s else setBlock b (b\<lparr>finalized := True\<rparr>) s)"

text \<open>The log events of the receipts, with the running index of the log in the block.\<close>

fun txLogs :: "ChainBlock \<Rightarrow> nat \<Rightarrow> hex \<Rightarrow> nat \<Rightarrow> LogEntry list \<Rightarrow> ChainEvent list" where
  "txLogs block txIdx th n [] = []"
| "txLogs block txIdx th n (l # ls) =
     LogEvent (coalesce (logAddress l) ''0x'') (coalesce (logTopics l) []) (coalesce (logData l) ''0x'') (number block) (hash block) th txIdx n
     # txLogs block txIdx th (n + 1) ls"

fun blockLogs :: "ChainBlock \<Rightarrow> nat \<Rightarrow> nat \<Rightarrow> TxReceipt list \<Rightarrow> ChainEvent list" where
  "blockLogs block txIdx n [] = []"
| "blockLogs block txIdx n (r # rs) =
     (let ls = coalesce (rcLogs r) []
      in txLogs block txIdx (coalesce (rcTransactionHash r) ''0x'') n ls @ blockLogs block (txIdx + 1) (n + length ls) rs)"

definition dropMined :: "'e Host \<Rightarrow> hex list \<Rightarrow> MempoolState \<Rightarrow> MempoolState" where
  "dropMined host raws p =
     foldl (\<lambda>p raw. case decodeTx host raw of None \<Rightarrow> p | Some tx \<Rightarrow> removeTx (e_hash tx) p) p raws"

definition storeBlock :: "'e Host \<Rightarrow> bool \<Rightarrow> ChainBlock \<Rightarrow> TxReceipt list \<Rightarrow> 'e ChainEngine \<Rightarrow> 'e ChainEngine" where
  "storeBlock host io stored receipts s =
     (let s1 = s\<lparr>blocks := blocks s @ [stored], blockByNumber := jset (number stored) stored (blockByNumber s),
            blockByHash := jset (hash stored) stored (blockByHash s), receiptsByBlock := jset (number stored) receipts (receiptsByBlock s)\<rparr>;
          s2 = updateFinalityFlags s1;
          s3 = (if io then saveChain s2 else s2)
      in s3\<lparr>mempool := dropMined host (txs stored) (mempool s3),
            chainEvents := chainEvents s3 @ NewBlock stored receipts # blockLogs stored 0 0 receipts\<rparr>)"

text \<open>
  The application of a block up to its first call of the virtual machine: a known block is done with at once, a block that
  passes the checks is left to execute. The rest runs on the state of the engine at that time.
\<close>

type_synonym Application = "ChainBlock \<times> bool"

definition beginApply ::
  "'e Host \<Rightarrow> bool \<Rightarrow> int \<Rightarrow> bool \<Rightarrow> ChainBlock \<Rightarrow> 'e ChainEngine \<Rightarrow> (EngineError, 'e ChainEngine, Application option) outcome" where
  "beginApply host io now locally block s =
     (case jget (blockByHash s) (hash block) of
        Some existing \<Rightarrow> (promoteFinality io locally block existing s, Inr None)
      | None \<Rightarrow>
          (case checkBlock host now locally block s of Some err \<Rightarrow> (s, Inl err)
           | None \<Rightarrow> (s, Inr (Some (block, locally)))))"

fun finishApply :: "'e Host \<Rightarrow> bool \<Rightarrow> Application \<Rightarrow> 'e ChainEngine \<Rightarrow> (EngineError, 'e ChainEngine, unit) outcome" where
  "finishApply host io (block, locally) s =
     (case executeBlock host locally block s of
        (s1, Inl err) \<Rightarrow> (s1, Inl err)
      | (s1, Inr (receipts, gas)) \<Rightarrow>
          (case rootSignature host locally block s1 of
             Inl err \<Rightarrow> (s1, Inl err)
           | Inr rootSig \<Rightarrow> (storeBlock host io (storedBlock locally block gas rootSig) receipts s1, Inr ())))"

text \<open>An application that nothing interleaves with.\<close>

definition applyBlock :: "'e Host \<Rightarrow> bool \<Rightarrow> int \<Rightarrow> bool \<Rightarrow> ChainBlock \<Rightarrow> 'e ChainEngine \<Rightarrow> (EngineError, 'e ChainEngine, unit) outcome" where
  "applyBlock host io now locally block s =
     (case beginApply host io now locally block s of
        (s1, Inl err) \<Rightarrow> (s1, Inl err)
      | (s1, Inr None) \<Rightarrow> (s1, Inr ())
      | (s1, Inr (Some app)) \<Rightarrow> finishApply host io app s1)"


section \<open>Proposing a block\<close>

definition tipFees :: "'e ChainEngine \<Rightarrow> BaseFeeParams" where
  "tipFees s =
     \<lparr>parentBaseFee = coalesce (Option.bind (getTip s) blockBaseFee) genesisBaseFee,
      parentGasUsed = coalesce (Option.bind (getTip s) blockGasUsed) 0, gasLimit = None\<rparr>"

definition buildBlock :: "int \<Rightarrow> bigint \<Rightarrow> MempoolTx list \<Rightarrow> 'e ChainEngine \<Rightarrow> ChainBlock" where
  "buildBlock now nextHeight selected s =
     (let tip = getTip s;
          block = \<lparr>number = nextHeight, hash = [], parentHash = (case tip of None \<Rightarrow> zeroHash | Some b \<Rightarrow> hash b),
            proposer = engNodeId (engCfg s), timestampMs = now, txs = map rawTx selected, finalized = False,
            blockBftFinalized = None, blockSignature = None, stateRootSig = None, blockStateRoot = None,
            blockBaseFee = Some (calculateBaseFee (tipFees s)), blockGasUsed = None,
            blockCumulativeWeight = Some (coalesce (Option.bind tip blockCumulativeWeight) 0 + 1), blobGasUsed = Some 0,
            excessBlobGas = Some (calculateExcessBlobGas (coalesce (Option.bind tip excessBlobGas) 0) (coalesce (Option.bind tip blobGasUsed) 0)),
            parentBeaconBlockRoot = Some zeroHash\<rparr>
      in block\<lparr>hash := hashBlockPayload block\<rparr>)"

definition signBlock :: "'e ChainEngine \<Rightarrow> ChainBlock \<Rightarrow> ChainBlock" where
  "signBlock s block =
     (case nodeSigner s of None \<Rightarrow> block | Some sg \<Rightarrow> block\<lparr>blockSignature := Some (signText sg (''block:'' @ hash block))\<rparr>)"

definition pickArgs :: "'e Host \<Rightarrow> 'e ChainEngine \<Rightarrow> PickArgs" where
  "pickArgs host s =
     \<lparr>maxTx = maxTxPerBlock (engCfg s), getOnchainNonce = (\<lambda>a. Some (evmNonce host (evm s) a)),
      minGasPriceWei = engMinGasPrice (engCfg s), baseFeePerGas = calculateBaseFee (tipFees s), blockGasLimit = 30000000, getBalance = None\<rparr>"

text \<open>
  The selection waits for the nonces of the senders; \<open>meanwhile\<close> is what other calls do to the pool in that time. No block
  is applied between the selection and the two applications: if one were, the proposal would fail at its link.
\<close>

definition proposeNextBlock :: 
  "'e Host \<Rightarrow> bool \<Rightarrow> int \<Rightarrow> bool \<Rightarrow> (MempoolState \<Rightarrow> MempoolState) \<Rightarrow> 'e ChainEngine \<Rightarrow> 'e ChainEngine \<times> ChainBlock option" where
  "proposeNextBlock host io now force meanwhile s =
     (let nextHeight = getHeight s + 1
      in if \<not> force \<and> toLowerCase (expectedProposer nextHeight s) \<noteq> toLowerCase (engNodeId (engCfg s)) then (s, None)
         else
           case pickForBlock (pickArgs host s) now meanwhile (mempool s) of (p, selected) \<Rightarrow>
           let s1 = s\<lparr>mempool := p\<rparr>;
               block = signBlock s1 (buildBlock now nextHeight selected s1)
           in case applyBlock host io now True block s1 of
                (s2, Inr u) \<Rightarrow> (s2, Some block)
              | (s2, Inl err) \<Rightarrow>
                  let s3 = s2\<lparr>mempool := foldl (\<lambda>p tx. removeTx (txHash tx) p) (mempool s2) selected\<rparr>;
                      emptyBlock = signBlock s3 (buildBlock now nextHeight [] s3)
                  in case applyBlock host io now True emptyBlock s3 of
                       (s4, Inr u) \<Rightarrow> (s4, Some emptyBlock)
                     | (s4, Inl err2) \<Rightarrow> (s4, None))"


section \<open>Adopting a chain\<close>

text \<open>One turn of the loop over a snapshot's blocks.\<close>

definition verifyLinked :: "'e Host \<Rightarrow> ChainBlock option \<Rightarrow> ChainBlock \<Rightarrow> 'e ChainEngine \<Rightarrow> bool" where
  "verifyLinked host prev block s \<longleftrightarrow>
     hashBlockPayload block = hash block \<and>
     (case prev of None \<Rightarrow> \<not> (number block = 1 \<and> parentHash block \<noteq> zeroHash)
      | Some p \<Rightarrow> parentHash block = hash p \<and> number block = number p + 1 \<and> \<not> timestampMs block \<le> timestampMs p) \<and>
     uniformWeightValidationError prev block = None \<and>
     \<not> (engValidators (engCfg s) \<noteq> [] \<and> proposer block \<notin> set (engValidators (engCfg s))) \<and>
     checkSignature host block (proposer block) s = None"

fun verifyBlockChain :: "'e Host \<Rightarrow> ChainBlock option \<Rightarrow> ChainBlock list \<Rightarrow> 'e ChainEngine \<Rightarrow> bool" where
  "verifyBlockChain host prev [] s = True"
| "verifyBlockChain host prev (b # bs) s = (verifyLinked host prev b s \<and> verifyBlockChain host (Some b) bs s)"

fun applyAll :: "'e Host \<Rightarrow> bool \<Rightarrow> int \<Rightarrow> ChainBlock list \<Rightarrow> 'e ChainEngine \<Rightarrow> (EngineError, 'e ChainEngine, unit) outcome" where
  "applyAll host io now [] s = (s, Inr ())"
| "applyAll host io now (b # bs) s =
     (case applyBlock host io now False b s of
        (s1, Inl err) \<Rightarrow> (s1, Inl err)
      | (s1, Inr u) \<Rightarrow> applyAll host io now bs s1)"

definition clearChain :: "'e Host \<Rightarrow> 'e ChainEngine \<Rightarrow> 'e ChainEngine" where
  "clearChain host s =
     s\<lparr>blocks := [], blockByNumber := [], blockByHash := [], receiptsByBlock := [], txHashSet := [], evm := evmReset host (evm s)\<rparr>"

definition rebuildFromBlocks :: "'e Host \<Rightarrow> bool \<Rightarrow> int \<Rightarrow> ChainBlock list \<Rightarrow> 'e ChainEngine \<Rightarrow> (EngineError, 'e ChainEngine, unit) outcome" where
  "rebuildFromBlocks host io now bs s = applyAll host io now bs (clearChain host s)"

definition maybeAdoptSnapshot :: "'e Host \<Rightarrow> bool \<Rightarrow> int \<Rightarrow> ChainBlock list \<Rightarrow> 'e ChainEngine \<Rightarrow> (EngineError, 'e ChainEngine, bool) outcome" where
  "maybeAdoptSnapshot host io now bs s =
     (if bs = [] then (s, Inr False)
      else if number (last bs) \<le> getHeight s then (s, Inr False)
      else if \<not> verifyBlockChain host None bs s then (s, Inr False)
      else case rebuildFromBlocks host io now bs s of
        (s1, Inl err) \<Rightarrow> (s1, Inl err)
      | (s1, Inr u) \<Rightarrow> if io then (saveChain s1, Inr True) else (s1, Inl SaveFailed))"

definition initEngine :: "'e Host \<Rightarrow> bool \<Rightarrow> int \<Rightarrow> 'e ChainEngine \<Rightarrow> (EngineError, 'e ChainEngine, unit) outcome" where
  "initEngine host io now s =
     (let bs = loadChain (chainFile s) in if bs = [] then (s, Inr ()) else rebuildFromBlocks host io now bs s)"


section \<open>Well-formed chains\<close>

text \<open>
  A chain starts at block 1 and is linked by number and parent hash; every block hashes to its hash and weighs its height; the
  two indices hold exactly the chain's blocks; the blocks at least the finality depth below the tip are final and no others; the
  gas of a block is that of its receipts, within the limit.
\<close>

fun linked :: "ChainBlock option \<Rightarrow> ChainBlock list \<Rightarrow> bool" where
  "linked prev [] = True"
| "linked prev (b # bs) = (validateBlockLink prev b \<and> linked (Some b) bs)"

definition header_ok :: "ChainBlock \<Rightarrow> bool" where
  "header_ok b \<longleftrightarrow> hashBlockPayload b = hash b \<and> blockCumulativeWeight b \<in> {None, Some (number b)}"

definition indexed :: "ChainBlock list \<Rightarrow> (bigint, ChainBlock) jsmap \<Rightarrow> (hex, ChainBlock) jsmap \<Rightarrow> bool" where
  "indexed bs byNumber byHash \<longleftrightarrow>
     (\<forall>n b. jget byNumber n = Some b \<longleftrightarrow> 1 \<le> n \<and> n \<le> int (length bs) \<and> bs ! (nat n - 1) = b) \<and>
     (\<forall>h b. jget byHash h = Some b \<longleftrightarrow> b \<in> set bs \<and> hash b = h)"

definition finality_ok :: "int \<Rightarrow> ChainBlock list \<Rightarrow> bool" where
  "finality_ok depth bs \<longleftrightarrow> (\<forall>i<length bs. finalized (bs ! i) \<longleftrightarrow> int (i + 1) + max 1 depth \<le> int (length bs))"

definition gas_ok :: "(bigint, TxReceipt list) jsmap \<Rightarrow> ChainBlock \<Rightarrow> bool" where
  "gas_ok receipts b \<longleftrightarrow>
     (\<exists>rs. jget receipts (number b) = Some rs \<and> blockGasUsed b = Some (sum_list (map rcGasUsed rs))) \<and>
     (\<exists>g. blockGasUsed b = Some g \<and> g \<le> BLOCK_GAS_LIMIT)"

definition chain_ok :: "'e ChainEngine \<Rightarrow> bool" where
  "chain_ok s \<longleftrightarrow>
     linked None (blocks s) \<and> list_all header_ok (blocks s) \<and> indexed (blocks s) (blockByNumber s) (blockByHash s) \<and>
     finality_ok (finalityDepth (engCfg s)) (blocks s) \<and> list_all (gas_ok (receiptsByBlock s)) (blocks s)"

text \<open>What replacing a block keeps when the replacement differs in its finality marks only.\<close>

definition same_header :: "ChainBlock \<Rightarrow> ChainBlock \<Rightarrow> bool" where
  "same_header a b \<longleftrightarrow> b = a\<lparr>finalized := finalized b, blockBftFinalized := blockBftFinalized b\<rparr>"

definition links_ok :: "'e ChainEngine \<Rightarrow> bool" where
  "links_ok s \<longleftrightarrow> linked None (blocks s) \<and> list_all header_ok (blocks s) \<and> indexed (blocks s) (blockByNumber s) (blockByHash s) \<and>
     list_all (gas_ok (receiptsByBlock s)) (blocks s)"

text \<open>
  The steps of an engine that may have an application under way, waiting for the virtual machine: it begins or finishes an
  application, empties the chain for a rebuild, writes the chain file, changes the transaction pool, or attaches a signer,
  addresses or the hook. The operations are sequences of these steps, and operations that overlap interleave them. The queue of
  \<^verbatim>\<open>applyBlock\<close> keeps a second application from beginning while one is under way; \<^verbatim>\<open>rebuildFromBlocks\<close> does not use the queue,
  so nothing in the code keeps it from emptying the chain at that moment. \<open>waits\<close> says whether it is kept from doing so.
\<close>

type_synonym 'e EngineRun = "'e ChainEngine \<times> Application option"

inductive engine_step :: "'e Host \<Rightarrow> bool \<Rightarrow> 'e EngineRun \<Rightarrow> 'e EngineRun \<Rightarrow> bool" for host :: "'e Host" and waits :: bool where
  refused: "beginApply host io now locally block s = (s', Inl err) \<Longrightarrow> engine_step host waits (s, None) (s', None)"
| began: "beginApply host io now locally block s = (s', Inr p) \<Longrightarrow> engine_step host waits (s, None) (s', p)"
| finished: "engine_step host waits (s, Some app) (fst (finishApply host io app s), None)"
| cleared: "waits \<longrightarrow> p = None \<Longrightarrow> engine_step host waits (s, p) (clearChain host s, p)"
| saved: "engine_step host waits (s, p) (saveChain s, p)"
| poolChanged: "engine_step host waits (s, p) (s\<lparr>mempool := q, chainEvents := chainEvents s @ evs\<rparr>, p)"
| signerSet: "engine_step host waits (s, p) (setNodeSigner signer s, p)"
| addressesSet: "engine_step host waits (s, p) (setValidatorAddressMap m s, p)"
| hookSet: "engine_step host waits (s, p) (setOnLocalApplyRejected s, p)"

abbreviation engine_reaches :: "'e Host \<Rightarrow> bool \<Rightarrow> 'e EngineRun \<Rightarrow> 'e EngineRun \<Rightarrow> bool" where
  "engine_reaches host waits \<equiv> (engine_step host waits)\<^sup>*\<^sup>*"

text \<open>What an application under way relies on when it stores its block.\<close>

fun run_ok :: "'e EngineRun \<Rightarrow> bool" where
  "run_ok (s, None) = chain_ok s"
| "run_ok (s, Some (b, locally)) \<longleftrightarrow> chain_ok s \<and> validateBlockLink (getTip s) b \<and> header_ok b \<and> jget (blockByHash s) (hash b) = None"

text \<open>A host whose machine counts the transactions it executes, two validators on it, and a block for them.\<close>

definition demo_host :: "(nat \<times> nat list) Host" where
  "demo_host =
     \<lparr>verifyNodeSig = (\<lambda>m sig a. sig = ''0x'' @ m), decodeTx = (\<lambda>raw. None),
      evmCheckpoint = (\<lambda>(n, st). (n, n # st)), evmCommit = (\<lambda>(n, st). ((n, tl st), True)), evmRevert = (\<lambda>(n, st). (hd st, tl st)),
      evmReset = (\<lambda>e. (0, [])), evmContext = (\<lambda>ctx e. (e, True)), evmExec = (\<lambda>ctx b i raw (n, st). ((n + 1, st), Some raw)),
      evmReceipt = (\<lambda>e h. Some \<lparr>rcGasUsed = 21000, rcTransactionHash = Some h, rcLogs = None\<rparr>), evmNonce = (\<lambda>e a. 0),
      evmEvictCaches = (\<lambda>e. e), stateTrieCommit = None\<rparr>"

definition demo_engine :: "string \<Rightarrow> (nat \<times> nat list) ChainEngine" where
  "demo_engine nid =
     setNodeSigner \<lparr>signerId = nid, signText = (\<lambda>m. ''0x'' @ m)\<rparr>
       (newChainEngine
          \<lparr>engNodeId = nid, engChainId = None, engValidators = [''a'', ''b''], finalityDepth = 1, maxTxPerBlock = 10, engMinGasPrice = 1,
           signatureEnforcement = None, hasRejectHook = False\<rparr> (0, []) NoChainFile)"

definition demo_chain_block :: "int \<Rightarrow> bigint option \<Rightarrow> hex option \<Rightarrow> ChainBlock" where
  "demo_chain_block n gas root =
     (let b = \<lparr>number = n, hash = [], parentHash = zeroHash, proposer = ''a'', timestampMs = 5000, txs = [''0x01''], finalized = False,
        blockBftFinalized = None, blockSignature = None, stateRootSig = Some ''0xbad'', blockStateRoot = root, blockBaseFee = None,
        blockGasUsed = gas, blockCumulativeWeight = None, blobGasUsed = None, excessBlobGas = None, parentBeaconBlockRoot = None\<rparr>
      in b\<lparr>hash := hashBlockPayload b, blockSignature := Some (''0xblock:'' @ hashBlockPayload b)\<rparr>)"

definition demo_proposal :: "(nat \<times> nat list) ChainEngine \<times> ChainBlock option" where
  "demo_proposal = proposeNextBlock demo_host True 5000 False (\<lambda>p. p) (demo_engine ''a'')"


section \<open>Executing and applying a block\<close>

lemma linked_snoc: "linked prev (bs @ [b]) \<longleftrightarrow> linked prev bs \<and> validateBlockLink (if bs = [] then prev else Some (last bs)) b"
  by (induction bs arbitrary: prev) auto

lemma linked_number: "linked prev bs \<Longrightarrow> i < length bs \<Longrightarrow> number (bs ! i) = (case prev of None \<Rightarrow> 0 | Some p \<Rightarrow> number p) + int i + 1"
proof (induction bs arbitrary: prev i)
  case (Cons b bs)
  then show ?case
    by (cases i) (auto simp: validateBlockLink_def split: option.splits)
qed simp

lemma linked_update:
  assumes "linked prev bs" and "i < length bs" and "number b = number (bs ! i)" and "hash b = hash (bs ! i)" and "parentHash b = parentHash (bs ! i)"
  shows "linked prev (bs[i := b])"
  using assms
proof (induction bs arbitrary: prev i)
  case (Cons c cs)
  have "linked (Some b) cs" if "linked (Some c) cs" "number b = number c" "hash b = hash c"
    using that by (cases cs) (simp_all add: validateBlockLink_def)
  with Cons show ?case
    by (cases i) (auto simp: validateBlockLink_def split: option.splits)
qed simp

lemma height_length: "chain_ok s \<Longrightarrow> getHeight s = int (length (blocks s))"
  using linked_number [of None "blocks s" "length (blocks s) - 1"]
  by (cases "blocks s = []") (auto simp: chain_ok_def getHeight_def getTip_def last_conv_nth of_nat_diff Suc_leI)

lemma execTxs_gas:
  "execTxs host block i raws a = (a', True) \<Longrightarrow> accGas a = sum_list (map rcGasUsed (accReceipts a)) \<Longrightarrow>
   accGas a' = sum_list (map rcGasUsed (accReceipts a'))"
  by (induction raws arbitrary: i a) (auto simp: Let_def split: prod.splits option.splits)

lemma executeBlock_cases:
  obtains (rejected) e seen evs err where
      "executeBlock host locally block s = (s\<lparr>evm := e, txHashSet := seen, chainEvents := chainEvents s @ evs\<rparr>, Inl err)"
      "err \<noteq> StateRootSigInvalid"
  | (executed) e seen receipts where
      "executeBlock host locally block s =
         (s\<lparr>evm := e, txHashSet := seen\<rparr>, Inr (receipts, sum_list (map rcGasUsed receipts)))"
      "sum_list (map rcGasUsed receipts) \<le> BLOCK_GAS_LIMIT"
proof -
  obtain e1 ok where ctx: "evmContext host (blockContext block) (if locally then evm s else evmCheckpoint host (evm s)) = (e1, ok)"
    by fastforce
  obtain a ok' where run: "execTxs host block 0 (txs block) \<lparr>accEvm = e1, accReceipts = [], accGas = 0, accSeen = txHashSet s\<rparr> = (a, ok')"
    by fastforce
  obtain e2 r where check: "checkResult host locally block a s = (e2, r)"
    by fastforce
  obtain e3 ok'' where commit: "(if locally then (e2, True) else evmCommit host e2) = (e3, ok'')"
    by fastforce
  have gas: "ok' \<Longrightarrow> accGas a = sum_list (map rcGasUsed (accReceipts a))"
    using execTxs_gas [of host block 0 "txs block"] run by fastforce
  have limit: "r = None \<Longrightarrow> accGas a \<le> BLOCK_GAS_LIMIT"
    using check by (auto simp: checkResult_def Let_def split: if_splits)
  have err: "r = Some (err, evs) \<Longrightarrow> err \<noteq> StateRootSigInvalid" for err evs
    using check by (auto simp: checkResult_def Let_def split: if_splits prod.splits option.splits)
  show ?thesis
  proof (cases "ok \<and> ok' \<and> r = None \<and> ok''")
    case True
    then show ?thesis
      using ctx run check commit gas limit by (intro executed [where receipts = "accReceipts a"]) (simp_all add: executeBlock_def Let_def)
  next
    case False
    then consider "\<not> ok" | "ok" "\<not> ok'" | err evs where "ok" "ok'" "r = Some (err, evs)" | "ok" "ok'" "r = None" "\<not> ok''"
      by (cases r) auto
    then show ?thesis
    proof cases
      case 1
      then show ?thesis
        using ctx by (intro rejected [where evs = "[]" and seen = "txHashSet s" and err = ExecutionFailed]) (simp_all add: executeBlock_def Let_def)
    next
      case 2
      then show ?thesis
        using ctx run by (intro rejected [where evs = "[]" and err = ExecutionFailed]) (simp_all add: executeBlock_def Let_def)
    next
      case 3
      then show ?thesis
        using ctx run check err by (intro rejected [where err = err and evs = evs]) (simp_all add: executeBlock_def Let_def)
    next
      case 4
      then show ?thesis
        using ctx run check commit by (intro rejected [where evs = "[]" and err = ExecutionFailed]) (simp_all add: executeBlock_def Let_def)
    qed
  qed
qed

lemma applyBlock_unfold:
  "applyBlock host io now locally block s =
     (case jget (blockByHash s) (hash block) of
        Some existing \<Rightarrow> (promoteFinality io locally block existing s, Inr ())
      | None \<Rightarrow>
          (case checkBlock host now locally block s of Some err \<Rightarrow> (s, Inl err)
           | None \<Rightarrow> finishApply host io (block, locally) s))"
  by (simp add: applyBlock_def beginApply_def split: option.splits)

lemma finishApply_cases:
  obtains (rejected) e seen evs err where
      "finishApply host io (block, locally) s = (s\<lparr>evm := e, txHashSet := seen, chainEvents := chainEvents s @ evs\<rparr>, Inl err)"
  | (stored) e seen receipts rootSig where
      "finishApply host io (block, locally) s =
         (storeBlock host io (storedBlock locally block (sum_list (map rcGasUsed receipts)) rootSig) receipts
            (s\<lparr>evm := e, txHashSet := seen\<rparr>), Inr ())"
      "sum_list (map rcGasUsed receipts) \<le> BLOCK_GAS_LIMIT"
      "executeBlock host locally block s =
         (s\<lparr>evm := e, txHashSet := seen\<rparr>, Inr (receipts, sum_list (map rcGasUsed receipts)))"
proof (cases rule: executeBlock_cases [of host locally block s])
  case (rejected e seen evs err)
  then show ?thesis
    by (intro that(1)) simp
next
  case (executed e seen receipts)
  show ?thesis
  proof (cases "rootSignature host locally block (s\<lparr>evm := e, txHashSet := seen\<rparr>)")
    case (Inl err)
    with executed show ?thesis
      by (intro that(1) [where evs = "[]"]) simp
  next
    case (Inr rootSig)
    with executed show ?thesis
      by (intro that(2)) simp_all
  qed
qed

lemma applyBlock_cases:
  obtains (duplicate) existing where "jget (blockByHash s) (hash block) = Some existing"
      "applyBlock host io now locally block s = (promoteFinality io locally block existing s, Inr ())"
  | (refused) err where "checkBlock host now locally block s = Some err" "jget (blockByHash s) (hash block) = None"
      "applyBlock host io now locally block s = (s, Inl err)"
  | (rejected) e seen evs err where
      "applyBlock host io now locally block s = (s\<lparr>evm := e, txHashSet := seen, chainEvents := chainEvents s @ evs\<rparr>, Inl err)"
      "jget (blockByHash s) (hash block) = None" "checkBlock host now locally block s = None"
  | (stored) e seen receipts rootSig where
      "applyBlock host io now locally block s =
         (storeBlock host io (storedBlock locally block (sum_list (map rcGasUsed receipts)) rootSig) receipts
            (s\<lparr>evm := e, txHashSet := seen\<rparr>), Inr ())"
      "jget (blockByHash s) (hash block) = None" "checkBlock host now locally block s = None"
      "sum_list (map rcGasUsed receipts) \<le> BLOCK_GAS_LIMIT"
      "executeBlock host locally block s =
         (s\<lparr>evm := e, txHashSet := seen\<rparr>, Inr (receipts, sum_list (map rcGasUsed receipts)))"
proof (cases "jget (blockByHash s) (hash block)")
  case (Some existing)
  then show ?thesis
    by (intro duplicate) (simp_all add: applyBlock_unfold)
next
  case new: None
  show ?thesis
  proof (cases "checkBlock host now locally block s")
    case (Some err)
    with new show ?thesis
      by (intro refused) (simp_all add: applyBlock_unfold)
  next
    case None
    show ?thesis
    proof (cases rule: finishApply_cases [of host io block locally s])
      case (rejected e seen evs err)
      with new None show ?thesis
        by (intro that(3)) (simp_all add: applyBlock_unfold)
    next
      case (stored e seen receipts rootSig)
      with new None show ?thesis
        by (intro that(4)) (simp_all add: applyBlock_unfold)
    qed
  qed
qed

lemma findIndex_eq: "i < length bs \<Longrightarrow> (\<And>j. j < length bs \<Longrightarrow> bs ! j = bs ! i \<Longrightarrow> j = i) \<Longrightarrow> findIndex (\<lambda>b. b = bs ! i) bs = Some i"
proof (induction bs arbitrary: i)
  case (Cons b bs)
  show ?case
  proof (cases i)
    case (Suc k)
    then have "b \<noteq> bs ! k"
      using Cons.prems(2) [of 0] by auto
    moreover have "findIndex (\<lambda>b. b = bs ! k) bs = Some k"
      using Cons.prems Suc by (intro Cons.IH) (use Cons.prems(2) [of "Suc _"] in auto)
    ultimately show ?thesis
      using Suc by simp
  qed simp
qed simp

lemma linked_inj:
  assumes "linked None bs" and "i < length bs" and "j < length bs" and "bs ! i = bs ! j"
  shows "i = j"
proof -
  have "number (bs ! i) = int i + 1" and "number (bs ! j) = int j + 1"
    using linked_number [OF assms(1,2)] linked_number [OF assms(1,3)] by simp_all
  then show ?thesis
    unfolding assms(4) by linarith
qed

lemma setBlock_nth:
  assumes "linked None (blocks s)" and "i < length (blocks s)"
  shows "setBlock (blocks s ! i) new s =
    s\<lparr>blocks := (blocks s)[i := new], blockByNumber := jset (number new) new (blockByNumber s), blockByHash := jset (hash new) new (blockByHash s)\<rparr>"
proof -
  have "findIndex (\<lambda>b. b = blocks s ! i) (blocks s) = Some i"
    using assms linked_inj by (intro findIndex_eq) blast+
  then show ?thesis
    by (simp add: setBlock_def)
qed

lemma indexed_byHash: "indexed bs N H \<Longrightarrow> jget H h = Some b \<Longrightarrow> b \<in> set bs \<and> hash b = h"
  by (simp add: indexed_def)

lemma indexed_hash_inj: "indexed bs N H \<Longrightarrow> b \<in> set bs \<Longrightarrow> c \<in> set bs \<Longrightarrow> hash b = hash c \<Longrightarrow> b = c"
  unfolding indexed_def by (metis option.inject)

lemma indexedI:
  "(\<And>n c. jget N n = Some c \<longleftrightarrow> 1 \<le> n \<and> n \<le> int (length bs) \<and> bs ! (nat n - 1) = c) \<Longrightarrow>
   (\<And>h c. jget H h = Some c \<longleftrightarrow> c \<in> set bs \<and> hash c = h) \<Longrightarrow> indexed bs N H"
  by (simp add: indexed_def)

lemma indexedD:
  assumes "indexed bs N H"
  shows "jget N n = Some c \<longleftrightarrow> 1 \<le> n \<and> n \<le> int (length bs) \<and> bs ! (nat n - 1) = c"
    and "jget H h = Some c \<longleftrightarrow> c \<in> set bs \<and> hash c = h"
  using assms by (simp_all add: indexed_def)

lemma indexed_snoc:
  assumes "indexed bs N H" and "linked None (bs @ [b])" and "jget H (hash b) = None"
  shows "indexed (bs @ [b]) (jset (number b) b N) (jset (hash b) b H)"
proof (rule indexedI)
  have n: "number b = int (length bs) + 1"
    using linked_number [OF assms(2), of "length bs"] by simp
  fix k c
  show "jget (jset (number b) b N) k = Some c \<longleftrightarrow> 1 \<le> k \<and> k \<le> int (length (bs @ [b])) \<and> (bs @ [b]) ! (nat k - 1) = c"
  proof (cases "k = number b")
    case False
    then have "nat k - 1 < length bs" if "1 \<le> k" "k \<le> int (length bs) + 1"
      using that n by linarith
    with False n show ?thesis
      using indexedD(1) [OF assms(1)] by (auto simp: nth_append)
  qed (use n in \<open>simp add: nat_add_distrib\<close>)
next
  fix h c
  have "hash a \<noteq> hash b" if "a \<in> set bs" for a
    using that indexedD(2) [OF assms(1), of "hash b" a] assms(3) by auto
  then show "jget (jset (hash b) b H) h = Some c \<longleftrightarrow> c \<in> set (bs @ [b]) \<and> hash c = h"
    using indexedD(2) [OF assms(1), of h c] by auto
qed

lemma indexed_update:
  assumes "indexed bs N H" and "linked None bs" and "i < length bs" and "number b = number (bs ! i)" and "hash b = hash (bs ! i)"
  shows "indexed (bs[i := b]) (jset (number b) b N) (jset (hash b) b H)"
proof (rule indexedI)
  have n: "number b = int i + 1"
    using linked_number [OF assms(2,3)] assms(4) by simp
  fix k c
  show "jget (jset (number b) b N) k = Some c \<longleftrightarrow> 1 \<le> k \<and> k \<le> int (length (bs[i := b])) \<and> (bs[i := b]) ! (nat k - 1) = c"
  proof (cases "k = number b")
    case False
    then have "1 \<le> k \<Longrightarrow> nat k - 1 \<noteq> i"
      using n by linarith
    with False show ?thesis
      using indexedD(1) [OF assms(1), of k c] by auto
  qed (use n assms(3) in \<open>auto simp: nat_add_distrib\<close>)
next
  fix h c
  have "c \<in> set (bs[i := b]) \<longleftrightarrow> c = b \<or> c \<in> set bs \<and> hash c \<noteq> hash b"
  proof
    assume "c \<in> set (bs[i := b])"
    then obtain j where j: "j < length bs" "c = (if j = i then b else bs ! j)"
      by (auto simp: in_set_conv_nth nth_list_update)
    have "hash (bs ! j) \<noteq> hash (bs ! i)" if "j \<noteq> i"
      using that j(1) assms(3) indexed_hash_inj [OF assms(1), of "bs ! j" "bs ! i"] linked_inj [OF assms(2), of j i] by auto
    with j show "c = b \<or> c \<in> set bs \<and> hash c \<noteq> hash b"
      using assms(5) by auto
  next
    assume "c = b \<or> c \<in> set bs \<and> hash c \<noteq> hash b"
    then show "c \<in> set (bs[i := b])"
      using assms(3,5) by (auto simp: in_set_conv_nth nth_list_update set_update_memI)
  qed
  then show "jget (jset (hash b) b H) h = Some c \<longleftrightarrow> c \<in> set (bs[i := b]) \<and> hash c = h"
    using indexedD(2) [OF assms(1), of h c] by auto
qed

lemma same_headerD:
  assumes "same_header a b"
  shows "number b = number a" "hash b = hash a" "parentHash b = parentHash a" "header_ok b = header_ok a" "gas_ok r b = gas_ok r a"
proof -
  have b: "b = a\<lparr>finalized := finalized b, blockBftFinalized := blockBftFinalized b\<rparr>"
    using assms by (simp add: same_header_def)
  show "number b = number a" "hash b = hash a" "parentHash b = parentHash a"
    by (subst b, simp)+
  show "header_ok b = header_ok a"
    by (subst b) (simp add: header_ok_def hashBlockPayload_def stablePayload_def)
  show "gas_ok r b = gas_ok r a"
    by (subst b) (simp add: gas_ok_def)
qed

lemma chain_ok_iff: "chain_ok s \<longleftrightarrow> links_ok s \<and> finality_ok (finalityDepth (engCfg s)) (blocks s)"
  by (auto simp: chain_ok_def links_ok_def)

lemma links_ok_frame:
  "blocks s' = blocks s \<Longrightarrow> blockByNumber s' = blockByNumber s \<Longrightarrow> blockByHash s' = blockByHash s \<Longrightarrow>
   receiptsByBlock s' = receiptsByBlock s \<Longrightarrow> links_ok s' = links_ok s"
  by (simp add: links_ok_def)

lemma setBlock_links_ok:
  assumes "links_ok s" and "i < length (blocks s)" and "same_header (blocks s ! i) b"
  shows "links_ok (setBlock (blocks s ! i) b s)"
proof -
  note same = same_headerD [OF assms(3)]
  have "list_all P ((blocks s)[i := b])" if "list_all P (blocks s)" "P b" for P
    using that by (auto simp: list_all_iff dest!: set_update_subset_insert [THEN subsetD])
  moreover have "header_ok b" "gas_ok (receiptsByBlock s) b"
    using assms same by (auto simp: links_ok_def list_all_length)
  ultimately show ?thesis
    using assms same linked_update [of None "blocks s" i b] indexed_update [of "blocks s" _ _ i b]
    by (simp add: links_ok_def setBlock_nth)
qed

lemma setBlock_frame [simp]:
  "engCfg (setBlock a b s) = engCfg s" "length (blocks (setBlock a b s)) = length (blocks s)"
  "mempool (setBlock a b s) = mempool s" "chainEvents (setBlock a b s) = chainEvents s" "evm (setBlock a b s) = evm s"
  "chainFile (setBlock a b s) = chainFile s" "receiptsByBlock (setBlock a b s) = receiptsByBlock s"
  by (auto simp: setBlock_def split: option.splits)

lemma saveChain_frame [simp]:
  "blocks (saveChain s) = blocks s" "engCfg (saveChain s) = engCfg s" "links_ok (saveChain s) = links_ok s" "chain_ok (saveChain s) = chain_ok s"
  by (simp_all add: saveChain_def links_ok_def chain_ok_def)

lemma promoteFinality_chain_ok:
  assumes "chain_ok s" and "jget (blockByHash s) (hash block) = Some existing"
  shows "chain_ok (promoteFinality io locally block existing s)"
proof -
  have "existing \<in> set (blocks s)"
    using assms by (auto simp: chain_ok_def indexed_def)
  then obtain i where i: "i < length (blocks s)" "existing = blocks s ! i"
    by (auto simp: in_set_conv_nth)
  let ?b = "existing\<lparr>blockBftFinalized := Some True\<rparr>"
  have "links_ok (setBlock existing ?b s)"
    using assms i by (auto simp: chain_ok_iff same_header_def intro: setBlock_links_ok)
  moreover have "finality_ok (finalityDepth (engCfg s)) (blocks (setBlock existing ?b s))"
    using assms i by (auto simp: chain_ok_def setBlock_nth finality_ok_def nth_list_update)
  ultimately show ?thesis
    using assms by (auto simp: promoteFinality_def Let_def chain_ok_iff)
qed

lemma updateFinalityFlags_ok:
  assumes "links_ok s" and "blocks s = bs @ [b]" and "finality_ok (finalityDepth (engCfg s)) bs" and "\<not> finalized b"
  shows "chain_ok (updateFinalityFlags s)"
proof -
  define D where "D = max 1 (finalityDepth (engCfg s))"
  define n where "n = getHeight s - D"
  have h: "getHeight s = int (length bs) + 1"
    using assms linked_number [of None "blocks s" "length bs"] by (simp add: getHeight_def getTip_def links_ok_def)
  have fin: "finalized (blocks s ! i) \<longleftrightarrow> int (i + 1) + D \<le> int (length bs)" if "i < length (blocks s)" for i
    using that assms(2-4) by (cases "i = length bs") (auto simp: finality_ok_def nth_append D_def)
  show ?thesis
  proof (cases "n < 1")
    case True
    then have "updateFinalityFlags s = s"
      by (simp add: updateFinalityFlags_def Let_def n_def D_def)
    moreover have "finality_ok (finalityDepth (engCfg s)) (blocks s)"
      using fin True assms(2) by (auto simp: finality_ok_def D_def [symmetric] n_def h)
    ultimately show ?thesis
      using assms(1) by (simp add: chain_ok_iff)
  next
    case False
    let ?i = "nat n - 1"
    have i: "?i < length (blocks s)" "1 \<le> n" "n \<le> int (length (blocks s))"
      using False h assms(2) by (auto simp: n_def D_def)
    then have "jget (blockByNumber s) n = Some (blocks s ! ?i)"
      using assms(1) by (auto simp: links_ok_def indexed_def)
    moreover have "\<not> finalized (blocks s ! ?i)"
      using fin [OF i(1)] i(2) h by (auto simp: n_def)
    ultimately have "updateFinalityFlags s = setBlock (blocks s ! ?i) ((blocks s ! ?i)\<lparr>finalized := True\<rparr>) s"
      using False by (simp add: updateFinalityFlags_def Let_def n_def D_def)
    moreover have "links_ok (setBlock (blocks s ! ?i) ((blocks s ! ?i)\<lparr>finalized := True\<rparr>) s)"
      using assms(1) i(1) by (intro setBlock_links_ok) (simp_all add: same_header_def)
    moreover have "finality_ok (finalityDepth (engCfg s)) ((blocks s)[?i := (blocks s ! ?i)\<lparr>finalized := True\<rparr>])"
      using fin i h assms(2) by (auto simp: finality_ok_def nth_list_update D_def [symmetric] n_def)
    ultimately show ?thesis
      using assms(1) i(1) by (simp add: chain_ok_iff) (simp add: links_ok_def setBlock_nth)
  qed
qed

lemma checkBlock_None:
  assumes "checkBlock host now locally block s = None"
  shows "validateBlockLink (getTip s) block" "uniformWeightValidationError (getTip s) block = None" "hashBlockPayload block = hash block"
  using assms by (auto simp: checkBlock_def Let_def split: if_splits option.splits)

lemma storedBlock_fields [simp]:
  "number (storedBlock l b g r) = number b" "hash (storedBlock l b g r) = hash b" "parentHash (storedBlock l b g r) = parentHash b"
  "finalized (storedBlock l b g r) = False" "blockGasUsed (storedBlock l b g r) = Some g" "txs (storedBlock l b g r) = txs b"
  "hashBlockPayload (storedBlock l b g r) = hashBlockPayload b" "blockCumulativeWeight (storedBlock l b g r) = blockCumulativeWeight b"
  "validateBlockLink prev (storedBlock l b g r) = validateBlockLink prev b"
  by (simp_all add: storedBlock_def hashBlockPayload_def stablePayload_def validateBlockLink_def split: option.splits)

lemma chain_ok_frame:
  "blocks s' = blocks s \<Longrightarrow> blockByNumber s' = blockByNumber s \<Longrightarrow> blockByHash s' = blockByHash s \<Longrightarrow>
   receiptsByBlock s' = receiptsByBlock s \<Longrightarrow> engCfg s' = engCfg s \<Longrightarrow> chain_ok s' = chain_ok s"
  by (simp add: chain_ok_def)

lemma storeBlock_chain_ok:
  assumes "chain_ok s" and "validateBlockLink (getTip s) b" and "header_ok b" and "\<not> finalized b" and "jget (blockByHash s) (hash b) = None"
    and "blockGasUsed b = Some (sum_list (map rcGasUsed rs))" and "sum_list (map rcGasUsed rs) \<le> BLOCK_GAS_LIMIT"
  shows "chain_ok (storeBlock host io b rs s)"
proof -
  define s1 where "s1 = s\<lparr>blocks := blocks s @ [b], blockByNumber := jset (number b) b (blockByNumber s),
      blockByHash := jset (hash b) b (blockByHash s), receiptsByBlock := jset (number b) rs (receiptsByBlock s)\<rparr>"
  have link: "linked None (blocks s @ [b])"
    using assms(1,2) by (auto simp: linked_snoc chain_ok_def getTip_def split: if_splits)
  have "number b = int (length (blocks s)) + 1"
    using linked_number [OF link, of "length (blocks s)"] by simp
  moreover have "number c \<le> int (length (blocks s))" if "c \<in> set (blocks s)" for c
    using that assms(1) linked_number [of None "blocks s"] by (auto simp: in_set_conv_nth chain_ok_def)
  ultimately have "gas_ok (jset (number b) rs (receiptsByBlock s)) c = gas_ok (receiptsByBlock s) c" if "c \<in> set (blocks s)" for c
    using that by (fastforce simp: gas_ok_def)
  then have "links_ok s1"
    using assms link indexed_snoc [OF _ link assms(5)] by (auto simp: links_ok_def chain_ok_def s1_def list_all_iff gas_ok_def)
  then have "chain_ok (updateFinalityFlags s1)"
    using assms(1,4) by (intro updateFinalityFlags_ok [of _ "blocks s" b]) (simp_all add: s1_def chain_ok_def)
  then show ?thesis
    unfolding storeBlock_def Let_def s1_def [symmetric]
    by (subst chain_ok_frame [of _ "if io then saveChain (updateFinalityFlags s1) else updateFinalityFlags s1"]) simp_all
qed

lemma run_ok_chain_ok: "run_ok (s, p) \<Longrightarrow> chain_ok s"
  by (cases p) auto

lemma run_ok_updates [simp]:
  "run_ok (saveChain s, p) = run_ok (s, p)" "run_ok (s\<lparr>mempool := q, chainEvents := evs\<rparr>, p) = run_ok (s, p)"
  "run_ok (setNodeSigner signer s, p) = run_ok (s, p)" "run_ok (setValidatorAddressMap m s, p) = run_ok (s, p)"
  "run_ok (setOnLocalApplyRejected s, p) = run_ok (s, p)"
  by (cases p; force simp: chain_ok_def getTip_def saveChain_def setNodeSigner_def setValidatorAddressMap_def setOnLocalApplyRejected_def)+

lemma beginApply_run_ok:
  assumes "beginApply host io now locally block s = (s', Inr p)" and "chain_ok s"
  shows "run_ok (s', p)"
proof (cases "jget (blockByHash s) (hash block)")
  case None
  then have check: "checkBlock host now locally block s = None" and "s' = s" "p = Some (block, locally)"
    using assms(1) by (auto simp: beginApply_def split: option.splits)
  with None assms(2) show ?thesis
    using checkBlock_None [OF check] by (auto simp: header_ok_def uniformWeightValidationError_def split: option.splits if_splits)
next
  case (Some existing)
  then show ?thesis
    using assms by (auto simp: beginApply_def promoteFinality_chain_ok)
qed

lemma beginApply_error: "beginApply host io now locally block s = (s', Inl err) \<Longrightarrow> s' = s"
  by (auto simp: beginApply_def split: option.splits)

lemma finishApply_chain_ok:
  assumes "run_ok (s, Some app)"
  shows "chain_ok (fst (finishApply host io app s))"
proof -
  obtain block locally where app: "app = (block, locally)" by fastforce
  show ?thesis
  proof (cases rule: finishApply_cases [of host io block locally s])
    case (rejected e seen evs err)
    with assms show ?thesis by (simp add: app chain_ok_def)
  next
    case (stored e seen receipts rootSig)
    let ?s = "s\<lparr>evm := e, txHashSet := seen\<rparr>"
    have "getTip ?s = getTip s" "chain_ok ?s = chain_ok s"
      by (simp_all add: getTip_def chain_ok_def)
    then show ?thesis
      using assms stored by (auto simp: app header_ok_def intro!: storeBlock_chain_ok)
  qed
qed

lemma engine_step_run_ok: "engine_step host True r r' \<Longrightarrow> run_ok r \<Longrightarrow> run_ok r'"
proof (induction rule: engine_step.induct)
  case (cleared p s)
  then show ?case
    by (simp add: clearChain_def chain_ok_def indexed_def finality_ok_def)
next
  case (refused io now locally block s s' err)
  then show ?case
    using beginApply_error [OF refused.hyps] by simp
next
  case (began io now locally block s s' p)
  then show ?case
    by (simp add: beginApply_run_ok)
next
  case (finished s app io)
  then show ?case
    by (simp add: finishApply_chain_ok)
qed simp_all

lemma newChainEngine_chain_ok: "chain_ok (newChainEngine c e f)"
  by (auto simp: newChainEngine_def chain_ok_def indexed_def finality_ok_def)

lemma reaches_run_ok: "engine_reaches host True r r' \<Longrightarrow> run_ok r \<Longrightarrow> run_ok r'"
  by (induction rule: rtranclp_induct) (auto intro: engine_step_run_ok)

lemma reaches_chain_ok: "engine_reaches host True (s, None) (s', p) \<Longrightarrow> chain_ok s \<Longrightarrow> chain_ok s'"
  using reaches_run_ok run_ok_chain_ok by (metis run_ok.simps(1))


section \<open>The operations as steps\<close>

lemma poolChanged_reaches: "engine_reaches host waits (s, p) (s\<lparr>mempool := q\<rparr>, p)"
  using engine_step.poolChanged [of host waits s p "[]" q] by auto

lemma engineAddRawTx_reaches: "engine_reaches host waits (s, p) (fst (engineAddRawTx host now raw s), p)"
  using poolChanged_reaches [of host waits s p] engine_step.poolChanged [of host waits s p]
  by (auto simp: engineAddRawTx_def split: option.splits prod.splits sum.splits if_splits)

lemma applyBlock_reaches:
  assumes "applyBlock host io now locally block s = (s', r)"
  shows "engine_reaches host waits (s, None) (s', None)"
proof -
  obtain s1 r1 where b: "beginApply host io now locally block s = (s1, r1)"
    by fastforce
  consider err where "r1 = Inl err" | "r1 = Inr None" | app where "r1 = Inr (Some app)"
    by (metis option.exhaust sum.exhaust)
  then show ?thesis
  proof cases
    case 1
    with assms b show ?thesis
      using engine_step.refused [of host io now locally block s s1] by (auto simp: applyBlock_def)
  next
    case 2
    with assms b show ?thesis
      using engine_step.began [of host io now locally block s s1 None] by (auto simp: applyBlock_def)
  next
    case (3 app)
    have "engine_step host waits (s, None) (s1, Some app)"
      using b 3 by (auto intro: engine_step.began)
    moreover have "engine_step host waits (s1, Some app) (s', None)"
      using engine_step.finished [of host waits s1 app io] assms b 3 by (simp add: applyBlock_def)
    ultimately show ?thesis
      by (meson converse_rtranclp_into_rtranclp r_into_rtranclp)
  qed
qed

lemma applyAll_reaches: "applyAll host io now bs s = (s', r) \<Longrightarrow> engine_reaches host waits (s, None) (s', None)"
proof (induction bs arbitrary: s)
  case (Cons b bs)
  obtain s1 r1 where b: "applyBlock host io now False b s = (s1, r1)"
    by fastforce
  with Cons show ?case
    using applyBlock_reaches [OF b] by (auto split: sum.splits intro: rtranclp_trans)
qed simp

lemma rebuildFromBlocks_reaches: "rebuildFromBlocks host io now bs s = (s', r) \<Longrightarrow> engine_reaches host waits (s, None) (s', None)"
  unfolding rebuildFromBlocks_def by (metis applyAll_reaches converse_rtranclp_into_rtranclp engine_step.cleared)

lemma maybeAdoptSnapshot_reaches: "engine_reaches host waits (s, None) (fst (maybeAdoptSnapshot host io now bs s), None)"
  by (auto simp: maybeAdoptSnapshot_def split: prod.splits sum.splits dest!: rebuildFromBlocks_reaches
      intro: engine_step.saved rtranclp.rtrancl_into_rtrancl)

lemma initEngine_reaches: "engine_reaches host waits (s, None) (fst (initEngine host io now s), None)"
  by (simp add: initEngine_def Let_def rebuildFromBlocks_reaches [OF prod.collapse [symmetric]])

lemma proposeNextBlock_reaches: "engine_reaches host waits (s, None) (fst (proposeNextBlock host io now force meanwhile s), None)"
proof -
  obtain p sel where pick: "pickForBlock (pickArgs host s) now meanwhile (mempool s) = (p, sel)"
    by fastforce
  let ?s1 = "s\<lparr>mempool := p\<rparr>"
  let ?b = "signBlock ?s1 (buildBlock now (getHeight s + 1) sel ?s1)"
  obtain s2 r where first: "applyBlock host io now True ?b ?s1 = (s2, r)"
    by fastforce
  let ?s3 = "s2\<lparr>mempool := foldl (\<lambda>p tx. removeTx (txHash tx) p) (mempool s2) sel\<rparr>"
  let ?e = "signBlock ?s3 (buildBlock now (getHeight s + 1) [] ?s3)"
  obtain s4 r' where second: "applyBlock host io now True ?e ?s3 = (s4, r')"
    by fastforce
  have "engine_reaches host waits (s, None) (s2, None)"
    using poolChanged_reaches applyBlock_reaches [OF first] by (rule rtranclp_trans)
  moreover have "engine_reaches host waits (s2, None) (s4, None)"
    using poolChanged_reaches applyBlock_reaches [OF second] by (rule rtranclp_trans)
  ultimately show ?thesis
    using pick first second by (auto simp: proposeNextBlock_def Let_def split: sum.splits intro: rtranclp_trans)
qed

lemmas demo_simps = demo_host_def demo_engine_def setNodeSigner_def newChainEngine_def demo_chain_block_def Let_def coalesce_def
  checkBlock_def checkSignature_def checkTimestamp_def MAX_FUTURE_MS_def validateBlockLink_def getTip_def expectedProposer_def
  uniformWeightValidationError_def sigMode_def resolveValidatorAddress_def truthy_def hashBlockPayload_def stablePayload_def
  executeBlock_def checkResult_def commitTrie_def blockContext_def BLOCK_GAS_LIMIT_def rootSignature_def rootMessage_def applyBlock_unfold

lemma demo_proposal_spec:
  "(case demo_proposal of (s, r) \<Rightarrow> \<exists>b. r = Some b \<and> blocks s = [storedBlock True b 0 None] \<and> engCfg s = engCfg (demo_engine ''a'') \<and> hasVerifier s)"
  by (simp add: demo_proposal_def proposeNextBlock_def pickForBlock_def pickArgs_def newMempool_def buildBlock_def signBlock_def
      storeBlock_def updateFinalityFlags_def saveChain_def getHeight_def demo_simps)

lemma demo_proposal_some: "\<exists>b. snd demo_proposal = Some b"
  using demo_proposal_spec by (auto simp: case_prod_beta)

lemma demo_proposal_eq:
  "blocks (fst demo_proposal) = [storedBlock True (the (snd demo_proposal)) 0 None]"
  "engCfg (fst demo_proposal) = engCfg (demo_engine ''a'')" "hasVerifier (fst demo_proposal)"
  using demo_proposal_spec by (auto simp: case_prod_beta)

lemma demo_proposal_height: "getHeight (fst demo_proposal) = 1"
proof -
  have "chain_ok (demo_engine ''a'')"
    using newChainEngine_chain_ok by (simp add: demo_engine_def setNodeSigner_def chain_ok_def)
  then have "chain_ok (fst demo_proposal)"
    unfolding demo_proposal_def by (rule reaches_chain_ok [OF proposeNextBlock_reaches])
  then show ?thesis
    by (simp add: height_length demo_proposal_eq)
qed

text \<open>
  (C5) The chain of an engine is well formed in every state that its steps reach from a new engine, so after any interleaving of
  block applications, proposals, rebuilds, restarts and pool changes, failed ones included, provided that no rebuild empties the
  chain while an application waits for the virtual machine. Well formed means: linked from block 1, which is the only first
  block that \<^verbatim>\<open>applyBlock\<close> of this engine accepts; every hash recomputed; both indices exact; exactly the blocks below the
  finality depth marked final; and gas totals that match the receipts within the block limit.
\<close>

theorem engine_chain_ok: "engine_reaches host True (newChainEngine c e f, None) (s, p) \<Longrightarrow> chain_ok s"
  by (erule reaches_chain_ok) (rule newChainEngine_chain_ok)

theorem engine_chain_ok_witness:
  "chain_ok (fst demo_proposal) \<and> length (blocks (fst demo_proposal)) = 1"
proof -
  let ?new = "newChainEngine (engCfg (demo_engine ''a'')) (0, []) NoChainFile"
  have "demo_engine ''a'' = setNodeSigner \<lparr>signerId = ''a'', signText = (\<lambda>m. ''0x'' @ m)\<rparr> ?new"
    by (simp add: demo_engine_def setNodeSigner_def newChainEngine_def)
  then have "engine_step demo_host True (?new, None) (demo_engine ''a'', None)"
    by (metis engine_step.signerSet)
  then have "engine_reaches demo_host True (?new, None) (fst demo_proposal, None)"
    unfolding demo_proposal_def by (rule converse_rtranclp_into_rtranclp) (rule proposeNextBlock_reaches)
  then have "chain_ok (fst demo_proposal)"
    by (rule engine_chain_ok)
  then show ?thesis
    by (simp add: demo_proposal_eq)
qed

end
