(* ===== verification/Chain_Exchange.thy ===== *)
theory Chain_Exchange
  imports Chain_Engine
begin

text \<open>
  What the chain engine does with the blocks of other nodes: how it rolls back a block it rejects, how it adopts and reloads
  chains, what a rebuild does to a block application under way, and that the proposal of one node is accepted by the others. What it relies on of the virtual machine is stated as the
  laws \<open>reverts\<close> and \<open>lockstep\<close>.
\<close>

text \<open>
  The states the virtual machine reaches by the calls of a block's execution, a commit that throws included; a revert gives back what \<open>view\<close> saw at the
  checkpoint.
\<close>

inductive evm_runs :: "'e Host \<Rightarrow> 'e \<Rightarrow> 'e \<Rightarrow> bool" for host :: "'e Host" and e0 :: 'e where
  started: "evm_runs host e0 e0"
| prepared: "evm_runs host e0 e \<Longrightarrow> evm_runs host e0 (fst (evmContext host ctx e))"
| executed: "evm_runs host e0 e \<Longrightarrow> evm_runs host e0 (fst (evmExec host ctx block i raw e))"
| evicted: "evm_runs host e0 e \<Longrightarrow> evm_runs host e0 (evmEvictCaches host e)"
| uncommitted: "evm_runs host e0 e \<Longrightarrow> evmCommit host e = (e', False) \<Longrightarrow> evm_runs host e0 e'"
| rooted: "evm_runs host e0 e \<Longrightarrow> stateTrieCommit host = Some commit \<Longrightarrow> evm_runs host e0 (fst (commit e))"

definition reverts :: "'e Host \<Rightarrow> ('e \<Rightarrow> 'v) \<Rightarrow> bool" where
  "reverts host view \<longleftrightarrow> (\<forall>e e'. evm_runs host (evmCheckpoint host e) e' \<longrightarrow> view (evmRevert host e') = view e)"

text \<open>
  Machines in related states answer alike, a checkpoint does not change the answers, and setting a block's context and committing
  do not throw.
\<close>

definition lockstep :: "'e Host \<Rightarrow> ('e \<Rightarrow> 'e \<Rightarrow> bool) \<Rightarrow> bool" where
  "lockstep host same \<longleftrightarrow>
     (\<forall>e e'. same e e' \<longrightarrow> same e (evmCheckpoint host e')) \<and>
     (\<forall>ctx e e'. same e e' \<longrightarrow> same (fst (evmContext host ctx e)) (fst (evmContext host ctx e'))) \<and>
     (\<forall>ctx e. snd (evmContext host ctx e)) \<and> (\<forall>e. snd (evmCommit host e)) \<and>
     (\<forall>ctx b i raw e e'. same e e' \<longrightarrow> same (fst (evmExec host ctx b i raw e)) (fst (evmExec host ctx b i raw e')) \<and>
        snd (evmExec host ctx b i raw e) = snd (evmExec host ctx b i raw e')) \<and>
     (\<forall>h e e'. same e e' \<longrightarrow> evmReceipt host e h = evmReceipt host e' h)"

definition acc_same :: "('e \<Rightarrow> 'e \<Rightarrow> bool) \<Rightarrow> 'e ExecAcc \<Rightarrow> 'e ExecAcc \<Rightarrow> bool" where
  "acc_same same a a' \<longleftrightarrow> same (accEvm a) (accEvm a') \<and> accReceipts a = accReceipts a' \<and> accGas a = accGas a'"

text \<open>Another node with the same chain and validators, whose clock is not behind and which accepts the proposer's signatures.\<close>

definition in_sync :: "'e Host \<Rightarrow> int \<Rightarrow> int \<Rightarrow> 'e ChainEngine \<Rightarrow> 'e ChainEngine \<Rightarrow> bool" where
  "in_sync host now now' s t \<longleftrightarrow>
     chain_ok s \<and> chain_ok t \<and> blocks t = blocks s \<and> engValidators (engCfg t) = engValidators (engCfg s) \<and> engValidators (engCfg s) \<noteq> [] \<and>
     0 \<le> now \<and> (case getTip s of None \<Rightarrow> True | Some p \<Rightarrow> timestampMs p < now) \<and> now \<le> now' + MAX_FUTURE_MS \<and>
     (hasVerifier t \<and> sigMode t \<noteq> SigOff \<longrightarrow>
        (\<exists>sg. nodeSigner s = Some sg \<and> (\<forall>m. signText sg m \<noteq> [] \<and> verifyNodeSig host m (signText sg m) (resolveValidatorAddress (engNodeId (engCfg s)) t))))"

text \<open>What is left of a block after a restart.\<close>

definition stripped :: "ChainBlock \<Rightarrow> ChainBlock" where
  "stripped b = b\<lparr>blockBftFinalized := None, blockSignature := None, stateRootSig := None, blockStateRoot := None\<rparr>"





section \<open>The concrete machine\<close>

lemma demo_host_runs: "evm_runs demo_host e0 e \<Longrightarrow> snd e = snd e0"
  by (induction rule: evm_runs.induct) (auto simp: demo_host_def split: prod.splits)

lemma demo_reverts: "reverts demo_host fst"
proof -
  have "evmCheckpoint demo_host e = (fst e, fst e # snd e)" "evmRevert demo_host e = (hd (snd e), tl (snd e))" for e
    by (simp_all add: demo_host_def split: prod.splits)
  then show ?thesis
    using demo_host_runs by (simp add: reverts_def)
qed

lemma demo_lockstep: "lockstep demo_host (\<lambda>e e'. fst e = fst e')"
  by (auto simp: lockstep_def demo_host_def split: prod.splits)


section \<open>Rejected blocks\<close>

lemma execTxs_runs: "evm_runs host e0 (accEvm a) \<Longrightarrow> evm_runs host e0 (accEvm (fst (execTxs host block i raws a)))"
proof (induction raws arbitrary: i a)
  case (Cons raw raws)
  obtain e r where x: "evmExec host (blockContext block) block i raw (accEvm a) = (e, r)"
    by fastforce
  then have "evm_runs host e0 e"
    using evm_runs.executed [OF Cons.prems, of "blockContext block" block i raw] by simp
  with x Cons.IH show ?case
    by (auto simp: Let_def split: option.splits)
qed simp

lemma commitTrie_runs: "evm_runs host e0 e \<Longrightarrow> evm_runs host e0 (fst (commitTrie host locally block e))"
  by (auto simp: commitTrie_def split: option.splits intro: evm_runs.rooted)

lemma checkResult_runs: "evm_runs host e0 (accEvm a) \<Longrightarrow> evm_runs host e0 (fst (checkResult host locally block a s))"
  using commitTrie_runs [OF evm_runs.evicted, of host e0 "accEvm a" locally block]
  by (auto simp: checkResult_def Let_def split: prod.splits option.splits intro: evm_runs.evicted)

lemma executeBlock_runs:
  assumes "executeBlock host False block s = (s', r)"
  shows "\<exists>e. evm_runs host (evmCheckpoint host (evm s)) e \<and> 
    (case r of Inl _ \<Rightarrow> evm s' = evmRevert host e | Inr _ \<Rightarrow> evmCommit host e = (evm s', True))"
proof -
  let ?e0 = "evmCheckpoint host (evm s)"
  obtain e1 ok where ctx: "evmContext host (blockContext block) ?e0 = (e1, ok)"
    by fastforce
  let ?a = "\<lparr>accEvm = e1, accReceipts = [], accGas = 0, accSeen = txHashSet s\<rparr>"
  obtain a ok' where run: "execTxs host block 0 (txs block) ?a = (a, ok')"
    by fastforce
  obtain e2 r' where check: "checkResult host False block a s = (e2, r')"
    by fastforce
  have "evm_runs host ?e0 e1"
    using evm_runs.prepared [OF evm_runs.started, of host ?e0 "blockContext block"] ctx by simp
  moreover from this have "evm_runs host ?e0 (accEvm a)"
    using execTxs_runs [of host ?e0 ?a block 0 "txs block"] run by simp
  moreover from this have e2: "evm_runs host ?e0 e2"
    using checkResult_runs [of host ?e0 a False block s] check by simp
  moreover have "evmCommit host e2 = (e3, False) \<Longrightarrow> evm_runs host ?e0 e3" for e3
    using evm_runs.uncommitted [OF e2] .
  ultimately show ?thesis
    using assms ctx run check by (auto simp: executeBlock_def Let_def split: bool.splits option.splits prod.splits)
qed

lemma rootSignature_error: "rootSignature host locally block s = Inl err \<Longrightarrow> err = StateRootSigInvalid"
  by (auto simp: rootSignature_def split: option.splits if_splits)

lemma checkBlock_error: "checkBlock host now locally block s = Some err \<Longrightarrow> err \<noteq> StateRootSigInvalid"
  by (auto simp: checkBlock_def Let_def checkSignature_def checkTimestamp_def uniformWeightValidationError_def split: if_splits option.splits)

lemma applyBlock_error_cases:
  assumes "applyBlock host io now locally block s = (s', Inl err)"
  obtains (refused) "checkBlock host now locally block s = Some err" "s' = s"
  | (rejected) "executeBlock host locally block s = (s', Inl err)"
  | (badRoot) r where "executeBlock host locally block s = (s', Inr r)" "err = StateRootSigInvalid"
  using assms by (auto simp: applyBlock_unfold split: option.splits prod.splits sum.splits dest: rootSignature_error)

lemma rejected_events:
  "executeBlock host locally block s = (s', Inl err) \<Longrightarrow> err \<noteq> StateRootMismatch \<or> \<not> hasRejectHook (engCfg s) \<Longrightarrow> chainEvents s' = chainEvents s"
  by (auto simp: executeBlock_def checkResult_def Let_def split: bool.splits option.splits prod.splits if_splits)

lemma parse_serialize: "parseBlock (serializeBlock b) = stripped b"
  by (cases b) (simp add: parseBlock_def serializeBlock_def stripped_def coalesce_def option.map_comp o_def option.map_ident)


section \<open>Proposals reach the other nodes\<close>

lemma lockstepD:
  assumes "lockstep host same" and "same e e'"
  shows "same e (evmCheckpoint host e')"
    and "same (fst (evmContext host ctx e)) (fst (evmContext host ctx e'))"
    and "same (fst (evmExec host ctx b i raw e)) (fst (evmExec host ctx b i raw e'))"
    and "snd (evmExec host ctx b i raw e) = snd (evmExec host ctx b i raw e')"
    and "evmReceipt host e h = evmReceipt host e' h"
  using assms unfolding lockstep_def by blast+

lemma lockstep_total: "lockstep host same \<Longrightarrow> snd (evmContext host ctx e)" "lockstep host same \<Longrightarrow> snd (evmCommit host e)"
  unfolding lockstep_def by blast+

lemma execTxs_lockstep:
  assumes "lockstep host same" and "acc_same same a a'"
  shows "acc_same same (fst (execTxs host block i raws a)) (fst (execTxs host block i raws a')) \<and>
    snd (execTxs host block i raws a) = snd (execTxs host block i raws a')"
  using assms(2)
proof (induction raws arbitrary: i a a')
  case (Cons raw raws)
  obtain e h where x: "evmExec host (blockContext block) block i raw (accEvm a) = (e, h)"
    by fastforce
  moreover obtain e' h' where x': "evmExec host (blockContext block) block i raw (accEvm a') = (e', h')"
    by fastforce
  moreover have "same (accEvm a) (accEvm a')"
    using Cons.prems by (simp add: acc_same_def)
  ultimately have "same e e'" "h = h'"
    using lockstepD(3,4) [OF assms(1), of "accEvm a" "accEvm a'" "blockContext block" block i raw] by simp_all
  moreover have "evmReceipt host e k = evmReceipt host e' k" for k
    using lockstepD(5) [OF assms(1) \<open>same e e'\<close>] .
  ultimately show ?case
    using x x' Cons by (auto simp: acc_same_def Let_def split: option.splits)
qed simp

lemma executeBlock_follows:
  assumes "lockstep host same" and "same (evm s) (evm t)" and "executeBlock host True b s = (s', Inr (rs, g))"
    and "blockGasUsed b = None" and "blockStateRoot b = None"
  shows "\<exists>e seen. executeBlock host False b t = (t\<lparr>evm := e, txHashSet := seen\<rparr>, Inr (rs, g))"
proof -
  obtain e1 where c1: "evmContext host (blockContext b) (evm s) = (e1, True)"
    using lockstep_total(1) [OF assms(1)] by (metis prod.collapse)
  obtain e2 where c2: "evmContext host (blockContext b) (evmCheckpoint host (evm t)) = (e2, True)"
    using lockstep_total(1) [OF assms(1)] by (metis prod.collapse)
  have "same e1 e2"
    using lockstepD(2) [OF assms(1) lockstepD(1) [OF assms(1,2)], of "blockContext b"] c1 c2 by simp
  let ?a = "\<lambda>e x. \<lparr>accEvm = e, accReceipts = [], accGas = 0, accSeen = txHashSet x\<rparr> :: 'a ExecAcc"
  obtain a ok where run: "execTxs host b 0 (txs b) (?a e1 s) = (a, ok)"
    by fastforce
  obtain a' ok' where run': "execTxs host b 0 (txs b) (?a e2 t) = (a', ok')"
    by fastforce
  have "acc_same same a a' \<and> ok = ok'"
    using execTxs_lockstep [OF assms(1), of "?a e1 s" "?a e2 t" b 0 "txs b"] run run' \<open>same e1 e2\<close> by (simp add: acc_same_def)
  moreover obtain e4 where "evmCommit host (evmEvictCaches host (accEvm a')) = (e4, True)"
    using lockstep_total(2) [OF assms(1)] by (metis prod.collapse)
  ultimately show ?thesis
    using assms(3-) c1 c2 run run'
    by (auto simp: executeBlock_def Let_def checkResult_def commitTrie_def acc_same_def truthy_def split: bool.splits if_splits)
qed

lemma signBlock_fields [simp]:
  "number (signBlock s b) = number b" "hash (signBlock s b) = hash b" "parentHash (signBlock s b) = parentHash b"
  "proposer (signBlock s b) = proposer b" "timestampMs (signBlock s b) = timestampMs b" "blockGasUsed (signBlock s b) = blockGasUsed b"
  "blockStateRoot (signBlock s b) = blockStateRoot b" "stateRootSig (signBlock s b) = stateRootSig b"
  "blockBftFinalized (signBlock s b) = blockBftFinalized b" "txs (signBlock s b) = txs b"
  "hashBlockPayload (signBlock s b) = hashBlockPayload b" "uniformWeightValidationError p (signBlock s b) = uniformWeightValidationError p b"
  "validateBlockLink p (signBlock s b) = validateBlockLink p b"
  by (auto simp: signBlock_def hashBlockPayload_def stablePayload_def uniformWeightValidationError_def validateBlockLink_def split: option.splits)

lemma buildBlock_fields [simp]:
  "proposer (buildBlock now h sel s) = engNodeId (engCfg s)" "timestampMs (buildBlock now h sel s) = now"
  "number (buildBlock now h sel s) = h"
  "blockGasUsed (buildBlock now h sel s) = None" "blockStateRoot (buildBlock now h sel s) = None" "stateRootSig (buildBlock now h sel s) = None"
  "blockBftFinalized (buildBlock now h sel s) = None"
  by (simp_all add: buildBlock_def Let_def)

lemma checkBlock_follows:
  assumes "in_sync host now now' s t" and "b = signBlock s (buildBlock now h sel s)" and "checkBlock host now True b s = None"
  shows "checkBlock host now' False b t = None"
proof -
  have tip: "getTip t = getTip s" "expectedProposer k t = expectedProposer k s" for k
    using assms(1) by (simp_all add: in_sync_def getTip_def expectedProposer_def)
  have "checkTimestamp now' (getTip s) b = None"
    using assms(1,2) by (auto simp: in_sync_def checkTimestamp_def split: option.splits)
  moreover have "checkSignature host b (resolveValidatorAddress (proposer b) t) t = None"
    using assms(1,2) by (auto simp: in_sync_def checkSignature_def signBlock_def truthy_def)
  ultimately show ?thesis
    using assms(3) by (auto simp: checkBlock_def Let_def tip split: if_splits option.splits)
qed

lemma findIndex_nth: "findIndex P bs = Some i \<Longrightarrow> i < length bs \<and> P (bs ! i)"
  by (induction bs arbitrary: i) (auto split: if_splits)

lemma map_hash_setBlock:
  assumes "hash new = hash old"
  shows "map hash (blocks (setBlock old new s)) = map hash (blocks s)"
proof (cases "findIndex (\<lambda>b. b = old) (blocks s)")
  case (Some i)
  then have "map hash (blocks s) ! i = hash new" and "i < length (blocks s)"
    using findIndex_nth [OF Some] assms by simp_all
  then have "(map hash (blocks s))[i := hash new] = map hash (blocks s)"
    by (metis list_update_id)
  with Some show ?thesis
    by (simp add: setBlock_def map_update)
qed (simp add: setBlock_def)

lemma map_hash_storeBlock [simp]: "map hash (blocks (storeBlock host io b rs s)) = map hash (blocks s) @ [hash b]"
  by (auto simp: storeBlock_def Let_def updateFinalityFlags_def saveChain_def map_hash_setBlock split: option.splits)

lemma new_hash: "chain_ok s \<Longrightarrow> hash b \<notin> hash ` set (blocks s) \<Longrightarrow> jget (blockByHash s) (hash b) = None"
  using indexed_byHash [of "blocks s" "blockByNumber s" "blockByHash s" "hash b"]
  by (cases "jget (blockByHash s) (hash b)") (auto simp: chain_ok_def rev_image_eqI)

lemma executeBlock_empty:
  assumes "lockstep host same" and "txs b = []" and "blockGasUsed b = None" and "blockStateRoot b = None"
  shows "\<exists>e seen. executeBlock host False b t = (t\<lparr>evm := e, txHashSet := seen\<rparr>, Inr ([], 0))"
proof -
  obtain e1 where "evmContext host (blockContext b) (evmCheckpoint host (evm t)) = (e1, True)"
    using lockstep_total(1) [OF assms(1)] by (metis prod.collapse)
  moreover obtain e2 where "evmCommit host (evmEvictCaches host e1) = (e2, True)"
    using lockstep_total(2) [OF assms(1)] by (metis prod.collapse)
  ultimately have "executeBlock host False b t = (t\<lparr>evm := e2, txHashSet := txHashSet t\<rparr>, Inr ([], 0))"
    using assms by (simp add: executeBlock_def Let_def checkResult_def commitTrie_def truthy_def BLOCK_GAS_LIMIT_def)
  then show ?thesis by blast
qed

lemma applyBlock_follows:
  assumes "lockstep host same" and "in_sync host now now' s t" and "b = signBlock s (buildBlock now h sel s)"
    and "same (evm s) (evm t) \<or> txs b = []" and "hash b \<notin> hash ` set (blocks s)"
    and "applyBlock host io now True b s = (s', Inr ())"
  shows "\<exists>t'. applyBlock host io' now' False b t = (t', Inr ()) \<and> map hash (blocks t') = map hash (blocks s')"
proof (cases rule: applyBlock_cases [of s b host io now True])
  case (stored e seen receipts rootSig)
  have "\<exists>e seen rs g. executeBlock host False b t = (t\<lparr>evm := e, txHashSet := seen\<rparr>, Inr (rs, g))"
    using assms(4)
  proof
    assume "same (evm s) (evm t)"
    then show ?thesis
      using executeBlock_follows [OF assms(1) _ stored(5)] assms(3) by fastforce
  next
    assume "txs b = []"
    then show ?thesis
      using executeBlock_empty [OF assms(1)] assms(3) by fastforce
  qed
  then obtain e2 seen2 rs g where x: "executeBlock host False b t = (t\<lparr>evm := e2, txHashSet := seen2\<rparr>, Inr (rs, g))"
    by blast
  have "jget (blockByHash t) (hash b) = None"
    using assms(2,5) by (simp add: in_sync_def new_hash)
  moreover have "checkBlock host now' False b t = None"
    using assms(2,3) stored(3) by (rule checkBlock_follows)
  moreover have "rootSignature host False b (t\<lparr>evm := e2, txHashSet := seen2\<rparr>) = Inr (stateRootSig b)"
    using assms(3) by (simp add: rootSignature_def truthy_def)
  ultimately have "applyBlock host io' now' False b t =
      (storeBlock host io' (storedBlock False b g (stateRootSig b)) rs (t\<lparr>evm := e2, txHashSet := seen2\<rparr>), Inr ())"
    using x by (simp add: applyBlock_unfold)
  then show ?thesis
    using stored(1) assms(2,6) by (simp add: in_sync_def)
next
  case (duplicate existing)
  moreover have "jget (blockByHash s) (hash b) = None"
    using assms(2,5) by (simp add: in_sync_def new_hash)
  ultimately show ?thesis by simp
qed (use assms(6) in simp_all)

lemma applyBlock_error_frame:
  assumes "applyBlock host io now locally block s = (s', Inl err)"
  obtains e seen evs where "s' = s\<lparr>evm := e, txHashSet := seen, chainEvents := chainEvents s @ evs\<rparr>"
proof (cases rule: applyBlock_cases [of s block host io now locally])
  case (refused err')
  then show ?thesis
    using assms by (intro that [where e = "evm s" and seen = "txHashSet s" and evs = "[]"]) simp
next
  case (rejected e seen evs err')
  then show ?thesis
    using assms by (intro that) simp
qed (use assms in simp_all)

lemma proposeNextBlock_cases:
  assumes "proposeNextBlock host io now force meanwhile s = (s', Some b)"
  obtains s1 sel where "engCfg s1 = engCfg s" "nodeSigner s1 = nodeSigner s" "blocks s1 = blocks s" "chain_ok s1 = chain_ok s"
    "evm s1 = evm s \<or> sel = []" "b = signBlock s1 (buildBlock now (getHeight s + 1) sel s1)"
    "applyBlock host io now True b s1 = (s', Inr ())"
proof -
  obtain p sel where pick: "pickForBlock (pickArgs host s) now meanwhile (mempool s) = (p, sel)"
    by fastforce
  define s1 where "s1 = s\<lparr>mempool := p\<rparr>"
  obtain s2 r where first: "applyBlock host io now True (signBlock s1 (buildBlock now (getHeight s + 1) sel s1)) s1 = (s2, r)"
    by fastforce
  show ?thesis
  proof (cases r)
    case (Inr u)
    then show ?thesis
      using assms pick first by (intro that [of s1 sel]) (auto simp: proposeNextBlock_def Let_def s1_def chain_ok_def split: if_splits)
  next
    case (Inl err)
    define s3 where "s3 = s2\<lparr>mempool := foldl (\<lambda>p tx. removeTx (txHash tx) p) (mempool s2) sel\<rparr>"
    obtain s4 r' where second: "applyBlock host io now True (signBlock s3 (buildBlock now (getHeight s + 1) [] s3)) s3 = (s4, r')"
      by fastforce
    obtain e seen evs where "s2 = s1\<lparr>evm := e, txHashSet := seen, chainEvents := chainEvents s1 @ evs\<rparr>"
      using first [unfolded Inl] by (rule applyBlock_error_frame)
    then have "engCfg s3 = engCfg s" "nodeSigner s3 = nodeSigner s" "blocks s3 = blocks s" "chain_ok s3 = chain_ok s"
      by (simp_all add: s1_def s3_def chain_ok_def)
    moreover have "s4 = s'" "r' = Inr ()" "b = signBlock s3 (buildBlock now (getHeight s + 1) [] s3)"
      using assms pick first second Inl
      by (auto simp: proposeNextBlock_def Let_def s1_def [symmetric] s3_def [symmetric] split: if_splits sum.splits)
    ultimately show ?thesis
      using second by (intro that [of s3 "[]"]) simp_all
  qed
qed


section \<open>Properties\<close>

text \<open>
  (C16) A block of another node that is refused or fails leaves the parent state untouched, with the exception of a block refused for
  its state-root signature, and when the virtual machine's revert restores what its checkpoint saw: the accounts, the chain, its indices and receipts, the pool and the chain file are as before;
  only the set of seen transaction hashes and, for a mismatching state root with a hook, the event log may have grown.
\<close>

theorem rejected_block_rolls_back:
  assumes "reverts host view" and "applyBlock host io now False block s = (s', Inl err)" and "err \<noteq> StateRootSigInvalid"
  shows "view (evm s') = view (evm s) \<and>
    s' = s\<lparr>evm := evm s', txHashSet := txHashSet s', chainEvents := chainEvents s'\<rparr> \<and>
    (err \<noteq> StateRootMismatch \<or> \<not> hasRejectHook (engCfg s) \<longrightarrow> chainEvents s' = chainEvents s)"
  using assms(2)
proof (cases rule: applyBlock_error_cases)
  case rejected
  obtain e where "evm_runs host (evmCheckpoint host (evm s)) e" "evm s' = evmRevert host e"
    using executeBlock_runs [OF rejected] by auto
  then have "view (evm s') = view (evm s)"
    using assms(1) by (simp add: reverts_def)
  moreover have "s' = s\<lparr>evm := evm s', txHashSet := txHashSet s', chainEvents := chainEvents s'\<rparr>"
    using rejected by (cases rule: executeBlock_cases [of host False block s]) auto
  ultimately show ?thesis
    using rejected_events [OF rejected] by blast
qed (use assms(3) in simp_all)

theorem rejected_block_rolls_back_witness:
  "snd (applyBlock demo_host True 6000 False (demo_chain_block 1 (Some 5) None) (demo_engine ''b'')) = Inl GasUsedMismatch \<and>
   fst (evm (fst (applyBlock demo_host True 6000 False (demo_chain_block 1 (Some 5) None) (demo_engine ''b'')))) = 0"
proof -
  have err: "snd (applyBlock demo_host True 6000 False (demo_chain_block 1 (Some 5) None) (demo_engine ''b'')) = Inl GasUsedMismatch"
    by (simp add: demo_simps)
  then show ?thesis
    using rejected_block_rolls_back [OF demo_reverts, of True 6000 "demo_chain_block 1 (Some 5) None" "demo_engine ''b''"
        "fst (applyBlock demo_host True 6000 False (demo_chain_block 1 (Some 5) None) (demo_engine ''b''))" GasUsedMismatch]
    by (simp add: prod_eq_iff) (simp add: demo_engine_def setNodeSigner_def newChainEngine_def)
qed

text \<open>
  (C36) A block of another node whose state-root signature is refused is not added to the chain, but its transactions stay
  executed: the virtual machine is left in a state that was committed, not reverted.
\<close>

theorem bad_root_signature_commits_state:
  assumes "applyBlock host io now False block s = (s', Inl StateRootSigInvalid)"
  shows "blocks s' = blocks s \<and> (\<exists>e. evm_runs host (evmCheckpoint host (evm s)) e \<and> evmCommit host e = (evm s', True))"
  using assms
proof (cases rule: applyBlock_error_cases)
  case (badRoot r)
  then show ?thesis
    using executeBlock_runs by (cases rule: executeBlock_cases [of host False block s]) fastforce+
next
  case rejected
  then show ?thesis
    by (cases rule: executeBlock_cases [of host False block s]) auto
qed (use checkBlock_error in blast)

theorem bad_root_signature_commits_state_witness:
  "snd (applyBlock demo_host True 6000 False (demo_chain_block 1 None (Some ''0x77'')) (demo_engine ''b'')) = Inl StateRootSigInvalid \<and>
   blocks (fst (applyBlock demo_host True 6000 False (demo_chain_block 1 None (Some ''0x77'')) (demo_engine ''b''))) = [] \<and>
   evm (fst (applyBlock demo_host True 6000 False (demo_chain_block 1 None (Some ''0x77'')) (demo_engine ''b''))) = (1, []) \<and>
   evm (demo_engine ''b'') = (0, [])"
proof -
  have err: "snd (applyBlock demo_host True 6000 False (demo_chain_block 1 None (Some ''0x77'')) (demo_engine ''b'')) = Inl StateRootSigInvalid"
    and e: "evm (fst (applyBlock demo_host True 6000 False (demo_chain_block 1 None (Some ''0x77'')) (demo_engine ''b''))) = (1, [])"
    by (simp_all add: demo_simps)
  then show ?thesis
    using bad_root_signature_commits_state [of demo_host True 6000 "demo_chain_block 1 None (Some ''0x77'')" "demo_engine ''b''"
        "fst (applyBlock demo_host True 6000 False (demo_chain_block 1 None (Some ''0x77'')) (demo_engine ''b''))"]
    by (simp add: prod_eq_iff) (simp add: demo_engine_def setNodeSigner_def newChainEngine_def)
qed

text \<open>
  (C35) A snapshot that does not start at block 1, as snap sync offers, passes the chain verification and then destroys the
  chain: the engine throws at its first block after it has emptied blocks, indices, receipts and the virtual machine.
\<close>

theorem snapshot_window_wipes_chain:
  assumes "bs \<noteq> []" and "number (hd bs) \<noteq> 1" and "verifyBlockChain host None bs s" and "getHeight s < number (last bs)"
  shows "maybeAdoptSnapshot host io now bs s = (clearChain host s, Inl InvalidLink)"
proof -
  obtain b cs where bs: "bs = b # cs"
    using assms(1) by (cases bs) auto
  have "checkBlock host now False b (clearChain host s) = Some InvalidLink"
    using assms(2) by (simp add: checkBlock_def validateBlockLink_def getTip_def clearChain_def bs)
  then have "applyBlock host io now False b (clearChain host s) = (clearChain host s, Inl InvalidLink)"
    by (simp add: applyBlock_unfold clearChain_def)
  then have "rebuildFromBlocks host io now bs s = (clearChain host s, Inl InvalidLink)"
    by (simp add: rebuildFromBlocks_def bs)
  then show ?thesis
    using assms by (simp add: maybeAdoptSnapshot_def)
qed

theorem snapshot_window_wipes_chain_witness:
  "length (blocks (fst demo_proposal)) = 1 \<and>
   maybeAdoptSnapshot demo_host True 6000 [demo_chain_block 5 None None] (fst demo_proposal) = (clearChain demo_host (fst demo_proposal), Inl InvalidLink) \<and>
   blocks (clearChain demo_host (fst demo_proposal)) = []"
proof -
  have "verifyBlockChain demo_host None [demo_chain_block 5 None None] (fst demo_proposal)"
    by (simp add: verifyLinked_def sigMode_def demo_proposal_eq) (simp add: demo_simps)
  moreover have "number (demo_chain_block 5 None None) = 5"
    by (simp add: demo_chain_block_def Let_def)
  moreover have "getHeight (fst demo_proposal) = 1"
    by (rule demo_proposal_height)
  ultimately show ?thesis
    using snapshot_window_wipes_chain [of "[demo_chain_block 5 None None]" demo_host "fst demo_proposal" True 6000]
    by (simp add: clearChain_def demo_proposal_eq)
qed

text \<open>
  (C37) The chain file loses the signatures, state roots and BFT finality marks of the blocks, and keeps every other field; so
  the chain that a node reloads is refused by every peer that enforces block signatures.
\<close>

theorem restarted_chain_refused:
  assumes "blocks s \<noteq> []" and "hasVerifier peer" and "sigMode peer = SigEnforce"
  shows "loadChain (chainFile (saveChain s)) = map stripped (blocks s) \<and>
    \<not> verifyBlockChain host None (loadChain (chainFile (saveChain s))) peer"
proof -
  have load: "loadChain (chainFile (saveChain s)) = map stripped (blocks s)"
    by (simp add: loadChain_def saveChain_def parse_serialize)
  moreover have "\<not> verifyLinked host None (stripped b) peer" for b
    using assms by (simp add: verifyLinked_def checkSignature_def stripped_def truthy_def)
  ultimately show ?thesis
    using assms(1) by (cases "blocks s") simp_all
qed

theorem restarted_chain_refused_witness:
  "\<not> verifyBlockChain demo_host None (loadChain (chainFile (saveChain (fst demo_proposal)))) (demo_engine ''b'')"
  using restarted_chain_refused [of "fst demo_proposal" "demo_engine ''b''" demo_host]
  by (auto simp: demo_proposal_eq demo_engine_def setNodeSigner_def newChainEngine_def sigMode_def coalesce_def)

text \<open>
  (C6) A block that a node proposes, whatever happens to its pool meanwhile, is accepted by every validator in sync with it, the fallback block without transactions
  included: if the two virtual machines run in lockstep, do not throw when a block begins or is committed, and hold the same accounts, applying the block as a remote one
  succeeds, and both chains end with the same hashes.
\<close>

theorem proposal_accepted:
  assumes "lockstep host same" and "same (evm s) (evm t)" and "in_sync host now now' s t"
    and "proposeNextBlock host io now force meanwhile s = (s', Some b)" and "hash b \<notin> hash ` set (blocks s)"
  shows "\<exists>t'. applyBlock host io' now' False b t = (t', Inr ()) \<and> map hash (blocks t') = map hash (blocks s')"
  using assms(4)
proof (cases rule: proposeNextBlock_cases)
  case (1 s1 sel)
  have "getTip s1 = getTip s"
    using 1(3) by (simp add: getTip_def)
  then have "in_sync host now now' s1 t"
    using assms(3) 1(1-4) by (simp add: in_sync_def)
  moreover have "same (evm s1) (evm t) \<or> txs b = []"
    using assms(2) 1 by (auto simp: buildBlock_def Let_def)
  ultimately show ?thesis
    using applyBlock_follows [OF assms(1) _ 1(6) _ _ 1(7)] assms(5) 1(3) by simp
qed

theorem proposal_accepted_witness:
  "snd (applyBlock demo_host True 6000 False (the (snd demo_proposal)) (demo_engine ''b'')) = Inr ()"
proof -
  obtain s b where p: "proposeNextBlock demo_host True 5000 False (\<lambda>p. p) (demo_engine ''a'') = (s, Some b)"
    using demo_proposal_some by (metis demo_proposal_def prod.collapse)
  have "chain_ok (demo_engine nid)" for nid
    using newChainEngine_chain_ok by (simp add: demo_engine_def setNodeSigner_def chain_ok_def)
  then have "in_sync demo_host 5000 6000 (demo_engine ''a'') (demo_engine ''b'')"
    by (simp add: in_sync_def) (simp add: demo_engine_def setNodeSigner_def newChainEngine_def getTip_def MAX_FUTURE_MS_def demo_host_def)
  then show ?thesis
    using proposal_accepted [OF demo_lockstep _ _ p, of "demo_engine ''b''" 6000 True] p
    by (auto simp: demo_proposal_def) (auto simp: demo_engine_def setNodeSigner_def newChainEngine_def)
qed




end
