(* ===== verification/Fork_Choice.thy ===== *)
theory Fork_Choice
  imports Pali_Prelude
begin

text \<open>
  The fork choice rule of \<^verbatim>\<open>node/src/fork-choice.ts\<close>. \<open>fork_rank\<close> is the rule as one
  lexicographic key; \<open>compareForks\<close> is the cascade of comparisons of the code, and the theory
  shows that the cascade is the order of the keys, so the selected chain does not depend on the order in
  which peers answered.
\<close>

record ForkCandidate =
  height :: bigint
  tipHash :: hex
  bftFinalized :: bool
  cumulativeWeight :: bigint
  peerId :: string

datatype ForkReason =
  Bft_finality | Longer_chain | Higher_weight | Lower_hash | Lower_peer_id | Equal_forks

record ForkChoice =
  winner :: ForkCandidate
  loser :: ForkCandidate
  reason :: ForkReason

definition compareForks :: "ForkCandidate \<Rightarrow> ForkCandidate \<Rightarrow> ForkChoice" where
  "compareForks a b =
     (if bftFinalized a \<and> \<not> bftFinalized b \<and> height a \<ge> height b
        then \<lparr>winner = a, loser = b, reason = Bft_finality\<rparr>
      else if bftFinalized b \<and> \<not> bftFinalized a \<and> height b \<ge> height a
        then \<lparr>winner = b, loser = a, reason = Bft_finality\<rparr>
      else if height a > height b then \<lparr>winner = a, loser = b, reason = Longer_chain\<rparr>
      else if height b > height a then \<lparr>winner = b, loser = a, reason = Longer_chain\<rparr>
      else if cumulativeWeight a > cumulativeWeight b
        then \<lparr>winner = a, loser = b, reason = Higher_weight\<rparr>
      else if cumulativeWeight b > cumulativeWeight a
        then \<lparr>winner = b, loser = a, reason = Higher_weight\<rparr>
      else
        let aHash = toLowerCase (tipHash a); bHash = toLowerCase (tipHash b)
        in if aHash < bHash then \<lparr>winner = a, loser = b, reason = Lower_hash\<rparr>
           else if bHash < aHash then \<lparr>winner = b, loser = a, reason = Lower_hash\<rparr>
           else if peerId a < peerId b then \<lparr>winner = a, loser = b, reason = Lower_peer_id\<rparr>
           else if peerId b < peerId a then \<lparr>winner = b, loser = a, reason = Lower_peer_id\<rparr>
           else \<lparr>winner = a, loser = b, reason = Equal_forks\<rparr>)"

text \<open>The loop of \<^verbatim>\<open>selectBestFork\<close>: \<open>best\<close> meets each remaining candidate in turn.\<close>

fun selectBestFork_loop :: "ForkCandidate \<Rightarrow> ForkCandidate list \<Rightarrow> ForkCandidate" where
  "selectBestFork_loop best [] = best"
| "selectBestFork_loop best (c # cs) = selectBestFork_loop (winner (compareForks best c)) cs"

definition selectBestFork :: "ForkCandidate list \<Rightarrow> ForkCandidate option" where
  "selectBestFork candidates =
     (case candidates of
        [] \<Rightarrow> None
      | [c] \<Rightarrow> Some c
      | c # cs \<Rightarrow> Some (selectBestFork_loop c cs))"

text \<open>
  \<^verbatim>\<open>choice.winner === remote\<close> compares object identities; two candidates that are equal field by
  field end in the reason \<^verbatim>\<open>equal\<close>, so comparing values decides the same.
\<close>

definition shouldSwitchFork :: "ForkCandidate \<Rightarrow> ForkCandidate \<Rightarrow> ForkChoice option" where
  "shouldSwitchFork local remote =
     (let choice = compareForks local remote
      in if winner choice = remote \<and> reason choice \<noteq> Equal_forks then Some choice else None)"


section \<open>The rule as a lexicographic order\<close>

definition fork_rank :: "ForkCandidate \<Rightarrow> bigint \<times> bool \<times> bigint \<times> string down \<times> string down" where
  "fork_rank c =
     (height c, bftFinalized c, cumulativeWeight c, Down (toLowerCase (tipHash c)), Down (peerId c))"

lemma fork_rank_less:
  "fork_rank a < fork_rank b \<longleftrightarrow>
     height a < height b \<or> height a = height b \<and>
     (\<not> bftFinalized a \<and> bftFinalized b \<or> bftFinalized a = bftFinalized b \<and>
      (cumulativeWeight a < cumulativeWeight b \<or> cumulativeWeight a = cumulativeWeight b \<and>
       (toLowerCase (tipHash b) < toLowerCase (tipHash a) \<or>
        toLowerCase (tipHash a) = toLowerCase (tipHash b) \<and> peerId b < peerId a)))"
  by (auto simp: fork_rank_def less_prod_simp)

lemma compareForks_winner:
  "winner (compareForks a b) = (if fork_rank a < fork_rank b then b else a)"
  by (auto simp: compareForks_def fork_rank_less Let_def)

lemma compareForks_equal:
  "reason (compareForks a b) = Equal_forks \<longleftrightarrow> fork_rank a = fork_rank b"
proof -
  have "fork_rank a = fork_rank b \<longleftrightarrow> \<not> fork_rank a < fork_rank b \<and> \<not> fork_rank b < fork_rank a"
    by auto
  then show ?thesis
    by (auto simp: compareForks_def fork_rank_less Let_def split: if_splits)
qed

interpretation fork: ranked_duel "\<lambda>a b. winner (compareForks a b)" fork_rank
  by unfold_locales (auto simp: compareForks_winner max_def)

lemma selectBestFork_loop_champion: "selectBestFork_loop best cs = fork.champion best cs"
  by (induction best cs rule: selectBestFork_loop.induct) (simp_all add: fork.champion_def)

lemma selectBestFork_Cons: "selectBestFork (c # cs) = Some (fork.champion c cs)"
  by (cases cs) (simp_all add: selectBestFork_def selectBestFork_loop_champion fork.champion_def)

lemma selectBestFork_rank:
  "cs \<noteq> [] \<Longrightarrow> \<exists>w. selectBestFork cs = Some w \<and> w \<in> set cs \<and> fork_rank w = Max (fork_rank ` set cs)"
  using fork.champion_member fork.champion_rank by (cases cs) (auto simp: selectBestFork_Cons)

lemma shouldSwitchFork_rank:
  "shouldSwitchFork local remote = None \<longleftrightarrow> fork_rank remote \<le> fork_rank local"
proof (cases "local = remote")
  case True
  then have "reason (compareForks local remote) = Equal_forks" by (simp add: compareForks_equal)
  with True show ?thesis by (simp add: shouldSwitchFork_def)
next
  case False
  then show ?thesis
    by (auto simp: shouldSwitchFork_def Let_def compareForks_winner compareForks_equal)
qed


section \<open>Properties\<close>

text \<open>
  The best fork of a non-empty list of candidates is one of them, and no candidate ranks above
  it: higher tip first, then finality, then weight, then the lower hash, then the lower peer id.
\<close>

lemma selectBestFork_best:
  assumes "cs \<noteq> []"
  shows "\<exists>w. selectBestFork cs = Some w \<and> w \<in> set cs \<and> (\<forall>c\<in>set cs. fork_rank c \<le> fork_rank w)"
proof -
  obtain w where "selectBestFork cs = Some w" "w \<in> set cs" "fork_rank w = Max (fork_rank ` set cs)"
    using selectBestFork_rank [OF assms] by blast
  moreover have "fork_rank c \<le> Max (fork_rank ` set cs)" if "c \<in> set cs" for c
    using that by simp
  ultimately show ?thesis by auto
qed

text \<open>
  (C30) The choice does not depend on the order in which the candidates were collected: two
  permutations of the same candidates select forks with the same height, finality, weight, tip hash
  (up to letter case) and peer.
\<close>

theorem selectBestFork_order_independent:
  assumes "mset cs = mset cs'"
  shows "map_option fork_rank (selectBestFork cs) = map_option fork_rank (selectBestFork cs')"
proof (cases "cs = []")
  case True
  with assms show ?thesis by (simp add: selectBestFork_def)
next
  case False
  moreover have "set cs = set cs'" "cs' \<noteq> []" using assms False by (auto dest: mset_eq_setD)
  ultimately show ?thesis
    using selectBestFork_rank [of cs] selectBestFork_rank [of cs'] by auto
qed

theorem selectBestFork_order_independent_witness:
  "let a = \<lparr>height = 5, tipHash = ''0xAB'', bftFinalized = False, cumulativeWeight = 1, peerId = ''p''\<rparr>;
       b = \<lparr>height = 5, tipHash = ''0xab'', bftFinalized = False, cumulativeWeight = 1, peerId = ''q''\<rparr>
   in map_option fork_rank (selectBestFork [a, b]) = map_option fork_rank (selectBestFork [b, a])"
  unfolding Let_def by (rule selectBestFork_order_independent) simp

text \<open>
  (C31) A node switches to a remote chain exactly when the remote ranks strictly higher. So two nodes
  never swap chains with each other, and a node on a finalized tip leaves it for an unfinalized chain
  only when that chain is strictly longer.
\<close>

theorem shouldSwitchFork_iff:
  "(shouldSwitchFork local remote \<noteq> None \<longleftrightarrow> fork_rank local < fork_rank remote) \<and>
   \<not> (shouldSwitchFork local remote \<noteq> None \<and> shouldSwitchFork remote local \<noteq> None) \<and>
   (bftFinalized local \<and> \<not> bftFinalized remote \<longrightarrow>
     (shouldSwitchFork local remote \<noteq> None \<longleftrightarrow> height local < height remote))"
proof (intro conjI impI)
  show "shouldSwitchFork local remote \<noteq> None \<longleftrightarrow> fork_rank local < fork_rank remote"
    by (auto simp: shouldSwitchFork_rank)
  show "\<not> (shouldSwitchFork local remote \<noteq> None \<and> shouldSwitchFork remote local \<noteq> None)"
    by (auto simp: shouldSwitchFork_rank)
  assume "bftFinalized local \<and> \<not> bftFinalized remote"
  then show "shouldSwitchFork local remote \<noteq> None \<longleftrightarrow> height local < height remote"
    using fork_rank_less [of local remote] by (auto simp: shouldSwitchFork_rank)
qed

theorem shouldSwitchFork_iff_witness:
  "shouldSwitchFork
     \<lparr>height = 71813, tipHash = ''0x01'', bftFinalized = True, cumulativeWeight = 9, peerId = ''local''\<rparr>
     \<lparr>height = 71820, tipHash = ''0x02'', bftFinalized = False, cumulativeWeight = 1, peerId = ''p''\<rparr> \<noteq> None"
  using shouldSwitchFork_iff
    [of "\<lparr>height = 71813, tipHash = ''0x01'', bftFinalized = True, cumulativeWeight = 9, peerId = ''local''\<rparr>"
      "\<lparr>height = 71820, tipHash = ''0x02'', bftFinalized = False, cumulativeWeight = 1, peerId = ''p''\<rparr>"]
  by (auto simp: fork_rank_def)

end
