(* ===== verification/Bft_Round.thy ===== *)
theory Bft_Round
  imports Chain_Types
begin

text \<open>
  One BFT round at one node: the first half of \<^verbatim>\<open>node/src/bft.ts\<close> (\<^verbatim>\<open>quorumThreshold\<close> to the end
  of \<^verbatim>\<open>class BftRound\<close>). A round object is a \<open>BftRound\<close> record of its configuration and its
  state; each method takes the record and returns it updated together with what the method returns.
  \<^verbatim>\<open>Date.now()\<close> is an argument.
\<close>

declare jhas_iff [simp]

datatype BftPhase = Propose | Prepare | Commit | Finalized | Failed

datatype BftMessageType = ProposeMsg | PrepareMsg | CommitMsg

record BftMessage =
  msgType :: BftMessageType
  msgHeight :: bigint
  msgBlockHash :: hex
  senderId :: string
  signature :: hex
  msgStateRoot :: "hex option"

record BftRoundConfig =
  validators :: "Validator list"
  localId :: string
  prepareTimeoutMs :: int
  commitTimeoutMs :: int
  relaxedQuorum :: bool

record BftVote =
  voteBlockHash :: hex
  voteStateRoot :: "hex option"

record BftRoundState =
  roundHeight :: bigint
  phase :: BftPhase
  proposedBlock :: "ChainBlock option"
  prepareVotes :: "(string, BftVote) jsmap"
  commitVotes :: "(string, BftVote) jsmap"
  startedAtMs :: int

record BftRound =
  config :: BftRoundConfig
  state :: BftRoundState

definition MAX_SAFE_INTEGER :: int where
  "MAX_SAFE_INTEGER = 9007199254740991"

definition quorumThreshold :: "Validator list \<Rightarrow> bool \<Rightarrow> bigint" where
  "quorumThreshold vs relaxed =
     (let total = foldl (\<lambda>sum v. sum + stake v) 0 vs
      in if total = 0 then MAX_SAFE_INTEGER
         else if relaxed then (total * 2) sdiv 3
         else (total * 2) sdiv 3 + 1)"

record WinningGroup =
  groupIds :: "string list"
  groupBlockHash :: "hex option"
  groupStateRoot :: "hex option"

definition pickWinningVoteGroup :: "(string, BftVote) jsmap \<Rightarrow> string \<Rightarrow> WinningGroup" where
  "pickWinningVoteGroup votes anchorId =
     (case jget votes anchorId of
        None \<Rightarrow> \<lparr>groupIds = [], groupBlockHash = None, groupStateRoot = None\<rparr>
      | Some anchor \<Rightarrow>
          \<lparr>groupIds = map fst (filter (\<lambda>(voterId, v).
              if voteBlockHash v \<noteq> voteBlockHash anchor then False
              else if voteStateRoot anchor \<noteq> None
                then \<not> (voteStateRoot v \<noteq> None \<and> voteStateRoot v \<noteq> voteStateRoot anchor)
              else True) votes),
           groupBlockHash = Some (voteBlockHash anchor),
           groupStateRoot = voteStateRoot anchor\<rparr>)"

text \<open>\<^verbatim>\<open>new Map(pairs)\<close>: a later pair with the same key replaces the value of an earlier one.\<close>

definition stakeMap :: "Validator list \<Rightarrow> (string, bigint) jsmap" where
  "stakeMap vs = foldl (\<lambda>m v. jset (toLowerCase (vid v)) (stake v) m) [] vs"

definition accumulatedStake :: "string list \<Rightarrow> Validator list \<Rightarrow> bigint" where
  "accumulatedStake voterIds vs =
     foldl (\<lambda>sum i. sum + get_or 0 (stakeMap vs) (toLowerCase i)) 0 voterIds"

definition hasQuorum :: "string list \<Rightarrow> Validator list \<Rightarrow> bool \<Rightarrow> bool" where
  "hasQuorum voterIds vs relaxed \<longleftrightarrow> accumulatedStake voterIds vs \<ge> quorumThreshold vs relaxed"

definition newBftRound :: "int \<Rightarrow> bigint \<Rightarrow> BftRoundConfig \<Rightarrow> BftRound" where
  "newBftRound now h cfg =
     \<lparr>config = cfg,
      state = \<lparr>roundHeight = h, phase = Propose, proposedBlock = None, prepareVotes = [],
        commitVotes = [], startedAtMs = now\<rparr>\<rparr>"

definition isKnownValidator :: "BftRound \<Rightarrow> string \<Rightarrow> bool" where
  "isKnownValidator r i \<longleftrightarrow> list_ex (\<lambda>v. toLowerCase (vid v) = toLowerCase i) (validators (config r))"

definition isValidator :: "BftRound \<Rightarrow> bool" where
  "isValidator r \<longleftrightarrow> isKnownValidator r (localId (config r))"

definition localKey :: "BftRound \<Rightarrow> string" where
  "localKey r = toLowerCase (localId (config r))"

definition handlePropose ::
    "BftRound \<Rightarrow> ChainBlock \<Rightarrow> string \<Rightarrow> hex option \<Rightarrow> BftRound \<times> BftMessage list" where
  "handlePropose r block sender localStateRoot =
     (let s = state r
      in if phase s \<noteq> Propose then (r, [])
         else if number block \<noteq> roundHeight s then (r, [])
         else if \<not> isKnownValidator r sender then (r, [])
         else if toLowerCase (proposer block) \<noteq> toLowerCase sender then (r, [])
         else
           let s1 = s\<lparr>proposedBlock := Some block, phase := Prepare\<rparr>
           in if isValidator r then
                (r\<lparr>state := s1\<lparr>prepareVotes :=
                    jset (localKey r) \<lparr>voteBlockHash = hash block, voteStateRoot = localStateRoot\<rparr>
                      (prepareVotes s1)\<rparr>\<rparr>,
                 [\<lparr>msgType = PrepareMsg, msgHeight = roundHeight s, msgBlockHash = hash block,
                   senderId = localId (config r), signature = [], msgStateRoot = localStateRoot\<rparr>])
              else (r\<lparr>state := s1\<rparr>, []))"

definition handlePrepare ::
    "BftRound \<Rightarrow> string \<Rightarrow> hex \<Rightarrow> hex option \<Rightarrow> BftRound \<times> BftMessage list" where
  "handlePrepare r sender blockHash stateRoot =
     (let s = state r; vs = validators (config r); relaxed = relaxedQuorum (config r)
      in if phase s \<noteq> Prepare then (r, [])
         else case proposedBlock s of None \<Rightarrow> (r, [])
         | Some pb \<Rightarrow>
           if \<not> isKnownValidator r sender then (r, [])
           else if blockHash \<noteq> hash pb then (r, [])
           else if jhas (prepareVotes s) (toLowerCase sender) then (r, [])
           else
             let s1 = s\<lparr>prepareVotes := jset (toLowerCase sender)
                   \<lparr>voteBlockHash = blockHash, voteStateRoot = stateRoot\<rparr> (prepareVotes s)\<rparr>;
                 winningVoters = pickWinningVoteGroup (prepareVotes s1) (localKey r)
             in if hasQuorum (groupIds winningVoters) vs relaxed then
                  let s2 = s1\<lparr>phase := Commit\<rparr>
                  in if isValidator r then
                       let ownStateRoot =
                             Option.bind (jget (prepareVotes s2) (localKey r)) voteStateRoot;
                           s3 = s2\<lparr>commitVotes := jset (localKey r)
                             \<lparr>voteBlockHash = blockHash, voteStateRoot = ownStateRoot\<rparr> (commitVotes s2)\<rparr>;
                           commitWinner = pickWinningVoteGroup (commitVotes s3) (localKey r)
                       in if hasQuorum (groupIds commitWinner) vs relaxed
                          then (r\<lparr>state := s3\<lparr>phase := Finalized\<rparr>\<rparr>, [])
                          else (r\<lparr>state := s3\<rparr>,
                            [\<lparr>msgType = CommitMsg, msgHeight = roundHeight s, msgBlockHash = blockHash,
                              senderId = localId (config r), signature = [],
                              msgStateRoot = ownStateRoot\<rparr>])
                     else (r\<lparr>state := s2\<rparr>, [])
                else (r\<lparr>state := s1\<rparr>, []))"

definition handleCommit :: "BftRound \<Rightarrow> string \<Rightarrow> hex \<Rightarrow> hex option \<Rightarrow> BftRound \<times> bool" where
  "handleCommit r sender blockHash stateRoot =
     (let s = state r
      in if phase s \<noteq> Commit \<and> phase s \<noteq> Prepare then (r, False)
         else if \<not> isKnownValidator r sender then (r, False)
         else case proposedBlock s of None \<Rightarrow> (r, False)
         | Some pb \<Rightarrow>
           if blockHash \<noteq> hash pb then (r, False)
           else if jhas (commitVotes s) (toLowerCase sender) then (r, False)
           else
             let s1 = s\<lparr>commitVotes := jset (toLowerCase sender)
                   \<lparr>voteBlockHash = blockHash, voteStateRoot = stateRoot\<rparr> (commitVotes s)\<rparr>
             in if phase s1 = Commit then
                  let winner = pickWinningVoteGroup (commitVotes s1) (localKey r)
                  in if hasQuorum (groupIds winner) (validators (config r)) (relaxedQuorum (config r))
                     then (r\<lparr>state := s1\<lparr>phase := Finalized\<rparr>\<rparr>, True)
                     else (r\<lparr>state := s1\<rparr>, False)
                else (r\<lparr>state := s1\<rparr>, False))"

definition handleMessage :: "BftRound \<Rightarrow> BftMessage \<Rightarrow> BftRound \<times> BftMessage list \<times> bool" where
  "handleMessage r msg =
     (case msgType msg of
        ProposeMsg \<Rightarrow>
          (case proposedBlock (state r) of None \<Rightarrow> (r, [], False)
           | Some pb \<Rightarrow> (let (r', out) = handlePropose r pb (senderId msg) None in (r', out, False)))
      | PrepareMsg \<Rightarrow>
          (let (r', out) = handlePrepare r (senderId msg) (msgBlockHash msg) (msgStateRoot msg)
           in (r', out, False))
      | CommitMsg \<Rightarrow>
          (let (r', fin) = handleCommit r (senderId msg) (msgBlockHash msg) (msgStateRoot msg)
           in (r', [], fin)))"

definition isTimedOut :: "int \<Rightarrow> BftRound \<Rightarrow> bool" where
  "isTimedOut now r =
     (let elapsed = now - startedAtMs (state r)
      in if phase (state r) = Prepare then elapsed \<ge> prepareTimeoutMs (config r)
         else if phase (state r) = Commit
           then elapsed \<ge> prepareTimeoutMs (config r) + commitTimeoutMs (config r)
         else False)"

definition fail_round :: "BftRound \<Rightarrow> BftRound" where
  "fail_round r = r\<lparr>state := (state r)\<lparr>phase := Failed\<rparr>\<rparr>"


section \<open>Stake-weighted quorums\<close>

text \<open>
  What agreement relies on: members with non-negative weights that sum to at most the total, and
  quorums that hold more than two thirds of it. Two quorums then share more than a third, so they share a
  member outside any set of faulty members that holds at most a third.
\<close>

locale weighted_quorum =
  fixes valid :: "'c \<Rightarrow> bool" and members :: "'c \<Rightarrow> 'v set" and weight :: "'c \<Rightarrow> 'v \<Rightarrow> int"
    and total :: "'c \<Rightarrow> int" and quorum :: "'c \<Rightarrow> 'v set \<Rightarrow> bool"
  assumes finite_members: "finite (members c)"
    and weight_nonneg: "valid c \<Longrightarrow> 0 \<le> weight c v"
    and weight_total: "valid c \<Longrightarrow> sum (weight c) (members c) \<le> total c"
    and quorum_members: "quorum c Q \<Longrightarrow> Q \<subseteq> members c"
    and quorum_weight: "valid c \<Longrightarrow> quorum c Q \<Longrightarrow> 2 * total c < 3 * sum (weight c) Q"
begin

lemma quorum_finite: "quorum c Q \<Longrightarrow> finite Q"
  using quorum_members finite_members finite_subset by blast

lemma quorums_overlap:
  assumes "valid c" and "quorum c P" and "quorum c Q"
  shows "total c < 3 * sum (weight c) (P \<inter> Q)"
proof -
  have fin: "finite P" "finite Q" using assms(2,3) by (auto intro: quorum_finite)
  have "sum (weight c) (P \<union> Q) \<le> sum (weight c) (members c)"
    using assms quorum_members weight_nonneg by (intro sum_mono2 finite_members) auto
  moreover have "sum (weight c) (P \<union> Q) = sum (weight c) P + sum (weight c) Q - sum (weight c) (P \<inter> Q)"
    using fin by (rule sum_Un)
  ultimately show ?thesis
    using weight_total [OF assms(1)] quorum_weight [OF assms(1,2)] quorum_weight [OF assms(1,3)] by linarith
qed

lemma quorums_share_honest:
  assumes "valid c" and "quorum c P" and "quorum c Q" and "finite B" and "3 * sum (weight c) B \<le> total c"
  obtains v where "v \<in> P" and "v \<in> Q" and "v \<notin> B"
proof -
  have "\<not> P \<inter> Q \<subseteq> B"
  proof
    assume "P \<inter> Q \<subseteq> B"
    then have "sum (weight c) (P \<inter> Q) \<le> sum (weight c) B"
      using assms(1,4) weight_nonneg by (intro sum_mono2) auto
    then show False using quorums_overlap [OF assms(1-3)] assms(5) by linarith
  qed
  with that show ?thesis by blast
qed

end

definition totalStake :: "Validator list \<Rightarrow> bigint" where
  "totalStake vs = sum_list (map stake vs)"

definition voter_ids :: "Validator list \<Rightarrow> string set" where
  "voter_ids vs = (\<lambda>v. toLowerCase (vid v)) ` set vs"

definition stakeOf :: "Validator list \<Rightarrow> string \<Rightarrow> bigint" where
  "stakeOf vs = get_or 0 (stakeMap vs)"

definition nonneg_stakes :: "Validator list \<Rightarrow> bool" where
  "nonneg_stakes vs \<longleftrightarrow> (\<forall>v\<in>set vs. 0 \<le> stake v)"

definition strict_quorum :: "Validator list \<Rightarrow> string set \<Rightarrow> bool" where
  "strict_quorum vs Q \<longleftrightarrow> Q \<subseteq> voter_ids vs \<and> quorumThreshold vs False \<le> sum (stakeOf vs) Q"

definition stake_quorum :: "Validator list \<Rightarrow> bool \<Rightarrow> string set \<Rightarrow> bool" where
  "stake_quorum vs relaxed Q \<longleftrightarrow> Q \<subseteq> voter_ids vs \<and> quorumThreshold vs relaxed \<le> sum (stakeOf vs) Q"

lemma voter_ids_lower: "i \<in> voter_ids vs \<Longrightarrow> toLowerCase i = i"
  by (auto simp: voter_ids_def)

lemma isKnownValidator_iff: "isKnownValidator r i \<longleftrightarrow> toLowerCase i \<in> voter_ids (validators (config r))"
  unfolding isKnownValidator_def voter_ids_def list_ex_iff image_iff by metis

lemma stakeOf_Nil [simp]: "stakeOf [] i = 0"
  by (simp add: stakeOf_def stakeMap_def get_or_def)

lemma stakeOf_snoc [simp]: "stakeOf (vs @ [v]) = (stakeOf vs)(toLowerCase (vid v) := stake v)"
  by (auto simp: stakeOf_def stakeMap_def fun_eq_iff)

lemma stakeOf_nonneg: "nonneg_stakes vs \<Longrightarrow> 0 \<le> stakeOf vs i"
  by (induction vs rule: rev_induct) (auto simp: nonneg_stakes_def)

lemma stakeOf_outside: "i \<notin> voter_ids vs \<Longrightarrow> stakeOf vs i = 0"
  by (induction vs rule: rev_induct) (auto simp: voter_ids_def)

lemma stakes_le_total: "nonneg_stakes vs \<Longrightarrow> sum (stakeOf vs) (voter_ids vs) \<le> totalStake vs"
proof (induction vs rule: rev_induct)
  case Nil
  show ?case by (simp add: voter_ids_def totalStake_def)
next
  case (snoc v vs)
  let ?i = "toLowerCase (vid v)"
  have nn: "nonneg_stakes vs" and v: "0 \<le> stake v" using snoc.prems by (auto simp: nonneg_stakes_def)
  have ids: "voter_ids (vs @ [v]) = insert ?i (voter_ids vs - {?i})"
    by (auto simp: voter_ids_def)
  have "sum (stakeOf (vs @ [v])) (voter_ids (vs @ [v])) = stake v + sum (stakeOf vs) (voter_ids vs - {?i})"
    unfolding ids by (subst sum.insert) (auto simp: voter_ids_def intro!: sum.cong)
  also have "\<dots> \<le> stake v + sum (stakeOf vs) (voter_ids vs)"
    using stakeOf_nonneg [OF nn] by (intro add_left_mono sum_mono2) (auto simp: voter_ids_def)
  finally show ?case using snoc.IH [OF nn] by (simp add: totalStake_def)
qed

lemma quorumThreshold_total:
  "quorumThreshold vs relaxed =
     (if totalStake vs = 0 then MAX_SAFE_INTEGER
      else if relaxed then (totalStake vs * 2) sdiv 3 else (totalStake vs * 2) sdiv 3 + 1)"
  by (simp add: quorumThreshold_def totalStake_def foldl_add_sum_list)

lemma strict_threshold_two_thirds:
  assumes "nonneg_stakes vs"
  shows "2 * totalStake vs < 3 * quorumThreshold vs False"
proof -
  have "0 \<le> totalStake vs"
    using assms unfolding totalStake_def nonneg_stakes_def by (intro sum_list_nonneg) auto
  moreover have "2 * T < 3 * (T * 2 div 3) + 3" for T :: int by linarith
  ultimately show ?thesis by (simp add: quorumThreshold_total MAX_SAFE_INTEGER_def)
qed

interpretation stake: weighted_quorum nonneg_stakes voter_ids stakeOf totalStake strict_quorum
proof
  show "finite (voter_ids c)" for c by (simp add: voter_ids_def)
  show "0 \<le> stakeOf c v" if "nonneg_stakes c" for c v using that by (rule stakeOf_nonneg)
  show "sum (stakeOf c) (voter_ids c) \<le> totalStake c" if "nonneg_stakes c" for c
    using that by (rule stakes_le_total)
  show "Q \<subseteq> voter_ids c" if "strict_quorum c Q" for c Q using that by (simp add: strict_quorum_def)
  show "2 * totalStake c < 3 * sum (stakeOf c) Q" if "nonneg_stakes c" "strict_quorum c Q" for c Q
    using strict_threshold_two_thirds [OF that(1)] that(2) by (simp add: strict_quorum_def)
qed

lemma accumulatedStake_sum:
  assumes "distinct ids" and "\<forall>i\<in>set ids. toLowerCase i = i"
  shows "accumulatedStake ids vs = sum (stakeOf vs) (set ids)"
proof -
  have "accumulatedStake ids vs = sum_list (map (stakeOf vs) ids)"
    unfolding accumulatedStake_def foldl_add_sum_list stakeOf_def using assms(2)
    by (auto intro!: arg_cong [of _ _ sum_list] map_cong)
  with assms(1) show ?thesis by (simp add: sum_list_distinct_conv_sum_set)
qed

lemma hasQuorum_iff:
  assumes "distinct ids" and "set ids \<subseteq> voter_ids vs"
  shows "hasQuorum ids vs relaxed \<longleftrightarrow> stake_quorum vs relaxed (set ids)"
proof -
  have "\<forall>i\<in>set ids. toLowerCase i = i" using assms(2) voter_ids_lower by blast
  from accumulatedStake_sum [OF assms(1) this] show ?thesis
    using assms(2) by (simp add: hasQuorum_def stake_quorum_def)
qed

lemma hasQuorum_strict:
  assumes "distinct ids" and "set ids \<subseteq> voter_ids vs"
  shows "hasQuorum ids vs False \<longleftrightarrow> strict_quorum vs (set ids)"
  using hasQuorum_iff [OF assms] by (simp add: strict_quorum_def stake_quorum_def)

lemma stake_quorum_weight:
  assumes "nonneg_stakes vs" and "stake_quorum vs relaxed Q"
  shows "if relaxed then 2 * totalStake vs \<le> 3 * sum (stakeOf vs) Q + 2 else 2 * totalStake vs < 3 * sum (stakeOf vs) Q"
proof (cases relaxed)
  case True
  have "0 \<le> totalStake vs"
    using assms(1) unfolding totalStake_def nonneg_stakes_def by (intro sum_list_nonneg) auto
  moreover have "2 * T \<le> 3 * (T * 2 div 3) + 2" for T :: int by linarith
  ultimately have "2 * totalStake vs \<le> 3 * quorumThreshold vs True + 2"
    by (simp add: quorumThreshold_total MAX_SAFE_INTEGER_def)
  with True assms(2) show ?thesis by (simp add: stake_quorum_def)
next
  case False
  with strict_threshold_two_thirds [OF assms(1)] assms(2) show ?thesis by (simp add: stake_quorum_def)
qed

lemma hasQuorum_Nil:
  assumes "nonneg_stakes vs" and "\<not> relaxed \<or> totalStake vs \<noteq> 1"
  shows "\<not> hasQuorum [] vs relaxed"
proof -
  have t: "0 \<le> totalStake vs"
    using assms(1) unfolding totalStake_def nonneg_stakes_def by (intro sum_list_nonneg) auto
  have "0 < quorumThreshold vs relaxed"
  proof (cases "totalStake vs \<le> 1")
    case True
    with t assms(2) show ?thesis by (auto simp: quorumThreshold_total MAX_SAFE_INTEGER_def)
  next
    case False
    then have "1 \<le> totalStake vs * 2 div 3" by linarith
    with t show ?thesis by (auto simp: quorumThreshold_total MAX_SAFE_INTEGER_def)
  qed
  then show ?thesis by (simp add: hasQuorum_def accumulatedStake_def)
qed


section \<open>The round as a state machine\<close>

definition votes_ok :: "Validator list \<Rightarrow> ChainBlock option \<Rightarrow> (string, BftVote) jsmap \<Rightarrow> bool" where
  "votes_ok vs pb votes \<longleftrightarrow>
     jmap_ok votes \<and>
     (\<forall>(k, v)\<in>set votes. k \<in> voter_ids vs \<and> (\<exists>b. pb = Some b \<and> voteBlockHash v = hash b))"

definition anchored_quorum :: "BftRound \<Rightarrow> (string, BftVote) jsmap \<Rightarrow> bool" where
  "anchored_quorum r votes \<longleftrightarrow>
     hasQuorum (groupIds (pickWinningVoteGroup votes (localKey r))) (validators (config r))
       (relaxedQuorum (config r))"

definition round_inv :: "BftRound \<Rightarrow> bool" where
  "round_inv r \<longleftrightarrow>
     (let s = state r; vs = validators (config r)
      in votes_ok vs (proposedBlock s) (prepareVotes s) \<and>
         votes_ok vs (proposedBlock s) (commitVotes s) \<and>
         (\<forall>b. proposedBlock s = Some b \<longrightarrow>
            number b = roundHeight s \<and> toLowerCase (proposer b) \<in> voter_ids vs) \<and>
         (phase s = Propose \<longrightarrow> proposedBlock s = None) \<and>
         (phase s \<in> {Prepare, Commit, Finalized} \<longrightarrow> proposedBlock s \<noteq> None) \<and>
         (phase s \<in> {Commit, Finalized} \<longrightarrow> anchored_quorum r (prepareVotes s)) \<and>
         (phase s = Finalized \<longrightarrow> anchored_quorum r (commitVotes s)))"

inductive round_step :: "BftRound \<Rightarrow> BftRound \<Rightarrow> bool" where
  propose: "round_step r (fst (handlePropose r b sender root))"
| prepare: "round_step r (fst (handlePrepare r sender bh root))"
| commit: "round_step r (fst (handleCommit r sender bh root))"
| failed: "round_step r (fail_round r)"

inductive_cases round_stepE [consumes 1, case_names propose prepare commit failed]: "round_step r r'"

inductive reachable_round :: "BftRoundConfig \<Rightarrow> bigint \<Rightarrow> BftRound \<Rightarrow> bool" for cfg h where
  start: "reachable_round cfg h (newBftRound now h cfg)"
| step: "reachable_round cfg h r \<Longrightarrow> round_step r r' \<Longrightarrow> reachable_round cfg h r'"

lemma votes_ok_Nil [simp]: "votes_ok vs pb []"
  by (simp add: votes_ok_def)

lemma votes_ok_jset:
  "votes_ok vs (Some b) votes \<Longrightarrow> k \<in> voter_ids vs \<Longrightarrow>
   votes_ok vs (Some b) (jset k \<lparr>voteBlockHash = hash b, voteStateRoot = root\<rparr> votes)"
  unfolding votes_ok_def
  by (fastforce simp: jget_iff [symmetric] split: if_splits dest: map_of_SomeD)

lemma votes_ok_None: "votes_ok vs None votes \<longleftrightarrow> votes = []"
  by (cases votes) (auto simp: votes_ok_def)

text \<open>The configuration and the height of a round never change.\<close>

lemma handlePropose_frame [simp]:
  "config (fst (handlePropose r b sender root)) = config r"
  "roundHeight (state (fst (handlePropose r b sender root))) = roundHeight (state r)"
  by (simp_all add: handlePropose_def Let_def)

lemma handlePrepare_frame [simp]:
  "config (fst (handlePrepare r sender bh root)) = config r"
  "roundHeight (state (fst (handlePrepare r sender bh root))) = roundHeight (state r)"
  by (simp_all add: handlePrepare_def Let_def split: option.split)

lemma handleCommit_frame [simp]:
  "config (fst (handleCommit r sender bh root)) = config r"
  "roundHeight (state (fst (handleCommit r sender bh root))) = roundHeight (state r)"
  by (simp_all add: handleCommit_def Let_def split: option.split)

lemma fail_round_frame [simp]:
  "config (fail_round r) = config r" "roundHeight (state (fail_round r)) = roundHeight (state r)"
  by (simp_all add: fail_round_def)

lemma round_upd_simps [simp]:
  "localKey (r\<lparr>state := s\<rparr>) = localKey r" "isValidator (r\<lparr>state := s\<rparr>) = isValidator r"
  "isKnownValidator (r\<lparr>state := s\<rparr>) i = isKnownValidator r i"
  "anchored_quorum (r\<lparr>state := s\<rparr>) votes = anchored_quorum r votes"
  by (simp_all add: localKey_def isValidator_def isKnownValidator_def anchored_quorum_def)

lemma isValidator_localKey: "isValidator r \<longleftrightarrow> localKey r \<in> voter_ids (validators (config r))"
  by (simp add: isValidator_def isKnownValidator_iff localKey_def)

lemma newBftRound_inv: "round_inv (newBftRound now h cfg)"
  by (simp add: round_inv_def newBftRound_def)

abbreviation vote_of :: "hex \<Rightarrow> hex option \<Rightarrow> BftVote" where
  "vote_of bh root \<equiv> \<lparr>voteBlockHash = bh, voteStateRoot = root\<rparr>"

lemma handlePropose_cases:
  obtains (ignored) "handlePropose r b sender root = (r, [])"
  | (accepted) P where
      "fst (handlePropose r b sender root) =
         r\<lparr>state := (state r)\<lparr>proposedBlock := Some b, phase := Prepare, prepareVotes := P\<rparr>\<rparr>"
      "snd (handlePropose r b sender root) =
         (if isValidator r then
            [\<lparr>msgType = PrepareMsg, msgHeight = roundHeight (state r), msgBlockHash = hash b,
              senderId = localId (config r), signature = [], msgStateRoot = root\<rparr>] else [])"
      "phase (state r) = Propose" "number b = roundHeight (state r)" "isKnownValidator r sender"
      "toLowerCase (proposer b) = toLowerCase sender"
      "P = (if isValidator r then jset (localKey r) (vote_of (hash b) root) (prepareVotes (state r))
            else prepareVotes (state r))"
proof (cases "phase (state r) = Propose \<and> number b = roundHeight (state r) \<and> isKnownValidator r sender \<and>
    toLowerCase (proposer b) = toLowerCase sender")
  case False
  then have "handlePropose r b sender root = (r, [])"
    by (auto simp: handlePropose_def Let_def)
  then show ?thesis by (rule ignored)
next
  case True
  then show ?thesis
    by (intro accepted) (simp_all add: handlePropose_def Let_def)
qed

lemma handlePropose_inv:
  assumes "round_inv r"
  shows "round_inv (fst (handlePropose r b sender root))"
proof (cases rule: handlePropose_cases [of r b sender root])
  case ignored
  with assms show ?thesis by simp
next
  case (accepted P)
  have empty: "prepareVotes (state r) = []" "commitVotes (state r) = []"
    using assms accepted(3) by (auto simp: round_inv_def Let_def votes_ok_None)
  have "votes_ok (validators (config r)) (Some b) P"
    unfolding accepted(7) empty
    using votes_ok_jset [of "validators (config r)" b "[]" "localKey r"] by (simp add: isValidator_localKey)
  then show ?thesis
    unfolding accepted(1) round_inv_def Let_def
    using accepted(4-6) empty(2) by (simp add: isKnownValidator_iff)
qed

text \<open>
  What \<open>handlePrepare\<close> can do: nothing, or record the vote; the phase then follows from the
  anchored groups of the new vote tables.
\<close>

lemma handlePrepare_cases:
  obtains (ignored) "handlePrepare r sender bh root = (r, [])"
  | (voted) b P C ph out where
      "handlePrepare r sender bh root =
         (r\<lparr>state := (state r)\<lparr>prepareVotes := P, commitVotes := C, phase := ph\<rparr>\<rparr>, out)"
      "phase (state r) = Prepare" "proposedBlock (state r) = Some b" "isKnownValidator r sender"
      "bh = hash b" "jget (prepareVotes (state r)) (toLowerCase sender) = None"
      "P = jset (toLowerCase sender) (vote_of bh root) (prepareVotes (state r))"
      "ph = Prepare \<and> \<not> anchored_quorum r P \<and> C = commitVotes (state r) \<and> out = [] \<or>
       ph = Commit \<and> anchored_quorum r P \<and> \<not> isValidator r \<and> C = commitVotes (state r) \<and> out = [] \<or>
       (\<exists>own. own = Option.bind (jget P (localKey r)) voteStateRoot \<and> anchored_quorum r P \<and> isValidator r \<and>
         C = jset (localKey r) (vote_of bh own) (commitVotes (state r)) \<and>
         (ph = Finalized \<and> anchored_quorum r C \<and> out = [] \<or>
          ph = Commit \<and> \<not> anchored_quorum r C \<and>
          out = [\<lparr>msgType = CommitMsg, msgHeight = roundHeight (state r), msgBlockHash = bh,
             senderId = localId (config r), signature = [], msgStateRoot = own\<rparr>]))"
proof (cases "phase (state r) = Prepare \<and> proposedBlock (state r) \<noteq> None \<and> isKnownValidator r sender \<and>
    Some bh = map_option hash (proposedBlock (state r)) \<and>
    jget (prepareVotes (state r)) (toLowerCase sender) = None")
  case False
  then have "handlePrepare r sender bh root = (r, [])"
    by (auto simp: handlePrepare_def Let_def split: option.splits)
  then show ?thesis by (rule ignored)
next
  case True
  then obtain b where b: "proposedBlock (state r) = Some b" "bh = hash b" by auto
  define P own C where "P = jset (toLowerCase sender) (vote_of bh root) (prepareVotes (state r))"
    and "own = Option.bind (jget P (localKey r)) voteStateRoot"
    and "C = jset (localKey r) (vote_of bh own) (commitVotes (state r))"
  have eq: "handlePrepare r sender bh root =
      (if anchored_quorum r P then
         if isValidator r then
           if anchored_quorum r C
           then (r\<lparr>state := (state r)\<lparr>prepareVotes := P, commitVotes := C, phase := Finalized\<rparr>\<rparr>, [])
           else (r\<lparr>state := (state r)\<lparr>prepareVotes := P, commitVotes := C, phase := Commit\<rparr>\<rparr>,
             [\<lparr>msgType = CommitMsg, msgHeight = roundHeight (state r), msgBlockHash = bh,
               senderId = localId (config r), signature = [], msgStateRoot = own\<rparr>])
         else (r\<lparr>state := (state r)\<lparr>prepareVotes := P, phase := Commit\<rparr>\<rparr>, [])
       else (r\<lparr>state := (state r)\<lparr>prepareVotes := P\<rparr>\<rparr>, []))"
    using True b
    by (simp add: handlePrepare_def Let_def anchored_quorum_def P_def own_def C_def)
  have id: "(state r)\<lparr>prepareVotes := P, commitVotes := commitVotes (state r), phase := ph\<rparr>
      = (state r)\<lparr>prepareVotes := P, phase := ph\<rparr>"
    "(state r)\<lparr>prepareVotes := P, phase := Prepare\<rparr> = (state r)\<lparr>prepareVotes := P\<rparr>" for ph
    using True by simp_all
  show ?thesis
  proof (cases "anchored_quorum r P")
    case False
    with True b eq id show ?thesis
      by (intro voted [where P = P and ph = Prepare and C = "commitVotes (state r)"]) (auto simp: P_def)
  next
    case P: True
    show ?thesis
    proof (cases "isValidator r")
      case False
      with P True b eq id show ?thesis
        by (intro voted [where P = P and ph = Commit and C = "commitVotes (state r)"]) (auto simp: P_def)
    next
      case v: True
      show ?thesis
      proof (cases "anchored_quorum r C")
        case C: True
        with P v True b eq show ?thesis
          by (intro voted [where P = P and ph = Finalized and C = C]) (auto simp: P_def own_def C_def)
      next
        case C: False
        with P v True b eq show ?thesis
          by (intro voted [where P = P and ph = Commit and C = C]) (auto simp: P_def own_def C_def)
      qed
    qed
  qed
qed

lemma handlePrepare_inv:
  assumes "round_inv r"
  shows "round_inv (fst (handlePrepare r sender bh root))"
proof (cases rule: handlePrepare_cases [of r sender bh root])
  case ignored
  with assms show ?thesis by simp
next
  case (voted b P C ph out)
  let ?vs = "validators (config r)"
  have old: "votes_ok ?vs (Some b) (prepareVotes (state r))" "votes_ok ?vs (Some b) (commitVotes (state r))"
    "number b = roundHeight (state r)" "toLowerCase (proposer b) \<in> voter_ids ?vs"
    using assms voted(3) by (auto simp: round_inv_def Let_def)
  have P: "votes_ok ?vs (Some b) P"
    unfolding voted(7) voted(5) using voted(4) old(1) by (intro votes_ok_jset) (simp_all add: isKnownValidator_iff)
  have "votes_ok ?vs (Some b) (jset (localKey r) (vote_of bh own) (commitVotes (state r)))"
    if "isValidator r" for own
    unfolding voted(5) using that old(2) by (intro votes_ok_jset) (simp_all add: isValidator_localKey)
  then have C: "votes_ok ?vs (Some b) C" using voted(8) old(2) by auto
  have ph: "ph \<noteq> Propose" "ph \<in> {Commit, Finalized} \<Longrightarrow> anchored_quorum r P"
    "ph = Finalized \<Longrightarrow> anchored_quorum r C"
    using voted(8) by auto
  show ?thesis
    unfolding voted(1) round_inv_def Let_def using P C old(3,4) voted(3) ph by simp
qed

lemma handleCommit_cases:
  obtains (ignored) "handleCommit r sender bh root = (r, False)"
  | (voted) b C ph fin where
      "handleCommit r sender bh root = (r\<lparr>state := (state r)\<lparr>commitVotes := C, phase := ph\<rparr>\<rparr>, fin)"
      "phase (state r) = Prepare \<or> phase (state r) = Commit" "proposedBlock (state r) = Some b"
      "isKnownValidator r sender" "bh = hash b" "jget (commitVotes (state r)) (toLowerCase sender) = None"
      "C = jset (toLowerCase sender) (vote_of bh root) (commitVotes (state r))"
      "fin \<longleftrightarrow> phase (state r) = Commit \<and> anchored_quorum r C"
      "ph = (if fin then Finalized else phase (state r))"
proof (cases "(phase (state r) = Prepare \<or> phase (state r) = Commit) \<and> proposedBlock (state r) \<noteq> None \<and>
    isKnownValidator r sender \<and> Some bh = map_option hash (proposedBlock (state r)) \<and>
    jget (commitVotes (state r)) (toLowerCase sender) = None")
  case False
  then have "handleCommit r sender bh root = (r, False)"
    by (auto simp: handleCommit_def Let_def split: option.splits)
  then show ?thesis by (rule ignored)
next
  case True
  then obtain b where b: "proposedBlock (state r) = Some b" "bh = hash b" by auto
  define C fin where "C = jset (toLowerCase sender) (vote_of bh root) (commitVotes (state r))"
    and "fin \<longleftrightarrow> phase (state r) = Commit \<and> anchored_quorum r C"
  have "handleCommit r sender bh root =
      (r\<lparr>state := (state r)\<lparr>commitVotes := C, phase := (if fin then Finalized else phase (state r))\<rparr>\<rparr>, fin)"
    using True b by (auto simp: handleCommit_def Let_def anchored_quorum_def fin_def C_def)
  with True b show ?thesis
    by (intro voted [where C = C and fin = fin]) (auto simp: C_def fin_def)
qed

lemma handleCommit_inv:
  assumes "round_inv r"
  shows "round_inv (fst (handleCommit r sender bh root))"
proof (cases rule: handleCommit_cases [of r sender bh root])
  case ignored
  with assms show ?thesis by simp
next
  case (voted b C ph fin)
  have "votes_ok (validators (config r)) (Some b) C"
    unfolding voted(7) voted(5) using voted(3,4) assms
    by (intro votes_ok_jset) (auto simp: isKnownValidator_iff round_inv_def Let_def)
  then show ?thesis
    using assms voted by (auto simp: round_inv_def Let_def)
qed

lemma fail_round_inv: "round_inv r \<Longrightarrow> round_inv (fail_round r)"
  by (auto simp: round_inv_def fail_round_def Let_def)

lemma round_step_inv:
  "round_step r r' \<Longrightarrow> round_inv r \<Longrightarrow>
   round_inv r' \<and> config r' = config r \<and> roundHeight (state r') = roundHeight (state r)"
  by (induction rule: round_step.induct)
    (simp_all add: handlePropose_inv handlePrepare_inv handleCommit_inv fail_round_inv)

lemma reachable_round_inv:
  "reachable_round cfg h r \<Longrightarrow> round_inv r \<and> config r = cfg \<and> roundHeight (state r) = h"
proof (induction rule: reachable_round.induct)
  case (start now)
  show ?case using newBftRound_inv by (simp add: newBftRound_def)
next
  case (step r r')
  then show ?case using round_step_inv by auto
qed


section \<open>What a step keeps\<close>

fun phase_rank :: "BftPhase \<Rightarrow> nat" where
  "phase_rank Propose = 0"
| "phase_rank Prepare = 1"
| "phase_rank Commit = 2"
| "phase_rank Finalized = 3"
| "phase_rank Failed = 4"

definition keeps_history :: "BftRound \<Rightarrow> BftRound \<Rightarrow> bool" where
  "keeps_history r r' \<longleftrightarrow>
     phase_rank (phase (state r)) \<le> phase_rank (phase (state r')) \<and>
     (\<forall>b. proposedBlock (state r) = Some b \<longrightarrow> proposedBlock (state r') = Some b) \<and>
     jget (prepareVotes (state r)) \<subseteq>\<^sub>m jget (prepareVotes (state r')) \<and>
     (\<forall>i v. i \<noteq> localKey r \<longrightarrow> jget (commitVotes (state r)) i = Some v \<longrightarrow>
        jget (commitVotes (state r')) i = Some v)"

lemma keeps_history_refl: "keeps_history r r"
  by (simp add: keeps_history_def)

lemma handlePropose_history:
  assumes "round_inv r"
  shows "keeps_history r (fst (handlePropose r b sender root))"
proof (cases rule: handlePropose_cases [of r b sender root])
  case ignored
  then show ?thesis by (simp add: keeps_history_refl)
next
  case (accepted P)
  have "proposedBlock (state r) = None" "prepareVotes (state r) = []" "commitVotes (state r) = []"
    using assms accepted(3) by (auto simp: round_inv_def Let_def votes_ok_None)
  then show ?thesis unfolding accepted(1) by (simp add: keeps_history_def accepted(3))
qed

lemma handlePrepare_history: "keeps_history r (fst (handlePrepare r sender bh root))"
proof (cases rule: handlePrepare_cases [of r sender bh root])
  case ignored
  then show ?thesis by (simp add: keeps_history_refl)
next
  case (voted b P C ph out)
  have "1 \<le> phase_rank ph" and "\<And>i. i \<noteq> localKey r \<Longrightarrow> jget C i = jget (commitVotes (state r)) i"
    using voted(8) by auto
  then show ?thesis
    unfolding voted(1) keeps_history_def using voted(2,6,7) by (auto simp: map_le_def)
qed

lemma handleCommit_history: "keeps_history r (fst (handleCommit r sender bh root))"
proof (cases rule: handleCommit_cases [of r sender bh root])
  case ignored
  then show ?thesis by (simp add: keeps_history_refl)
next
  case (voted b C ph fin)
  have "phase_rank (phase (state r)) \<le> phase_rank ph" using voted(8,9) by simp
  then show ?thesis
    unfolding voted(1) keeps_history_def using voted(6,7) by simp
qed

lemma fail_round_history: "keeps_history r (fail_round r)"
  by (cases "phase (state r)") (simp_all add: keeps_history_def fail_round_def)

lemma round_step_history: "round_step r r' \<Longrightarrow> round_inv r \<Longrightarrow> keeps_history r r'"
  by (auto elim!: round_stepE intro: handlePropose_history handlePrepare_history handleCommit_history
      fail_round_history)


section \<open>Vote groups and certificates\<close>

definition compatible :: "BftVote \<Rightarrow> BftVote \<Rightarrow> bool" where
  "compatible anchor v \<longleftrightarrow>
     voteBlockHash v = voteBlockHash anchor \<and>
     (voteStateRoot anchor = None \<or> voteStateRoot v = None \<or> voteStateRoot v = voteStateRoot anchor)"

abbreviation group_of :: "(string, BftVote) jsmap \<Rightarrow> string \<Rightarrow> string list" where
  "group_of votes a \<equiv> groupIds (pickWinningVoteGroup votes a)"

lemma group_of_filter:
  "group_of votes a =
     (case jget votes a of None \<Rightarrow> []
      | Some anchor \<Rightarrow> map fst (filter (\<lambda>(i, v). compatible anchor v) votes))"
  by (auto simp: pickWinningVoteGroup_def compatible_def split: option.split
      intro!: arg_cong [of _ _ "map fst"] filter_cong)

lemma group_of_distinct: "jmap_ok votes \<Longrightarrow> distinct (group_of votes a)"
  using jmap_ok_filter [of votes]
  by (auto simp: group_of_filter jmap_ok_def split: option.split)

lemma group_of_member:
  assumes "jmap_ok votes"
  shows "i \<in> set (group_of votes a) \<longleftrightarrow>
    (\<exists>anchor v. jget votes a = Some anchor \<and> jget votes i = Some v \<and> compatible anchor v)"
proof (cases "jget votes a")
  case None
  then show ?thesis by (simp add: group_of_filter)
next
  case (Some anchor)
  then have "i \<in> set (group_of votes a) \<longleftrightarrow> (\<exists>v. (i, v) \<in> set votes \<and> compatible anchor v)"
    by (force simp: group_of_filter)
  with Some show ?thesis using jget_iff [OF assms, of i] by auto
qed

lemma group_of_voters: "votes_ok vs pb votes \<Longrightarrow> set (group_of votes a) \<subseteq> voter_ids vs"
  by (auto simp: group_of_filter votes_ok_def split: option.splits)

lemma anchored_quorum_iff:
  assumes "votes_ok (validators (config r)) pb votes"
  shows "anchored_quorum r votes \<longleftrightarrow>
    stake_quorum (validators (config r)) (relaxedQuorum (config r)) (set (group_of votes (localKey r)))"
  using assms group_of_voters [OF assms]
  by (simp add: anchored_quorum_def hasQuorum_iff group_of_distinct votes_ok_def)

lemma anchored_quorum_strict:
  assumes "votes_ok (validators (config r)) pb votes" and "\<not> relaxedQuorum (config r)"
  shows "anchored_quorum r votes \<longleftrightarrow>
    strict_quorum (validators (config r)) (set (group_of votes (localKey r)))"
  using assms group_of_voters [OF assms(1)]
  by (simp add: anchored_quorum_def hasQuorum_strict group_of_distinct votes_ok_def)

text \<open>What a table of votes for one block proves about it.\<close>

definition certifies :: "Validator list \<Rightarrow> ChainBlock \<Rightarrow> (string, BftVote) jsmap \<Rightarrow> string set \<Rightarrow> bool" where
  "certifies vs b votes Q \<longleftrightarrow>
     strict_quorum vs Q \<and> (\<forall>i\<in>Q. \<exists>v. jget votes i = Some v \<and> voteBlockHash v = hash b)"

lemma group_certifies:
  assumes "votes_ok (validators (config r)) (Some b) votes" and "\<not> relaxedQuorum (config r)"
    and "anchored_quorum r votes"
  shows "certifies (validators (config r)) b votes (set (group_of votes (localKey r)))"
proof -
  have ok: "jmap_ok votes" using assms(1) by (simp add: votes_ok_def)
  have "voteBlockHash v = hash b" if "jget votes i = Some v" for i v
    using that assms(1) map_of_SomeD [OF that] by (auto simp: votes_ok_def)
  then show ?thesis
    using assms by (auto simp: certifies_def anchored_quorum_strict group_of_member [OF ok])
qed

lemma finalized_certificate:
  assumes "round_inv r" and "\<not> relaxedQuorum (config r)" and "phase (state r) = Finalized"
  obtains b where "proposedBlock (state r) = Some b"
    and "certifies (validators (config r)) b (prepareVotes (state r))
           (set (group_of (prepareVotes (state r)) (localKey r)))"
    and "certifies (validators (config r)) b (commitVotes (state r))
           (set (group_of (commitVotes (state r)) (localKey r)))"
proof -
  obtain b where b: "proposedBlock (state r) = Some b"
    using assms(1,3) by (auto simp: round_inv_def Let_def)
  show ?thesis
    using assms b by (intro that [OF b] group_certifies) (auto simp: round_inv_def Let_def)
qed

text \<open>
  Two certificates for the same validator set name the same block, if the validators that signed
  both tables with different hashes hold at most a third of the stake.
\<close>

definition double_voters :: "(string, BftVote) jsmap \<Rightarrow> (string, BftVote) jsmap \<Rightarrow> string set" where
  "double_voters votes votes' =
     {i. \<exists>v v'. jget votes i = Some v \<and> jget votes' i = Some v' \<and> voteBlockHash v \<noteq> voteBlockHash v'}"

lemma double_voters_finite: "finite (double_voters votes votes')"
proof (rule finite_subset)
  show "double_voters votes votes' \<subseteq> fst ` set votes"
    by (force simp: double_voters_def dest: map_of_SomeD)
qed simp

lemma certificates_agree:
  assumes "nonneg_stakes vs" and "certifies vs b votes Q" and "certifies vs b' votes' Q'"
    and "3 * sum (stakeOf vs) (double_voters votes votes') \<le> totalStake vs"
  shows "hash b = hash b'"
proof -
  obtain i where "i \<in> Q" "i \<in> Q'" "i \<notin> double_voters votes votes'"
    using stake.quorums_share_honest [OF assms(1) _ _ double_voters_finite assms(4), of Q Q'] assms(2,3)
    by (auto simp: certifies_def)
  then show ?thesis
    using assms(2,3) by (fastforce simp: certifies_def double_voters_def)
qed


section \<open>Properties\<close>

text \<open>
  (C1) Agreement. Take two nodes' rounds at the same height, over the same validator set with the
  strict quorum, in any states their handlers can reach. If both are finalized, and the validators
  whose commit votes the two nodes recorded for different blocks hold at most a third of the total
  stake, then both finalized the same block hash.
\<close>

theorem bft_agreement:
  assumes "reachable_round cfg h r" and "reachable_round cfg' h r'"
    and "validators cfg' = validators cfg" and "nonneg_stakes (validators cfg)"
    and "\<not> relaxedQuorum cfg" and "\<not> relaxedQuorum cfg'"
    and "phase (state r) = Finalized" and "phase (state r') = Finalized"
    and "3 * sum (stakeOf (validators cfg)) (double_voters (commitVotes (state r)) (commitVotes (state r')))
           \<le> totalStake (validators cfg)"
  shows "\<exists>b b'. proposedBlock (state r) = Some b \<and> proposedBlock (state r') = Some b' \<and> hash b = hash b'
    \<and> number b = h \<and> number b' = h"
proof -
  have r: "round_inv r" "config r = cfg" "roundHeight (state r) = h"
    and r': "round_inv r'" "config r' = cfg'" "roundHeight (state r') = h"
    using assms(1,2) reachable_round_inv by blast+
  obtain b where b: "proposedBlock (state r) = Some b" "certifies (validators cfg) b (commitVotes (state r))
      (set (group_of (commitVotes (state r)) (localKey r)))"
    using finalized_certificate [OF r(1)] assms r by metis
  obtain b' where b': "proposedBlock (state r') = Some b'" "certifies (validators cfg) b' (commitVotes (state r'))
      (set (group_of (commitVotes (state r')) (localKey r')))"
    using finalized_certificate [OF r'(1)] assms r' by metis
  have "number b = h" "number b' = h" using b(1) b'(1) r r' by (auto simp: round_inv_def Let_def)
  then show ?thesis using b b' certificates_agree [OF assms(4) b(2) b'(2) assms(9)] by simp
qed

text \<open>A run of four validators with equal stake, used to exhibit finalized rounds.\<close>

definition demo_validators :: "Validator list" where
  "demo_validators = map (\<lambda>i. \<lparr>vid = i, stake = 1\<rparr>) [''a'', ''b'', ''c'', ''d'']"

definition demo_cfg :: "string \<Rightarrow> BftRoundConfig" where
  "demo_cfg me = \<lparr>validators = demo_validators, localId = me, prepareTimeoutMs = 2000,
     commitTimeoutMs = 2000, relaxedQuorum = False\<rparr>"

definition demo_block :: ChainBlock where
  "demo_block = \<lparr>number = 1, hash = ''0x01'', parentHash = ''0x00'', proposer = ''a'', timestampMs = 0,
     txs = [], finalized = False, blockBftFinalized = None, blockSignature = None, stateRootSig = None,
     blockStateRoot = None, blockBaseFee = None, blockGasUsed = None, blockCumulativeWeight = None,
     blobGasUsed = None, excessBlobGas = None, parentBeaconBlockRoot = None\<rparr>"

definition demo_proposed :: "string \<Rightarrow> hex option \<Rightarrow> BftRound" where
  "demo_proposed me root = fst (handlePropose (newBftRound 0 1 (demo_cfg me)) demo_block ''a'' root)"

definition demo_round :: "string \<Rightarrow> hex option \<Rightarrow> (string \<times> hex option) list \<Rightarrow> BftRound" where
  "demo_round me root peers =
     foldl (\<lambda>r (p, x). fst (handleCommit r p ''0x01'' x))
       (foldl (\<lambda>r (p, x). fst (handlePrepare r p ''0x01'' x)) (demo_proposed me root) peers) peers"

lemma reachable_prepares:
  "reachable_round cfg h r \<Longrightarrow> reachable_round cfg h (foldl (\<lambda>r (p, x). fst (handlePrepare r p bh x)) r ps)"
  by (induction ps arbitrary: r) (auto intro: reachable_round.step round_step.prepare)

lemma reachable_commits:
  "reachable_round cfg h r \<Longrightarrow> reachable_round cfg h (foldl (\<lambda>r (p, x). fst (handleCommit r p bh x)) r ps)"
  by (induction ps arbitrary: r) (auto intro: reachable_round.step round_step.commit)

lemma demo_reachable: "reachable_round (demo_cfg me) 1 (demo_round me root peers)"
  unfolding demo_round_def demo_proposed_def
  by (intro reachable_commits reachable_prepares)
    (rule reachable_round.step [OF reachable_round.start round_step.propose])

theorem bft_agreement_witness:
  "\<exists>b b'. proposedBlock (state (demo_round ''a'' None [(''b'', None), (''c'', None)])) = Some b \<and>
     proposedBlock (state (demo_round ''b'' None [(''a'', None), (''d'', None)])) = Some b' \<and>
     hash b = hash b' \<and> number b = 1 \<and> number b' = 1"
proof (rule bft_agreement [OF demo_reachable demo_reachable])
  let ?r = "demo_round ''a'' None [(''b'', None), (''c'', None)]"
  let ?r' = "demo_round ''b'' None [(''a'', None), (''d'', None)]"
  show "phase (state ?r) = Finalized" "phase (state ?r') = Finalized" by code_simp+
  show "validators (demo_cfg ''b'') = validators (demo_cfg ''a'')"
    "nonneg_stakes (validators (demo_cfg ''a''))" "\<not> relaxedQuorum (demo_cfg ''a'')"
    "\<not> relaxedQuorum (demo_cfg ''b'')"
    by (simp_all add: demo_cfg_def demo_validators_def nonneg_stakes_def)
  have votes: "commitVotes (state ?r) = [(''a'', vote_of ''0x01'' None), (''b'', vote_of ''0x01'' None), (''c'', vote_of ''0x01'' None)]"
    "commitVotes (state ?r') = [(''b'', vote_of ''0x01'' None), (''a'', vote_of ''0x01'' None), (''d'', vote_of ''0x01'' None)]"
    by code_simp+
  have "double_voters (commitVotes (state ?r)) (commitVotes (state ?r')) = {}"
    unfolding votes double_voters_def by auto
  then show "3 * sum (stakeOf (validators (demo_cfg ''a'')))
      (double_voters (commitVotes (state ?r)) (commitVotes (state ?r'))) \<le> totalStake (validators (demo_cfg ''a''))"
    by (simp add: demo_cfg_def demo_validators_def totalStake_def)
qed

text \<open>
  The record of a round only grows: no handler takes a phase back, replaces the proposed block, or
  changes a prepare vote or a peer's commit vote that was recorded before.
\<close>

lemma round_step_keeps_history:
  assumes "reachable_round cfg h r" and "round_step r r'"
  shows "keeps_history r r'"
  using assms reachable_round_inv round_step_history by blast

text \<open>The voters of a table that carry a block: validators whose recorded vote is for its hash.\<close>

definition carries :: "Validator list \<Rightarrow> ChainBlock \<Rightarrow> string \<Rightarrow> (string, BftVote) jsmap \<Rightarrow> string set \<Rightarrow> bool" where
  "carries vs b me votes Q \<longleftrightarrow> Q \<subseteq> voter_ids vs \<and>
     (\<forall>i\<in>Q. \<exists>v own. jget votes i = Some v \<and> voteBlockHash v = hash b \<and> jget votes me = Some own \<and> compatible own v)"

lemma group_carries:
  assumes "votes_ok (validators (config r)) (Some b) votes" and "anchored_quorum r votes"
  obtains Q where "carries (validators (config r)) b (localKey r) votes Q" "stake_quorum (validators (config r)) (relaxedQuorum (config r)) Q"
proof -
  have ok: "jmap_ok votes" using assms(1) by (simp add: votes_ok_def)
  have "\<forall>i\<in>set (group_of votes (localKey r)). \<exists>v own. jget votes i = Some v \<and> voteBlockHash v = hash b \<and>
      jget votes (localKey r) = Some own \<and> compatible own v"
    using assms(1) by (fastforce simp: group_of_member [OF ok] votes_ok_def dest: map_of_SomeD)
  moreover have "stake_quorum (validators (config r)) (relaxedQuorum (config r)) (set (group_of votes (localKey r)))"
    using assms by (simp add: anchored_quorum_iff)
  ultimately show ?thesis
    by (intro that [of "set (group_of votes (localKey r))"]) (simp_all add: carries_def stake_quorum_def)
qed

text \<open>
  (C8) A finalized round carries two certificates for its block: validators with a quorum of the stake prepared it and
  validators with a quorum of the stake committed it; each of their votes is in the round's tables, is for that hash, and is for a state root
  that does not conflict with the node's own vote in the table (equal, or missing on one side). With the strict quorum a certificate is more than two thirds of the total stake; with the relaxed quorum of small networks it is two thirds
  rounded down. Stakes are not negative.
\<close>

theorem finalized_has_certificates:
  assumes "reachable_round cfg h r" and "phase (state r) = Finalized" and "nonneg_stakes (validators cfg)"
  shows "\<exists>b P Q. proposedBlock (state r) = Some b \<and>
    carries (validators cfg) b (localKey r) (prepareVotes (state r)) P \<and> carries (validators cfg) b (localKey r) (commitVotes (state r)) Q \<and>
    (if relaxedQuorum cfg
     then 2 * totalStake (validators cfg) \<le> 3 * sum (stakeOf (validators cfg)) P + 2 \<and>
          2 * totalStake (validators cfg) \<le> 3 * sum (stakeOf (validators cfg)) Q + 2
     else 2 * totalStake (validators cfg) < 3 * sum (stakeOf (validators cfg)) P \<and>
          2 * totalStake (validators cfg) < 3 * sum (stakeOf (validators cfg)) Q)"
proof -
  have r: "round_inv r" "config r = cfg" using assms(1) reachable_round_inv by blast+
  then obtain b where b: "proposedBlock (state r) = Some b" "votes_ok (validators cfg) (Some b) (prepareVotes (state r))"
    "votes_ok (validators cfg) (Some b) (commitVotes (state r))" "anchored_quorum r (prepareVotes (state r))" "anchored_quorum r (commitVotes (state r))"
    using assms(2) by (auto simp: round_inv_def Let_def)
  obtain P where P: "carries (validators cfg) b (localKey r) (prepareVotes (state r)) P" "stake_quorum (validators cfg) (relaxedQuorum cfg) P"
    using group_carries [OF _ b(4), of b] b(2) r(2) by auto
  obtain Q where Q: "carries (validators cfg) b (localKey r) (commitVotes (state r)) Q" "stake_quorum (validators cfg) (relaxedQuorum cfg) Q"
    using group_carries [OF _ b(5), of b] b(3) r(2) by auto
  show ?thesis
    using b(1) P(1) Q(1) stake_quorum_weight [OF assms(3) P(2)] stake_quorum_weight [OF assms(3) Q(2)]
    by (intro exI [of _ b] exI [of _ P] exI [of _ Q]) (simp split: if_splits)
qed

theorem finalized_has_certificates_witness:
  "let r = demo_round ''a'' None [(''b'', None), (''c'', None)]; vs = demo_validators
   in \<exists>b P Q. proposedBlock (state r) = Some b \<and>
     carries vs b (localKey r) (prepareVotes (state r)) P \<and> carries vs b (localKey r) (commitVotes (state r)) Q \<and>
     2 * totalStake vs < 3 * sum (stakeOf vs) P \<and> 2 * totalStake vs < 3 * sum (stakeOf vs) Q"
proof -
  have "phase (state (demo_round ''a'' None [(''b'', None), (''c'', None)])) = Finalized" by code_simp
  from finalized_has_certificates [OF demo_reachable this] show ?thesis
    by (simp add: demo_cfg_def nonneg_stakes_def demo_validators_def)
qed


section \<open>State roots\<close>

definition pair_double_voters :: "(string, BftVote) jsmap \<Rightarrow> (string, BftVote) jsmap \<Rightarrow> string set" where
  "pair_double_voters votes votes' =
     {i. \<exists>v v'. jget votes i = Some v \<and> jget votes' i = Some v' \<and> v \<noteq> v'}"

definition all_rooted :: "(string, BftVote) jsmap \<Rightarrow> bool" where
  "all_rooted votes \<longleftrightarrow> (\<forall>(i, v)\<in>set votes. voteStateRoot v \<noteq> None)"

lemma pair_double_voters_finite: "finite (pair_double_voters votes votes')"
proof (rule finite_subset)
  show "pair_double_voters votes votes' \<subseteq> fst ` set votes"
    by (force simp: pair_double_voters_def dest: map_of_SomeD)
qed simp

lemma rooted_group_same_vote:
  assumes "jmap_ok votes" and "all_rooted votes" and "jget votes a = Some anchor"
    and "i \<in> set (group_of votes a)"
  shows "jget votes i = Some anchor"
proof -
  obtain v where v: "jget votes i = Some v" "compatible anchor v"
    using assms(3,4) group_of_member [OF assms(1)] by auto
  have "voteStateRoot anchor \<noteq> None" "voteStateRoot v \<noteq> None"
    using assms(2,3) v(1) by (auto simp: all_rooted_def dest!: map_of_SomeD)
  then have "v = anchor" using v(2) by (auto simp: compatible_def)
  with v(1) show ?thesis by simp
qed

lemma finalized_own_vote:
  assumes "round_inv r" and "\<not> relaxedQuorum (config r)" and "nonneg_stakes (validators (config r))"
    and "phase (state r) = Finalized"
  obtains own where "jget (commitVotes (state r)) (localKey r) = Some own"
    and "strict_quorum (validators (config r)) (set (group_of (commitVotes (state r)) (localKey r)))"
proof -
  have q: "strict_quorum (validators (config r)) (set (group_of (commitVotes (state r)) (localKey r)))"
    using assms by (auto simp: anchored_quorum_strict round_inv_def Let_def)
  have "jget (commitVotes (state r)) (localKey r) \<noteq> None"
  proof
    assume "jget (commitVotes (state r)) (localKey r) = None"
    then have "strict_quorum (validators (config r)) {}" using q by (simp add: group_of_filter)
    then have "2 * totalStake (validators (config r)) < 0"
      using stake.quorum_weight [OF assms(3)] by fastforce
    moreover have "0 \<le> totalStake (validators (config r))"
      using assms(3) unfolding totalStake_def nonneg_stakes_def by (intro sum_list_nonneg) auto
    ultimately show False by linarith
  qed
  with q that show ?thesis by blast
qed

text \<open>
  (C9) Two rounds of one height over the same validators with non-negative stakes, both with the strict quorum, both finalized, whose
  recorded commits all carry a state root, also agree on the post-execution state: if the validators that signed
  different (hash, root) pairs hold at most a third of the stake, the two nodes' own commit votes are for the same hash and
  the same root.
\<close>

theorem finalized_state_roots_agree:
  assumes "reachable_round cfg h r" and "reachable_round cfg' h r'"
    and "validators cfg' = validators cfg" and "nonneg_stakes (validators cfg)"
    and "\<not> relaxedQuorum cfg" and "\<not> relaxedQuorum cfg'"
    and "phase (state r) = Finalized" and "phase (state r') = Finalized"
    and "all_rooted (commitVotes (state r))" and "all_rooted (commitVotes (state r'))"
    and "3 * sum (stakeOf (validators cfg)) (pair_double_voters (commitVotes (state r)) (commitVotes (state r')))
           \<le> totalStake (validators cfg)"
  shows "\<exists>own. jget (commitVotes (state r)) (localKey r) = Some own \<and>
    jget (commitVotes (state r')) (localKey r') = Some own \<and> voteStateRoot own \<noteq> None"
proof -
  have r: "round_inv r" "config r = cfg" and r': "round_inv r'" "config r' = cfg'"
    using assms(1,2) reachable_round_inv by blast+
  have ok: "jmap_ok (commitVotes (state r))" "jmap_ok (commitVotes (state r'))"
    using r(1) r'(1) by (auto simp: round_inv_def Let_def votes_ok_def)
  obtain own where own: "jget (commitVotes (state r)) (localKey r) = Some own"
    "strict_quorum (validators cfg) (set (group_of (commitVotes (state r)) (localKey r)))"
    using finalized_own_vote [OF r(1)] assms(4,5,7) r(2) by auto
  obtain own' where own': "jget (commitVotes (state r')) (localKey r') = Some own'"
    "strict_quorum (validators cfg) (set (group_of (commitVotes (state r')) (localKey r')))"
    using finalized_own_vote [OF r'(1)] assms(3,4,6,8) r'(2) by auto
  obtain i where i: "i \<in> set (group_of (commitVotes (state r)) (localKey r))"
      "i \<in> set (group_of (commitVotes (state r')) (localKey r'))"
      "i \<notin> pair_double_voters (commitVotes (state r)) (commitVotes (state r'))"
    using stake.quorums_share_honest [OF assms(4) own(2) own'(2) pair_double_voters_finite assms(11)] by blast
  have "jget (commitVotes (state r)) i = Some own" "jget (commitVotes (state r')) i = Some own'"
    using rooted_group_same_vote [OF ok(1) assms(9) own(1) i(1)]
      rooted_group_same_vote [OF ok(2) assms(10) own'(1) i(2)] by simp_all
  with i(3) have "own = own'" by (auto simp: pair_double_voters_def)
  moreover have "voteStateRoot own \<noteq> None"
    using own(1) assms(9) by (auto simp: all_rooted_def dest!: map_of_SomeD)
  ultimately show ?thesis using own(1) own'(1) by simp
qed

theorem finalized_state_roots_agree_witness:
  "let r = demo_round ''a'' (Some ''0x77'') [(''b'', Some ''0x77''), (''c'', Some ''0x77'')];
       r' = demo_round ''b'' (Some ''0x77'') [(''a'', Some ''0x77''), (''d'', Some ''0x77'')]
   in \<exists>own. jget (commitVotes (state r)) (localKey r) = Some own \<and>
     jget (commitVotes (state r')) (localKey r') = Some own \<and> voteStateRoot own \<noteq> None"
  unfolding Let_def
proof (rule finalized_state_roots_agree [OF demo_reachable demo_reachable])
  let ?x = "Some ''0x77''"
  let ?r = "demo_round ''a'' ?x [(''b'', ?x), (''c'', ?x)]"
  let ?r' = "demo_round ''b'' ?x [(''a'', ?x), (''d'', ?x)]"
  show "phase (state ?r) = Finalized" "phase (state ?r') = Finalized" by code_simp+
  show "validators (demo_cfg ''b'') = validators (demo_cfg ''a'')"
    "nonneg_stakes (validators (demo_cfg ''a''))" "\<not> relaxedQuorum (demo_cfg ''a'')"
    "\<not> relaxedQuorum (demo_cfg ''b'')"
    by (simp_all add: demo_cfg_def demo_validators_def nonneg_stakes_def)
  have votes: "commitVotes (state ?r) = [(''a'', vote_of ''0x01'' ?x), (''b'', vote_of ''0x01'' ?x), (''c'', vote_of ''0x01'' ?x)]"
    "commitVotes (state ?r') = [(''b'', vote_of ''0x01'' ?x), (''a'', vote_of ''0x01'' ?x), (''d'', vote_of ''0x01'' ?x)]"
    by code_simp+
  show "all_rooted (commitVotes (state ?r))" "all_rooted (commitVotes (state ?r'))"
    unfolding votes all_rooted_def by simp_all
  have "pair_double_voters (commitVotes (state ?r)) (commitVotes (state ?r')) = {}"
    unfolding votes pair_double_voters_def by auto
  then show "3 * sum (stakeOf (validators (demo_cfg ''a'')))
      (pair_double_voters (commitVotes (state ?r)) (commitVotes (state ?r'))) \<le> totalStake (validators (demo_cfg ''a''))"
    by (simp add: demo_cfg_def demo_validators_def totalStake_def)
qed

declare jhas_iff [simp del]

end
