(* ===== verification/Bft_Progress.thy ===== *)
theory Bft_Progress
  imports Bft_Round
begin

text \<open>
  Progress of a BFT round: a node that holds the block and hears prepare and commit votes of a quorum
  finalizes it, in whatever order they arrive and whatever other messages arrive between them.
\<close>

section \<open>Votes that agree with the node's own\<close>

lemma stake_quorum_mono:
  assumes "nonneg_stakes vs" and "stake_quorum vs relaxed Q" and "Q \<subseteq> Q'" and "Q' \<subseteq> voter_ids vs"
  shows "stake_quorum vs relaxed Q'"
proof -
  have "sum (stakeOf vs) Q \<le> sum (stakeOf vs) Q'"
    using assms stakeOf_nonneg finite_subset [OF assms(4) stake.finite_members]
    by (intro sum_mono2) auto
  with assms(2,4) show ?thesis by (simp add: stake_quorum_def)
qed

definition agreeing :: "BftVote \<Rightarrow> (string, BftVote) jsmap \<Rightarrow> bool" where
  "agreeing own votes \<longleftrightarrow> (\<forall>i v. jget votes i = Some v \<longrightarrow> compatible own v)"

lemma agreeing_jset: "agreeing own votes \<Longrightarrow> compatible own v \<Longrightarrow> agreeing own (jset i v votes)"
  by (simp add: agreeing_def)

lemma agreeing_group:
  assumes "jmap_ok votes" and "jget votes me = Some own" and "agreeing own votes"
  shows "set (group_of votes me) = fst ` set votes"
proof -
  have "i \<in> set (group_of votes me) \<longleftrightarrow> jget votes i \<noteq> None" for i
    using assms by (auto simp: group_of_member agreeing_def)
  then show ?thesis by (auto simp: jhas_iff)
qed

lemma agreeing_anchored:
  assumes "votes_ok (validators (config r)) pb votes" and "jget votes (localKey r) = Some own" and "agreeing own votes"
    and "nonneg_stakes (validators (config r))" and "stake_quorum (validators (config r)) (relaxedQuorum (config r)) Q"
    and "Q \<subseteq> fst ` set votes"
  shows "anchored_quorum r votes"
proof -
  have g: "set (group_of votes (localKey r)) = fst ` set votes"
    using assms(1-3) by (intro agreeing_group) (simp_all add: votes_ok_def)
  then have "fst ` set votes \<subseteq> voter_ids (validators (config r))"
    using group_of_voters [OF assms(1)] by blast
  from stake_quorum_mono [OF assms(4-6) this] show ?thesis
    using assms(1) by (simp add: anchored_quorum_iff g)
qed


section \<open>Progress through a sequence of messages\<close>

definition deliverAll :: "BftRound \<Rightarrow> BftMessage list \<Rightarrow> BftRound" where
  "deliverAll r ms = foldl (\<lambda>r m. fst (handleMessage r m)) r ms"

text \<open>The validators whose votes of one type for a block are among the messages.\<close>

definition heard :: "BftMessageType \<Rightarrow> hex \<Rightarrow> Validator list \<Rightarrow> BftMessage list \<Rightarrow> string set" where
  "heard ty bh vs ms =
     {i \<in> voter_ids vs. \<exists>m\<in>set ms. msgType m = ty \<and> msgBlockHash m = bh \<and> toLowerCase (senderId m) = i}"

text \<open>No validator's vote for the block names a state root that contradicts the node's own.\<close>

definition no_conflict :: "hex \<Rightarrow> hex option \<Rightarrow> Validator list \<Rightarrow> BftMessage list \<Rightarrow> bool" where
  "no_conflict bh root vs ms \<longleftrightarrow>
     (\<forall>m\<in>set ms. msgBlockHash m = bh \<and> toLowerCase (senderId m) \<in> voter_ids vs \<longrightarrow> compatible (vote_of bh root) (vote_of bh (msgStateRoot m)))"

definition preparing :: "BftRound \<Rightarrow> ChainBlock \<Rightarrow> hex option \<Rightarrow> string set \<Rightarrow> string set \<Rightarrow> bool" where
  "preparing r b root P C \<longleftrightarrow>
     phase (state r) = Prepare \<and> proposedBlock (state r) = Some b \<and> isValidator r \<and>
     P \<subseteq> fst ` set (prepareVotes (state r)) \<and> C \<subseteq> fst ` set (commitVotes (state r)) \<and>
     jget (prepareVotes (state r)) (localKey r) = Some (vote_of (hash b) root) \<and>
     agreeing (vote_of (hash b) root) (prepareVotes (state r)) \<and> agreeing (vote_of (hash b) root) (commitVotes (state r)) \<and>
     (fst ` set (prepareVotes (state r)) \<subseteq> {localKey r} \<or> \<not> anchored_quorum r (prepareVotes (state r)))"

definition committing :: "BftRound \<Rightarrow> ChainBlock \<Rightarrow> hex option \<Rightarrow> string set \<Rightarrow> bool" where
  "committing r b root C \<longleftrightarrow>
     phase (state r) = Finalized \<or>
     phase (state r) = Commit \<and> proposedBlock (state r) = Some b \<and> insert (localKey r) C \<subseteq> fst ` set (commitVotes (state r)) \<and>
     jget (commitVotes (state r)) (localKey r) = Some (vote_of (hash b) root) \<and>
     agreeing (vote_of (hash b) root) (commitVotes (state r)) \<and> \<not> anchored_quorum r (commitVotes (state r))"

lemma handlePrepare_records:
  assumes "phase (state r) = Prepare" and "proposedBlock (state r) = Some b" and "isKnownValidator r p"
  shows "toLowerCase p \<in> fst ` set (prepareVotes (state (fst (handlePrepare r p (hash b) root))))"
  using assms by (auto simp: handlePrepare_def Let_def jhas_iff)

lemma handleCommit_records:
  assumes "phase (state r) = Commit \<or> phase (state r) = Prepare" and "proposedBlock (state r) = Some b" and "isKnownValidator r p"
  shows "toLowerCase p \<in> fst ` set (commitVotes (state (fst (handleCommit r p (hash b) root))))"
  using assms by (auto simp: handleCommit_def Let_def jhas_iff)

lemma handlePrepare_preparing:
  assumes prep: "preparing r b root P C" and known: "isKnownValidator r p" and ok: "compatible (vote_of (hash b) root) (vote_of (hash b) x)"
  shows "preparing (fst (handlePrepare r p (hash b) x)) b root (insert (toLowerCase p) P) C \<or>
    committing (fst (handlePrepare r p (hash b) x)) b root C"
proof (cases rule: handlePrepare_cases [of r p "hash b" x])
  case ignored
  then have "toLowerCase p \<in> fst ` set (prepareVotes (state r))"
    using handlePrepare_records [OF _ _ known, of b x] prep by (simp add: preparing_def)
  with ignored show ?thesis using prep by (simp add: preparing_def)
next
  case (voted b' P' C' ph out)
  let ?own = "vote_of (hash b) root"
  have own: "jget P' (localKey r) = Some ?own"
    using prep voted(6) unfolding voted(7) by (auto simp: preparing_def)
  have agree: "agreeing ?own P'" and keys: "fst ` set P' = insert (toLowerCase p) (fst ` set (prepareVotes (state r)))"
    using prep ok unfolding voted(7) by (auto simp: preparing_def intro: agreeing_jset)
  show ?thesis
  proof (cases "anchored_quorum r P'")
    case False
    then have "ph = Prepare" "C' = commitVotes (state r)" using voted(8) by auto
    with False show ?thesis
      unfolding voted(1) using prep own agree keys voted(3) by (auto simp: preparing_def)
  next
    case True
    then have C': "C' = jset (localKey r) ?own (commitVotes (state r))" and ph: "ph = Finalized \<or> ph = Commit \<and> \<not> anchored_quorum r C'"
      using voted(8) prep own by (auto simp: preparing_def)
    have "agreeing ?own C'"
      unfolding C' using prep by (intro agreeing_jset) (simp_all add: preparing_def compatible_def)
    then show ?thesis
      unfolding voted(1) using prep ph by (auto simp: committing_def preparing_def C')
  qed
qed

lemma handleCommit_preparing:
  assumes prep: "preparing r b root P C" and known: "isKnownValidator r p" and ok: "compatible (vote_of (hash b) root) (vote_of (hash b) x)"
  shows "preparing (fst (handleCommit r p (hash b) x)) b root P (insert (toLowerCase p) C)"
proof (cases rule: handleCommit_cases [of r p "hash b" x])
  case ignored
  then have "toLowerCase p \<in> fst ` set (commitVotes (state r))"
    using handleCommit_records [OF _ _ known, of b x] prep by (simp add: preparing_def)
  with ignored show ?thesis using prep by (simp add: preparing_def)
next
  case (voted b' C' ph fin)
  have "ph = Prepare" using voted(8,9) prep by (simp add: preparing_def)
  moreover have "agreeing (vote_of (hash b) root) C'"
    unfolding voted(7) using prep ok by (intro agreeing_jset) (simp_all add: preparing_def)
  ultimately show ?thesis
    unfolding voted(1) using prep voted(7) by (auto simp: preparing_def)
qed

lemma handleCommit_committing:
  assumes "committing r b root C" and known: "isKnownValidator r p" and ok: "compatible (vote_of (hash b) root) (vote_of (hash b) x)"
  shows "committing (fst (handleCommit r p (hash b) x)) b root (insert (toLowerCase p) C)"
proof (cases "phase (state r) = Finalized")
  case True
  then have "handleCommit r p (hash b) x = (r, False)" by (simp add: handleCommit_def Let_def)
  with True show ?thesis by (simp add: committing_def)
next
  case False
  then have c: "phase (state r) = Commit" "proposedBlock (state r) = Some b" "insert (localKey r) C \<subseteq> fst ` set (commitVotes (state r))"
    "jget (commitVotes (state r)) (localKey r) = Some (vote_of (hash b) root)" "agreeing (vote_of (hash b) root) (commitVotes (state r))"
    "\<not> anchored_quorum r (commitVotes (state r))"
    using assms(1) by (auto simp: committing_def)
  show ?thesis
  proof (cases rule: handleCommit_cases [of r p "hash b" x])
    case ignored
    then have "toLowerCase p \<in> fst ` set (commitVotes (state r))"
      using handleCommit_records [OF _ c(2) known, of x] c(1) by simp
    with ignored c show ?thesis by (simp add: committing_def)
  next
    case (voted b' C' ph fin)
    have "agreeing (vote_of (hash b) root) C'" "jget C' (localKey r) = Some (vote_of (hash b) root)"
      unfolding voted(7) using c voted(6) ok by (auto intro: agreeing_jset)
    then show ?thesis
      unfolding voted(1) using c voted(7,8,9) by (auto simp: committing_def)
  qed
qed


lemma handlePrepare_ignored:
  assumes "phase (state r) \<noteq> Prepare \<or> \<not> isKnownValidator r p \<or> proposedBlock (state r) = Some b \<and> bh \<noteq> hash b"
  shows "fst (handlePrepare r p bh x) = r"
  using assms by (auto simp: handlePrepare_def Let_def split: option.splits)

lemma handleCommit_ignored:
  assumes "phase (state r) = Finalized \<or> \<not> isKnownValidator r p \<or> proposedBlock (state r) = Some b \<and> bh \<noteq> hash b"
  shows "fst (handleCommit r p bh x) = r"
  using assms by (auto simp: handleCommit_def Let_def split: option.splits)

lemma handlePropose_ignored: "phase (state r) \<noteq> Propose \<Longrightarrow> fst (handlePropose r b p x) = r"
  by (simp add: handlePropose_def Let_def)

lemma handleMessage_fst:
  "fst (handleMessage r m) =
     (case msgType m of
        ProposeMsg \<Rightarrow> (case proposedBlock (state r) of None \<Rightarrow> r | Some pb \<Rightarrow> fst (handlePropose r pb (senderId m) None))
      | PrepareMsg \<Rightarrow> fst (handlePrepare r (senderId m) (msgBlockHash m) (msgStateRoot m))
      | CommitMsg \<Rightarrow> fst (handleCommit r (senderId m) (msgBlockHash m) (msgStateRoot m)))"
  by (simp add: handleMessage_def case_prod_beta split: BftMessageType.splits option.splits)

lemma handleMessage_config [simp]: "config (fst (handleMessage r m)) = config r"
  by (simp add: handleMessage_fst split: BftMessageType.splits option.splits)

lemma handleMessage_progress:
  assumes "preparing r b root (insert me (heard PrepareMsg (hash b) vs ms)) (heard CommitMsg (hash b) vs ms) \<or>
      committing r b root (heard CommitMsg (hash b) vs ms)"
    and "no_conflict (hash b) root vs [m]" and vs: "vs = validators (config r)"
  shows "preparing (fst (handleMessage r m)) b root (insert me (heard PrepareMsg (hash b) vs (ms @ [m]))) (heard CommitMsg (hash b) vs (ms @ [m])) \<or>
      committing (fst (handleMessage r m)) b root (heard CommitMsg (hash b) vs (ms @ [m]))"
proof (cases "msgType m \<noteq> ProposeMsg \<and> msgBlockHash m = hash b \<and> isKnownValidator r (senderId m)")
  case False
  then have "heard ty (hash b) vs (ms @ [m]) = heard ty (hash b) vs ms" if "ty \<noteq> ProposeMsg" for ty
    using that by (auto simp: heard_def isKnownValidator_iff vs)
  moreover have "phase (state r) \<noteq> Propose \<and> (phase (state r) = Finalized \<or> proposedBlock (state r) = Some b)"
    using assms(1) by (auto simp: preparing_def committing_def)
  then have "fst (handleMessage r m) = r"
    using False handlePrepare_ignored [of r "senderId m" b "msgBlockHash m" "msgStateRoot m"]
      handleCommit_ignored [of r "senderId m" b "msgBlockHash m" "msgStateRoot m"]
    by (cases "msgType m") (auto simp: handleMessage_fst handlePropose_ignored split: option.splits)
  ultimately show ?thesis
    using assms(1) by simp
next
  case True
  then have ok: "compatible (vote_of (hash b) root) (vote_of (hash b) (msgStateRoot m))"
    using assms(2) by (simp add: no_conflict_def isKnownValidator_iff vs)
  let ?p = "toLowerCase (senderId m)"
  have heard: "heard ty (hash b) vs (ms @ [m]) = (if ty = msgType m then insert ?p (heard ty (hash b) vs ms) else heard ty (hash b) vs ms)" for ty
    using True by (auto simp: heard_def isKnownValidator_iff vs)
  show ?thesis
  proof (cases "msgType m")
    case PrepareMsg
    have "committing r b root C \<Longrightarrow> fst (handlePrepare r (senderId m) (hash b) (msgStateRoot m)) = r" for C
      using handlePrepare_ignored [of r "senderId m" b] by (auto simp: committing_def)
    with PrepareMsg True assms(1) show ?thesis
      using handlePrepare_preparing [OF _ _ ok, of r "insert me (heard PrepareMsg (hash b) vs ms)" "heard CommitMsg (hash b) vs ms" "senderId m"]
      by (auto simp: handleMessage_fst heard insert_commute [of me])
  next
    case CommitMsg
    with True assms(1) show ?thesis
      using handleCommit_preparing [OF _ _ ok] handleCommit_committing [OF _ _ ok] by (auto simp: handleMessage_fst heard)
  qed (use True in simp)
qed

lemma deliverAll_snoc: "deliverAll r (ms @ [m]) = fst (handleMessage (deliverAll r ms) m)"
  by (simp add: deliverAll_def)

lemma deliverAll_config [simp]: "config (deliverAll r ms) = config r"
  by (induction ms rule: rev_induct) (simp_all add: deliverAll_snoc, simp add: deliverAll_def)

lemma deliverAll_progress:
  assumes "preparing r b root {me} {}" and "no_conflict (hash b) root vs ms" and vs: "vs = validators (config r)"
  shows "preparing (deliverAll r ms) b root (insert me (heard PrepareMsg (hash b) vs ms)) (heard CommitMsg (hash b) vs ms) \<or>
    committing (deliverAll r ms) b root (heard CommitMsg (hash b) vs ms)"
  using assms(2)
proof (induction ms rule: rev_induct)
  case Nil
  then show ?case using assms(1) by (simp add: deliverAll_def heard_def)
next
  case (snoc m ms)
  then have "no_conflict (hash b) root vs ms" "no_conflict (hash b) root vs [m]"
    by (auto simp: no_conflict_def)
  with snoc.IH show ?case
    unfolding deliverAll_snoc by (intro handleMessage_progress) (simp_all add: vs)
qed

lemma handleMessage_step: "fst (handleMessage r m) = r \<or> round_step r (fst (handleMessage r m))"
  by (auto simp: handleMessage_fst split: BftMessageType.splits option.splits intro: round_step.intros)

lemma deliverAll_reachable: "reachable_round cfg h r \<Longrightarrow> reachable_round cfg h (deliverAll r ms)"
proof (induction ms rule: rev_induct)
  case (snoc m ms)
  then show ?case
    using handleMessage_step [of "deliverAll r ms" m] reachable_round.step unfolding deliverAll_snoc by metis
qed (simp add: deliverAll_def)

lemma reachable_tables:
  assumes "reachable_round cfg h r"
  shows "config r = cfg" and "votes_ok (validators cfg) (proposedBlock (state r)) (prepareVotes (state r))"
    and "votes_ok (validators cfg) (proposedBlock (state r)) (commitVotes (state r))"
proof -
  have inv: "round_inv r" and c: "config r = cfg" using reachable_round_inv [OF assms] by auto
  show "config r = cfg" by (fact c)
  show "votes_ok (validators cfg) (proposedBlock (state r)) (prepareVotes (state r))"
    "votes_ok (validators cfg) (proposedBlock (state r)) (commitVotes (state r))"
    using inv by (simp_all add: round_inv_def Let_def c)
qed

lemma proposed_preparing:
  assumes "toLowerCase (proposer b) \<in> voter_ids (validators cfg)"
    and "toLowerCase (localId cfg) \<in> voter_ids (validators cfg)"
  shows "preparing (fst (handlePropose (newBftRound now (number b) cfg) b (proposer b) root)) b root
    {toLowerCase (localId cfg)} {}"
  using assms
  by (simp add: preparing_def handlePropose_def newBftRound_def isKnownValidator_iff isValidator_localKey
      localKey_def agreeing_def compatible_def)

text \<open>
  (C4) Liveness of a round. A validator takes up the proposal of a known proposer at the round's height, and then
  messages arrive in any order, commits before prepares included: votes for the block, repeated votes, votes for other blocks,
  votes of strangers and proposals. If no validator's vote for the block names a state root that contradicts the node's own
  (a node without a root of its own is contradicted by none), another validator's prepare is among them, and the validators
  whose prepares are among them hold a quorum together with the node, and so do those whose commits are, then the round is
  finalized. This holds for the strict and for the relaxed quorum.
\<close>

theorem round_finalizes:
  assumes "nonneg_stakes (validators cfg)"
    and "toLowerCase (proposer b) \<in> voter_ids (validators cfg)"
    and "toLowerCase (localId cfg) \<in> voter_ids (validators cfg)"
    and "no_conflict (hash b) root (validators cfg) ms"
    and "\<not> heard PrepareMsg (hash b) (validators cfg) ms \<subseteq> {toLowerCase (localId cfg)}"
    and "stake_quorum (validators cfg) (relaxedQuorum cfg)
      (insert (toLowerCase (localId cfg)) (heard PrepareMsg (hash b) (validators cfg) ms))"
    and "stake_quorum (validators cfg) (relaxedQuorum cfg)
      (insert (toLowerCase (localId cfg)) (heard CommitMsg (hash b) (validators cfg) ms))"
  shows "phase (state (deliverAll (fst (handlePropose (newBftRound now (number b) cfg) b (proposer b) root)) ms)) = Finalized"
proof -
  let ?me = "toLowerCase (localId cfg)" and ?vs = "validators cfg"
  define r0 where "r0 = fst (handlePropose (newBftRound now (number b) cfg) b (proposer b) root)"
  define r where "r = deliverAll r0 ms"
  have "reachable_round cfg (number b) r0"
    unfolding r0_def by (rule reachable_round.step [OF reachable_round.start round_step.propose])
  then have tables: "config r = cfg" "votes_ok ?vs (proposedBlock (state r)) (prepareVotes (state r))"
      "votes_ok ?vs (proposedBlock (state r)) (commitVotes (state r))"
    using deliverAll_reachable reachable_tables unfolding r_def by blast+
  have me: "localKey r = ?me" by (simp add: localKey_def tables(1))
  have "preparing r0 b root {?me} {}"
    unfolding r0_def using assms(2,3) by (rule proposed_preparing)
  moreover have "?vs = validators (config r0)" by (simp add: r0_def newBftRound_def)
  ultimately have "preparing r b root (insert ?me (heard PrepareMsg (hash b) ?vs ms)) (heard CommitMsg (hash b) ?vs ms) \<or>
      committing r b root (heard CommitMsg (hash b) ?vs ms)"
    unfolding r_def using assms(4) by (intro deliverAll_progress)
  moreover have "\<not> preparing r b root (insert ?me (heard PrepareMsg (hash b) ?vs ms)) (heard CommitMsg (hash b) ?vs ms)"
  proof
    assume p: "preparing r b root (insert ?me (heard PrepareMsg (hash b) ?vs ms)) (heard CommitMsg (hash b) ?vs ms)"
    then have "insert ?me (heard PrepareMsg (hash b) ?vs ms) \<subseteq> fst ` set (prepareVotes (state r))"
      by (simp add: preparing_def)
    moreover from this have "\<not> fst ` set (prepareVotes (state r)) \<subseteq> {?me}"
      using assms(5) by (meson insert_subset subset_trans)
    then have "\<not> anchored_quorum r (prepareVotes (state r))"
      using p by (simp add: preparing_def me)
    ultimately show False
      using p assms(1,6) tables(1,2) agreeing_anchored [of r "proposedBlock (state r)" "prepareVotes (state r)" "vote_of (hash b) root"
          "insert ?me (heard PrepareMsg (hash b) ?vs ms)"]
      by (simp add: preparing_def)
  qed
  moreover have "phase (state r) = Finalized" if "committing r b root (heard CommitMsg (hash b) ?vs ms)"
    using that assms(1,7) tables(1,3) agreeing_anchored [of r "proposedBlock (state r)" "commitVotes (state r)" "vote_of (hash b) root"
        "insert ?me (heard CommitMsg (hash b) ?vs ms)"]
    by (auto simp: committing_def me)
  ultimately show ?thesis by (auto simp: r_def r0_def)
qed


text \<open>Four validators of equal stake: the node \<^verbatim>\<open>a\<close> hears \<^verbatim>\<open>b\<close> and \<^verbatim>\<open>c\<close> only, a commit first.\<close>

definition demo_votes :: "BftMessage list" where
  "demo_votes = map (\<lambda>(ty, i, x). \<lparr>msgType = ty, msgHeight = 1, msgBlockHash = ''0x01'', senderId = i, signature = [], msgStateRoot = x\<rparr>)
     [(CommitMsg, ''b'', Some ''0xr''), (PrepareMsg, ''c'', None), (CommitMsg, ''c'', Some ''0xr''), (PrepareMsg, ''b'', Some ''0xr'')]"

theorem round_finalizes_witness:
  "phase (state (deliverAll (fst (handlePropose (newBftRound 0 (number demo_block) (demo_cfg ''a'')) demo_block (proposer demo_block)
     (Some ''0xr''))) demo_votes)) = Finalized"
proof (rule round_finalizes)
  let ?vs = "validators (demo_cfg ''a'')"
  have ids: "voter_ids ?vs = {''a'', ''b'', ''c'', ''d''}" "toLowerCase (localId (demo_cfg ''a'')) = ''a''" "hash demo_block = ''0x01''"
    by code_simp+
  have lower: "toLowerCase ''b'' = ''b''" "toLowerCase ''c'' = ''c''" by code_simp+
  have heard: "heard PrepareMsg (hash demo_block) ?vs demo_votes = {''b'', ''c''}" "heard CommitMsg (hash demo_block) ?vs demo_votes = {''b'', ''c''}"
    unfolding heard_def ids by (auto simp: demo_votes_def lower)
  show "nonneg_stakes ?vs" "toLowerCase (proposer demo_block) \<in> voter_ids ?vs" "toLowerCase (localId (demo_cfg ''a'')) \<in> voter_ids ?vs"
    by code_simp+
  show "no_conflict (hash demo_block) (Some ''0xr'') ?vs demo_votes"
    by (simp add: no_conflict_def demo_votes_def compatible_def ids)
  show "\<not> heard PrepareMsg (hash demo_block) ?vs demo_votes \<subseteq> {toLowerCase (localId (demo_cfg ''a''))}"
    unfolding heard by (simp add: ids(2))
  have "stake_quorum ?vs (relaxedQuorum (demo_cfg ''a'')) {''a'', ''b'', ''c''}" by code_simp
  then show "stake_quorum ?vs (relaxedQuorum (demo_cfg ''a'')) (insert (toLowerCase (localId (demo_cfg ''a''))) (heard PrepareMsg (hash demo_block) ?vs demo_votes))"
    "stake_quorum ?vs (relaxedQuorum (demo_cfg ''a'')) (insert (toLowerCase (localId (demo_cfg ''a''))) (heard CommitMsg (hash demo_block) ?vs demo_votes))"
    unfolding heard by (simp_all add: ids(2))
qed

end
