(* ===== verification/Governance.thy ===== *)
theory Governance
  imports Pali_Prelude
begin

text \<open>
  Validator governance: \<^verbatim>\<open>node/src/validator-governance.ts\<close>. The private maps of the class are the fields of
  a record; a method returns the record updated, and a method that throws returns the error and
  leaves the record as it was at the throw. The percentages of the configuration are integers, and a
  \<^verbatim>\<open>Number\<close> of basis points is one too.
\<close>

record ValidatorInfo =
  infoId :: string
  infoAddress :: string
  infoStake :: bigint
  joinedAtEpoch :: bigint
  active :: bool
  votingPower :: int

datatype ProposalType = AddValidator | RemoveValidator | UpdateStake

datatype FactionId = Builders | Guardians | Explorers | Neutral

record FactionInfo =
  factionAddress :: string
  faction :: FactionId
  factionEpoch :: bigint

datatype ProposalStatus = Pending | Approved | Rejected | Expired

record GovernanceProposal =
  proposalId :: string
  proposalType :: ProposalType
  targetId :: string
  targetAddress :: "string option"
  stakeAmount :: "bigint option"
  proposedBy :: string
  createdAtEpoch :: bigint
  expiresAtEpoch :: bigint
  ballots :: "(string, bool) jsmap"
  voterSnapshot :: "(string, bigint) jsmap"
  status :: ProposalStatus

record GovernanceConfig =
  minStake :: bigint
  maxValidators :: int
  proposalDurationEpochs :: bigint
  approvalThresholdPercent :: int
  minVoterPercent :: int

definition DEFAULT_GOVERNANCE :: GovernanceConfig where
  "DEFAULT_GOVERNANCE = \<lparr>minStake = 1000000000000000000, maxValidators = 100, proposalDurationEpochs = 24,
     approvalThresholdPercent = 67, minVoterPercent = 50\<rparr>"

record ValidatorGovernance =
  govConfig :: GovernanceConfig
  registry :: "(string, ValidatorInfo) jsmap"
  proposals :: "(string, GovernanceProposal) jsmap"
  factions :: "(string, FactionInfo) jsmap"
  treasuryBalance :: bigint
  currentEpoch :: bigint
  nextProposalId :: nat

datatype GovError = DepositNotPositive | ProposerNotActive | AlreadyActive | MaxValidatorsReached
  | TargetAddressRequired | StakeBelowMinimum | TargetNotActive | StakeAmountRequired | StakeAboveMaximum
  | LastValidator | ProposalNotFound | ProposalNotPending | VoterNotInElectorate | AlreadyVoted

definition newGovernance :: "GovernanceConfig \<Rightarrow> ValidatorGovernance" where
  "newGovernance cfg = \<lparr>govConfig = cfg, registry = [], proposals = [], factions = [], treasuryBalance = 0,
     currentEpoch = 0, nextProposalId = 1\<rparr>"

definition getActiveValidators :: "ValidatorGovernance \<Rightarrow> ValidatorInfo list" where
  "getActiveValidators g = filter active (map snd (registry g))"

definition activeCount :: "ValidatorGovernance \<Rightarrow> int" where
  "activeCount g = foldl (\<lambda>count v. if active v then count + 1 else count) 0 (map snd (registry g))"

definition recalcVotingPower :: "ValidatorGovernance \<Rightarrow> ValidatorGovernance" where
  "recalcVotingPower g =
     (let actives = getActiveValidators g;
          totalStake = foldl (\<lambda>sum v. sum + infoStake v) 0 actives;
          powered = foldl (\<lambda>m v. jset (infoId v)
              (v\<lparr>votingPower := (if totalStake > 0 then (infoStake v * 10000) sdiv totalStake else 0)\<rparr>) m)
            (registry g) actives;
          cleared = foldl (\<lambda>m v. if \<not> active v \<and> votingPower v \<noteq> 0 then jset (infoId v) (v\<lparr>votingPower := 0\<rparr>) m else m)
            powered (map snd powered)
      in g\<lparr>registry := cleared\<rparr>)"

record GenesisValidator =
  genesisId :: string
  genesisAddress :: string
  genesisStake :: bigint

definition initGenesis :: "ValidatorGovernance \<Rightarrow> GenesisValidator list \<Rightarrow> ValidatorGovernance" where
  "initGenesis g vs =
     recalcVotingPower (g\<lparr>registry := foldl (\<lambda>m v. jset (genesisId v)
       \<lparr>infoId = genesisId v, infoAddress = genesisAddress v, infoStake = genesisStake v, joinedAtEpoch = 0,
        active = True, votingPower = 0\<rparr> m) [] vs\<rparr>)"

definition pruneProposals :: "ValidatorGovernance \<Rightarrow> bigint \<Rightarrow> ValidatorGovernance \<times> nat" where
  "pruneProposals g retentionEpochs =
     (let cutoff = (if currentEpoch g > retentionEpochs then currentEpoch g - retentionEpochs else 0);
          old = (\<lambda>(i, p). status p \<noteq> Pending \<and> createdAtEpoch p < cutoff)
      in (g\<lparr>proposals := filter (\<lambda>e. \<not> old e) (proposals g)\<rparr>, length (filter old (proposals g))))"

definition advanceEpoch :: "ValidatorGovernance \<Rightarrow> bigint \<Rightarrow> ValidatorGovernance" where
  "advanceEpoch g epoch =
     (let g1 = g\<lparr>currentEpoch := epoch\<rparr>;
          g2 = g1\<lparr>proposals := map (\<lambda>(i, p). (i, if status p = Pending \<and> epoch \<ge> expiresAtEpoch p
                 then p\<lparr>status := Expired\<rparr> else p)) (proposals g1)\<rparr>
      in fst (pruneProposals g2 100))"

record GovernanceStats =
  statActive :: int
  statTotalStake :: bigint
  statPending :: int
  statProposals :: int
  statEpoch :: bigint

definition getGovernanceStats :: "ValidatorGovernance \<Rightarrow> GovernanceStats" where
  "getGovernanceStats g =
     \<lparr>statActive = int (length (getActiveValidators g)),
      statTotalStake = foldl (\<lambda>sum v. sum + infoStake v) 0 (getActiveValidators g),
      statPending = int (length (filter (\<lambda>p. status p = Pending) (map snd (proposals g)))),
      statProposals = int (length (proposals g)), statEpoch = currentEpoch g\<rparr>"

definition depositTreasury :: "ValidatorGovernance \<Rightarrow> bigint \<Rightarrow> GovError + ValidatorGovernance" where
  "depositTreasury g amount =
     (if amount \<le> 0 then Inl DepositNotPositive else Inr (g\<lparr>treasuryBalance := treasuryBalance g + amount\<rparr>))"

definition setFaction :: "ValidatorGovernance \<Rightarrow> string \<Rightarrow> FactionId \<Rightarrow> ValidatorGovernance" where
  "setFaction g address f =
     g\<lparr>factions := jset (toLowerCase address)
       \<lparr>factionAddress = toLowerCase address, faction = f, factionEpoch = currentEpoch g\<rparr> (factions g)\<rparr>"

definition getFaction :: "ValidatorGovernance \<Rightarrow> string \<Rightarrow> FactionInfo option" where
  "getFaction g address = jget (factions g) (toLowerCase address)"

definition getFactionStats :: "ValidatorGovernance \<Rightarrow> FactionId \<Rightarrow> int" where
  "getFactionStats g f = foldl (\<lambda>c info. if faction info = f then c + 1 else c) 0 (map snd (factions g))"

definition isActive :: "ValidatorGovernance \<Rightarrow> string \<Rightarrow> bool" where
  "isActive g i = (case jget (registry g) i of None \<Rightarrow> False | Some v \<Rightarrow> active v)"

definition checkProposal ::
    "ValidatorGovernance \<Rightarrow> ProposalType \<Rightarrow> string \<Rightarrow> string option \<Rightarrow> bigint option \<Rightarrow> GovError option" where
  "checkProposal g ty target address amount =
     (case ty of
        AddValidator \<Rightarrow>
          if isActive g target then Some AlreadyActive
          else if activeCount g \<ge> maxValidators (govConfig g) then Some MaxValidatorsReached
          else if \<not> truthy address then Some TargetAddressRequired
          else if (case amount of None \<Rightarrow> 0 | Some a \<Rightarrow> a) < minStake (govConfig g) then Some StakeBelowMinimum
          else None
      | UpdateStake \<Rightarrow>
          if \<not> isActive g target then Some TargetNotActive
          else (case amount of None \<Rightarrow> Some StakeAmountRequired
                | Some a \<Rightarrow>
                    if a < minStake (govConfig g) then Some StakeBelowMinimum
                    else if a > minStake (govConfig g) * 1000 then Some StakeAboveMaximum
                    else None)
      | RemoveValidator \<Rightarrow>
          if \<not> isActive g target then Some TargetNotActive
          else if activeCount g \<le> 1 then Some LastValidator
          else None)"

definition electorate :: "ValidatorGovernance \<Rightarrow> (string, bigint) jsmap" where
  "electorate g = foldl (\<lambda>m v. if active v then jset (infoId v) (infoStake v) m else m) [] (map snd (registry g))"

definition submitProposal ::
    "ValidatorGovernance \<Rightarrow> ProposalType \<Rightarrow> string \<Rightarrow> string \<Rightarrow> string option \<Rightarrow> bigint option \<Rightarrow>
     (GovError, ValidatorGovernance, GovernanceProposal) outcome" where
  "submitProposal g ty target by_id address amount =
     (if \<not> isActive g by_id then (g, Inl ProposerNotActive)
      else case checkProposal g ty target address amount of Some e \<Rightarrow> (g, Inl e)
      | None \<Rightarrow>
          let i = ''proposal-'' @ show_nat (nextProposalId g);
              p = \<lparr>proposalId = i, proposalType = ty, targetId = target, targetAddress = address,
                stakeAmount = amount, proposedBy = by_id, createdAtEpoch = currentEpoch g,
                expiresAtEpoch = currentEpoch g + proposalDurationEpochs (govConfig g), ballots = [],
                voterSnapshot = electorate g, status = Pending\<rparr>
          in (g\<lparr>nextProposalId := nextProposalId g + 1, proposals := jset i p (proposals g)\<rparr>, Inr p))"

definition executeProposal :: "ValidatorGovernance \<Rightarrow> GovernanceProposal \<Rightarrow> ValidatorGovernance" where
  "executeProposal g p =
     (case proposalType p of
        AddValidator \<Rightarrow>
          if activeCount g \<ge> maxValidators (govConfig g) then g
          else recalcVotingPower (g\<lparr>registry := jset (targetId p)
            \<lparr>infoId = targetId p, infoAddress = (case targetAddress p of None \<Rightarrow> [] | Some a \<Rightarrow> a),
             infoStake = (case stakeAmount p of None \<Rightarrow> minStake (govConfig g) | Some a \<Rightarrow> a),
             joinedAtEpoch = currentEpoch g, active = True, votingPower = 0\<rparr> (registry g)\<rparr>)
      | RemoveValidator \<Rightarrow>
          if activeCount g \<le> 1 then g
          else (case jget (registry g) (targetId p) of None \<Rightarrow> g
                | Some v \<Rightarrow> recalcVotingPower (g\<lparr>registry := jset (targetId p) (v\<lparr>active := False\<rparr>) (registry g)\<rparr>))
      | UpdateStake \<Rightarrow>
          (case jget (registry g) (targetId p) of None \<Rightarrow> g
           | Some v \<Rightarrow>
               (case stakeAmount p of None \<Rightarrow> g
                | Some a \<Rightarrow>
                    if active v \<and> a \<ge> minStake (govConfig g)
                    then recalcVotingPower (g\<lparr>registry := jset (targetId p) (v\<lparr>infoStake := a\<rparr>) (registry g)\<rparr>)
                    else g)))"

text \<open>The two stake sums of the tally: the stake that voted and the stake that approved.\<close>

definition tally :: "GovernanceProposal \<Rightarrow> bigint \<times> bigint" where
  "tally p = foldl (\<lambda>(voted, approval) (voter, approve).
      case jget (voterSnapshot p) voter of None \<Rightarrow> (voted, approval)
      | Some s \<Rightarrow> (voted + s, if approve then approval + s else approval)) (0, 0) (ballots p)"

definition resolveProposal :: "ValidatorGovernance \<Rightarrow> string \<Rightarrow> ValidatorGovernance" where
  "resolveProposal g i =
     (case jget (proposals g) i of None \<Rightarrow> g
      | Some p \<Rightarrow>
          if status p \<noteq> Pending then g
          else
            let totalStake = foldl (\<lambda>sum s. sum + s) 0 (map snd (voterSnapshot p));
                (votedStake, approvalStake) = tally p;
                participationBps = (if totalStake > 0 then (votedStake * 10000) sdiv totalStake else 0);
                approvalBps = (if totalStake > 0 then (approvalStake * 10000) sdiv totalStake else 0)
            in if participationBps < minVoterPercent (govConfig g) * 100 then g
               else if approvalBps \<ge> approvalThresholdPercent (govConfig g) * 100 then
                 let g1 = executeProposal g p;
                     current = (case jget (proposals g1) i of None \<Rightarrow> p | Some c \<Rightarrow> c)
                 in g1\<lparr>proposals := jset i (current\<lparr>status := Approved\<rparr>) (proposals g1)\<rparr>
               else if participationBps \<ge> 10000 then g\<lparr>proposals := jset i (p\<lparr>status := Rejected\<rparr>) (proposals g)\<rparr>
               else g)"

definition vote :: "ValidatorGovernance \<Rightarrow> string \<Rightarrow> string \<Rightarrow> bool \<Rightarrow> GovError + ValidatorGovernance" where
  "vote g i voterId approve =
     (case jget (proposals g) i of None \<Rightarrow> Inl ProposalNotFound
      | Some p \<Rightarrow>
          if status p \<noteq> Pending then Inl ProposalNotPending
          else if \<not> jhas (voterSnapshot p) voterId then Inl VoterNotInElectorate
          else if jhas (ballots p) voterId then Inl AlreadyVoted
          else Inr (resolveProposal
            (g\<lparr>proposals := jset i (p\<lparr>ballots := jset voterId approve (ballots p)\<rparr>) (proposals g)\<rparr>) i))"

definition getValidator :: "ValidatorGovernance \<Rightarrow> string \<Rightarrow> ValidatorInfo option" where
  "getValidator g i = jget (registry g) i"

definition getProposal :: "ValidatorGovernance \<Rightarrow> string \<Rightarrow> GovernanceProposal option" where
  "getProposal g i = jget (proposals g) i"

definition getProposals :: "ValidatorGovernance \<Rightarrow> ProposalStatus option \<Rightarrow> GovernanceProposal list" where
  "getProposals g st =
     (case st of None \<Rightarrow> map snd (proposals g) | Some s \<Rightarrow> filter (\<lambda>p. status p = s) (map snd (proposals g)))"

definition getValidatorIds :: "ValidatorGovernance \<Rightarrow> string list" where
  "getValidatorIds g = map infoId (sort_key infoId (getActiveValidators g))"

definition applySlash :: "ValidatorGovernance \<Rightarrow> string \<Rightarrow> bigint \<Rightarrow> ValidatorGovernance" where
  "applySlash g i amount =
     (if amount \<le> 0 then g
      else case jget (registry g) i of None \<Rightarrow> g
      | Some v \<Rightarrow>
          if \<not> active v then g
          else
            let newStake = (if infoStake v > amount then infoStake v - amount else 0)
            in recalcVotingPower (g\<lparr>registry := jset i (v\<lparr>infoStake := newStake, active := (newStake \<noteq> 0)\<rparr>) (registry g)\<rparr>))"

definition isBelowMinStake :: "ValidatorGovernance \<Rightarrow> string \<Rightarrow> bool" where
  "isBelowMinStake g i = (case jget (registry g) i of None \<Rightarrow> False | Some v \<Rightarrow> infoStake v < minStake (govConfig g))"

definition deactivateValidator :: "ValidatorGovernance \<Rightarrow> string \<Rightarrow> ValidatorGovernance" where
  "deactivateValidator g i =
     (case jget (registry g) i of None \<Rightarrow> g
      | Some v \<Rightarrow>
          if \<not> active v then g
          else recalcVotingPower (g\<lparr>registry := jset i (v\<lparr>active := False\<rparr>) (registry g)\<rparr>))"

definition getMinStake :: "ValidatorGovernance \<Rightarrow> bigint" where
  "getMinStake g = minStake (govConfig g)"


section \<open>Voting power\<close>

definition registry_ok :: "ValidatorGovernance \<Rightarrow> bool" where
  "registry_ok g \<longleftrightarrow> jmap_ok (registry g) \<and> (\<forall>(k, v)\<in>set (registry g). infoId v = k)"

definition activeStake :: "ValidatorGovernance \<Rightarrow> bigint" where
  "activeStake g = sum_list (map infoStake (getActiveValidators g))"

definition power_of :: "bigint \<Rightarrow> ValidatorInfo \<Rightarrow> int" where
  "power_of T v = (if active v \<and> T > 0 then (infoStake v * 10000) sdiv T else 0)"

lemma recalc_registry:
  assumes "registry_ok g"
  shows "registry (recalcVotingPower g) =
    map (\<lambda>(k, v). (k, v\<lparr>votingPower := power_of (activeStake g) v\<rparr>)) (registry g)"
proof -
  let ?T = "activeStake g"
  have T: "foldl (\<lambda>sum v. sum + infoStake v) 0 (getActiveValidators g) = ?T"
    by (simp add: activeStake_def foldl_add_sum_list)
  let ?f = "\<lambda>v. v\<lparr>votingPower := (if ?T > 0 then (infoStake v * 10000) sdiv ?T else 0)\<rparr>"
  let ?m = "map (\<lambda>(k, v). (k, if active v then ?f v else v)) (registry g)"
  have 1: "foldl (\<lambda>m v. jset (infoId v) (?f v) m) (registry g) (getActiveValidators g) = ?m"
    unfolding getActiveValidators_def foldl_filter
    using assms by (intro rewrite_values) (auto simp: registry_ok_def)
  have ok: "jmap_ok ?m" "\<forall>(k, v)\<in>set ?m. infoId v = k"
    using assms by (auto simp: registry_ok_def jmap_ok_def comp_def case_prod_beta)
  show ?thesis
    unfolding recalcVotingPower_def Let_def T 1 rewrite_values [OF ok]
    by (auto simp: power_of_def)
qed

lemma recalc_frame [simp]:
  "govConfig (recalcVotingPower g) = govConfig g" "proposals (recalcVotingPower g) = proposals g"
  "treasuryBalance (recalcVotingPower g) = treasuryBalance g" "currentEpoch (recalcVotingPower g) = currentEpoch g"
  "nextProposalId (recalcVotingPower g) = nextProposalId g" "factions (recalcVotingPower g) = factions g"
  by (simp_all add: recalcVotingPower_def Let_def)

text \<open>What a validator is apart from its voting power, and the membership it gives.\<close>

definition membership :: "ValidatorGovernance \<Rightarrow> (string \<times> bigint \<times> bool) list" where
  "membership g = map (\<lambda>(k, v). (k, infoStake v, active v)) (registry g)"

lemma recalc_membership: "registry_ok g \<Longrightarrow> membership (recalcVotingPower g) = membership g"
  by (simp add: membership_def recalc_registry comp_def case_prod_beta)

lemma activeCount_membership: "activeCount g = int (length (filter (\<lambda>(k, s, a). a) (membership g)))"
proof -
  have "foldl (\<lambda>c v. if active v then c + 1 else c) a vs = a + int (length (filter active vs))"
    for a :: int and vs :: "ValidatorInfo list"
    by (induction vs arbitrary: a) auto
  then show ?thesis
    by (simp add: activeCount_def membership_def filter_map comp_def case_prod_beta)
qed

lemma activeStake_membership: "activeStake g = sum_list (map (\<lambda>(k, s, a). if a then s else 0) (membership g))"
proof -
  have "sum_list (map infoStake (filter active vs)) = sum_list (map (\<lambda>v. if active v then infoStake v else 0) vs)"
    for vs :: "ValidatorInfo list"
    by (induction vs) auto
  then show ?thesis
    by (simp add: activeStake_def getActiveValidators_def membership_def comp_def case_prod_beta cong: if_cong)
qed

definition powers_ok :: "ValidatorGovernance \<Rightarrow> bool" where
  "powers_ok g \<longleftrightarrow> (\<forall>(k, v)\<in>set (registry g). votingPower v = power_of (activeStake g) v)"

lemma recalc_ok:
  assumes "registry_ok g"
  shows "registry_ok (recalcVotingPower g)" and "powers_ok (recalcVotingPower g)"
proof -
  show "registry_ok (recalcVotingPower g)"
    using assms by (auto simp: registry_ok_def recalc_registry jmap_ok_def comp_def case_prod_beta)
  have "activeStake (recalcVotingPower g) = activeStake g"
    by (simp add: activeStake_membership recalc_membership [OF assms])
  then show "powers_ok (recalcVotingPower g)"
    by (auto simp: powers_ok_def recalc_registry [OF assms] power_of_def)
qed

lemma registry_ok_jset: "registry_ok g \<Longrightarrow> infoId v = i \<Longrightarrow> registry_ok (g\<lparr>registry := jset i v (registry g)\<rparr>)"
  by (auto simp: registry_ok_def jball_iff split: if_splits)


section \<open>Proposals\<close>

definition snapshotStake :: "GovernanceProposal \<Rightarrow> bigint" where
  "snapshotStake p = sum_list (map snd (voterSnapshot p))"

text \<open>The stake of the electorate's members that approve, counted once for each ballot.\<close>

definition approvals :: "GovernanceProposal \<Rightarrow> string set" where
  "approvals p = {i. jget (ballots p) i = Some True}"

definition approvalStake :: "GovernanceProposal \<Rightarrow> bigint" where
  "approvalStake p = (\<Sum>i\<in>approvals p. get_or 0 (voterSnapshot p) i)"

definition approved_ok :: "GovernanceConfig \<Rightarrow> GovernanceProposal \<Rightarrow> bool" where
  "approved_ok cfg p \<longleftrightarrow>
     approvalThresholdPercent cfg * snapshotStake p \<le> 100 * approvalStake p \<and> 0 < snapshotStake p"

definition ballots_ok :: "GovernanceProposal \<Rightarrow> bool" where
  "ballots_ok p \<longleftrightarrow> jmap_ok (ballots p) \<and> fst ` set (ballots p) \<subseteq> fst ` set (voterSnapshot p)"

lemma sum_ballots:
  "sum_list (map (\<lambda>(i, b). if b then f i else 0) bs) = (sum_list (map f (map fst (filter snd bs))) :: int)"
  by (induction bs) auto

lemma tally_approval:
  assumes "jmap_ok (ballots p)"
  shows "snd (tally p) = approvalStake p"
proof -
  let ?s = "get_or 0 (voterSnapshot p)"
  have "snd (foldl (\<lambda>(voted, approval) (voter, approve).
      case jget (voterSnapshot p) voter of None \<Rightarrow> (voted, approval)
      | Some s \<Rightarrow> (voted + s, if approve then approval + s else approval)) a bs) =
      snd a + sum_list (map (\<lambda>(i, b). if b then ?s i else 0) bs)" for a bs
    by (induction bs arbitrary: a) (auto simp: get_or_def split: option.splits)
  then have "snd (tally p) = sum_list (map (\<lambda>(i, b). if b then ?s i else 0) (ballots p))"
    by (simp add: tally_def)
  also have "\<dots> = sum_list (map ?s (map fst (filter snd (ballots p))))"
    by (rule sum_ballots)
  also have "\<dots> = (\<Sum>i\<in>fst ` set (filter snd (ballots p)). ?s i)"
    using assms by (subst sum_list_distinct_conv_sum_set) (simp_all add: jmap_ok_def distinct_map_filter)
  also have "fst ` set (filter snd (ballots p)) = approvals p"
    using assms by (force simp: approvals_def jget_iff)
  finally show ?thesis by (simp add: approvalStake_def)
qed

definition proposals_ok :: "ValidatorGovernance \<Rightarrow> bool" where
  "proposals_ok g \<longleftrightarrow>
     jmap_ok (proposals g) \<and>
     (\<forall>(i, p)\<in>set (proposals g). ballots_ok p \<and> (status p = Approved \<longrightarrow> approved_ok (govConfig g) p))"

definition governance_inv :: "ValidatorGovernance \<Rightarrow> bool" where
  "governance_inv g \<longleftrightarrow> registry_ok g \<and> powers_ok g \<and> proposals_ok g"

lemma governance_inv_same_registry:
  assumes "governance_inv g" and "registry g' = registry g" and "proposals_ok g'"
  shows "governance_inv g'"
  using assms
  by (simp add: governance_inv_def registry_ok_def powers_ok_def activeStake_def getActiveValidators_def)

lemma governance_inv_proposals: "governance_inv g \<Longrightarrow> proposals_ok g"
  by (simp add: governance_inv_def)

text \<open>Executing a proposal touches the registry only.\<close>

lemma executeProposal_frame [simp]:
  "proposals (executeProposal g p) = proposals g" "govConfig (executeProposal g p) = govConfig g"
  "treasuryBalance (executeProposal g p) = treasuryBalance g" "nextProposalId (executeProposal g p) = nextProposalId g"
  by (simp_all add: executeProposal_def split: ProposalType.split option.split)

lemma executeProposal_cases:
  assumes "registry_ok g"
  obtains (kept) "executeProposal g p = g"
  | (changed) v where "infoId v = targetId p"
      "executeProposal g p = recalcVotingPower (g\<lparr>registry := jset (targetId p) v (registry g)\<rparr>)"
      "active v \<and> activeCount g < maxValidators (govConfig g) \<or> \<not> active v \<and> 1 < activeCount g \<or>
       active v \<and> isActive g (targetId p)"
proof -
  have id: "infoId v = i" if "jget (registry g) i = Some v" for i v
    using assms that by (auto simp: registry_ok_def jball_iff)
  show ?thesis
  proof (cases "proposalType p")
    case AddValidator
    show ?thesis
    proof (cases "activeCount g \<ge> maxValidators (govConfig g)")
      case True
      then show ?thesis using AddValidator by (intro kept) (simp add: executeProposal_def)
    next
      case False
      show ?thesis
        by (rule changed [of "\<lparr>infoId = targetId p, infoAddress = (case targetAddress p of None \<Rightarrow> [] | Some a \<Rightarrow> a),
             infoStake = (case stakeAmount p of None \<Rightarrow> minStake (govConfig g) | Some a \<Rightarrow> a),
             joinedAtEpoch = currentEpoch g, active = True, votingPower = 0\<rparr>"])
          (use AddValidator False in \<open>simp_all add: executeProposal_def\<close>)
    qed
  next
    case RemoveValidator
    show ?thesis
    proof (cases "activeCount g \<le> 1 \<or> jget (registry g) (targetId p) = None")
      case True
      then show ?thesis using RemoveValidator by (intro kept) (auto simp: executeProposal_def)
    next
      case False
      then obtain v where v: "jget (registry g) (targetId p) = Some v" by auto
      show ?thesis
        by (rule changed [of "v\<lparr>active := False\<rparr>"])
          (use RemoveValidator False v id [OF v] in \<open>simp_all add: executeProposal_def\<close>)
    qed
  next
    case UpdateStake
    show ?thesis
    proof (cases "\<exists>v a. jget (registry g) (targetId p) = Some v \<and> stakeAmount p = Some a \<and> active v \<and> a \<ge> minStake (govConfig g)")
      case True
      then obtain v a where v: "jget (registry g) (targetId p) = Some v" and a: "stakeAmount p = Some a" "active v"
          "a \<ge> minStake (govConfig g)" by auto
      show ?thesis
        by (rule changed [of "v\<lparr>infoStake := a\<rparr>"])
          (use UpdateStake v a id [OF v] in \<open>simp_all add: executeProposal_def isActive_def\<close>)
    next
      case False
      then show ?thesis using UpdateStake by (intro kept) (auto simp: executeProposal_def split: option.split)
    qed
  qed
qed

lemma executeProposal_registry:
  assumes "registry_ok g" and "powers_ok g"
  shows "registry_ok (executeProposal g p) \<and> powers_ok (executeProposal g p)"
  using assms(1)
proof (cases rule: executeProposal_cases [where p = p])
  case kept
  with assms show ?thesis by simp
next
  case (changed v)
  then show ?thesis using recalc_ok [OF registry_ok_jset [OF assms(1) changed(1)]] by simp
qed

lemma sdiv_le_zero: "a < 0 \<Longrightarrow> 0 < b \<Longrightarrow> a sdiv b \<le> (0 :: int)"
  by (simp add: signed_divide_int_def pos_imp_zdiv_nonneg_iff)

lemma approval_threshold:
  assumes "0 < t" and "t * 100 \<le> (if T > 0 then (A * 10000) sdiv T else 0)"
  shows "t * T \<le> 100 * A \<and> 0 < (T :: int)"
proof -
  have T: "0 < T" using assms by (cases "0 < T") auto
  then have A: "0 \<le> A" using assms sdiv_le_zero [of "A * 10000" T] by (cases "A < 0") auto
  have "t * 100 \<le> A * 10000 div T" using assms(2) T A by simp
  then have "t * 100 * T \<le> A * 10000 div T * T" using T by (intro mult_right_mono) auto
  also have "\<dots> \<le> A * 10000" using T by (simp add: div_mult_self_is_m [symmetric] minus_mod_eq_div_mult [symmetric])
  finally show ?thesis using T by (simp add: mult.commute)
qed

text \<open>What resolving a pending proposal can do.\<close>

lemma resolveProposal_cases:
  assumes "jget (proposals g) i = Some p" and "status p = Pending" and "ballots_ok p"
  obtains (approved) "resolveProposal g i =
      (executeProposal g p)\<lparr>proposals := jset i (p\<lparr>status := Approved\<rparr>) (proposals g)\<rparr>"
      "0 < approvalThresholdPercent (govConfig g) \<Longrightarrow> approved_ok (govConfig g) p"
  | (rejected) "resolveProposal g i = g\<lparr>proposals := jset i (p\<lparr>status := Rejected\<rparr>) (proposals g)\<rparr>"
  | (open_still) "resolveProposal g i = g"
proof -
  let ?T = "snapshotStake p" and ?t = "approvalThresholdPercent (govConfig g)"
  define part where "part = (if ?T > 0 then (fst (tally p) * 10000) sdiv ?T else 0)"
  define appr where "appr = (if ?T > 0 then (approvalStake p * 10000) sdiv ?T else 0)"
  have T: "foldl (\<lambda>sum s. sum + s) 0 (map snd (voterSnapshot p)) = ?T"
    by (simp add: snapshotStake_def foldl_add_sum_list [where f = "\<lambda>s. s"])
  have t: "tally p = (fst (tally p), approvalStake p)"
    using tally_approval [of p] assms(3) by (cases "tally p") (simp add: ballots_ok_def)
  have res: "resolveProposal g i =
      (if part < minVoterPercent (govConfig g) * 100 then g
       else if appr \<ge> ?t * 100 then (executeProposal g p)\<lparr>proposals := jset i (p\<lparr>status := Approved\<rparr>) (proposals g)\<rparr>
       else if part \<ge> 10000 then g\<lparr>proposals := jset i (p\<lparr>status := Rejected\<rparr>) (proposals g)\<rparr>
       else g)"
    unfolding resolveProposal_def assms(1) option.case T Let_def part_def appr_def
    by (subst t) (simp add: assms)
  have "approved_ok (govConfig g) p" if "appr \<ge> ?t * 100" "0 < ?t"
    unfolding approved_ok_def by (rule approval_threshold [OF that(2) that(1) [unfolded appr_def]])
  then show ?thesis using res approved rejected open_still by (auto split: if_splits)
qed

lemma proposals_ok_update:
  assumes "proposals_ok g" and "ballots_ok p" and "status p = Approved \<Longrightarrow> approved_ok (govConfig g) p"
  shows "proposals_ok (g\<lparr>proposals := jset i p (proposals g)\<rparr>)"
  using assms by (auto simp: proposals_ok_def jball_iff split: if_splits)

lemma approved_ok_status [simp]: "approved_ok cfg (p\<lparr>status := s\<rparr>) = approved_ok cfg p"
  by (simp add: approved_ok_def snapshotStake_def approvalStake_def approvals_def)

lemma ballots_ok_status [simp]: "ballots_ok (p\<lparr>status := s\<rparr>) = ballots_ok p"
  by (simp add: ballots_ok_def)

lemma vote_cases:
  assumes "governance_inv g" and "vote g i voterId approve = Inr g'"
  obtains p where "jget (proposals g) i = Some p" "status p = Pending" "jhas (voterSnapshot p) voterId"
    "jget (ballots p) voterId = None"
    "ballots_ok (p\<lparr>ballots := jset voterId approve (ballots p)\<rparr>)"
    "g' = resolveProposal (g\<lparr>proposals := jset i (p\<lparr>ballots := jset voterId approve (ballots p)\<rparr>) (proposals g)\<rparr>) i"
proof -
  obtain p where p: "jget (proposals g) i = Some p" "status p = Pending" "jhas (voterSnapshot p) voterId"
      "jget (ballots p) voterId = None"
    "g' = resolveProposal (g\<lparr>proposals := jset i (p\<lparr>ballots := jset voterId approve (ballots p)\<rparr>) (proposals g)\<rparr>) i"
    using assms(2) by (auto simp: vote_def split: option.splits if_splits)
  moreover have "ballots_ok p" using assms(1) p(1) by (auto simp: governance_inv_def proposals_ok_def jball_iff)
  then have "ballots_ok (p\<lparr>ballots := jset voterId approve (ballots p)\<rparr>)"
    using p(3) jhas_iff [of "voterSnapshot p" voterId] by (auto simp: ballots_ok_def)
  ultimately show ?thesis using that by blast
qed

lemma resolveProposal_inv:
  assumes "governance_inv g" and "0 < approvalThresholdPercent (govConfig g)"
    and "jget (proposals g) i = Some p" and "status p = Pending"
  shows "governance_inv (resolveProposal g i) \<and> govConfig (resolveProposal g i) = govConfig g"
proof -
  have ok: "ballots_ok p" using assms(1,3) by (auto simp: governance_inv_def proposals_ok_def jball_iff)
  have reg: "registry_ok (g'\<lparr>proposals := ps\<rparr>) = registry_ok g'" "powers_ok (g'\<lparr>proposals := ps\<rparr>) = powers_ok g'" for g' ps
    by (simp_all add: registry_ok_def powers_ok_def activeStake_def getActiveValidators_def)
  from assms(3,4) ok show ?thesis
  proof (cases rule: resolveProposal_cases)
    case approved
    have "proposals_ok (executeProposal g p)" using assms(1) by (simp add: governance_inv_def proposals_ok_def)
    from proposals_ok_update [OF this, of "p\<lparr>status := Approved\<rparr>" i]
    have "proposals_ok ((executeProposal g p)\<lparr>proposals := jset i (p\<lparr>status := Approved\<rparr>) (proposals g)\<rparr>)"
      using approved(2) [OF assms(2)] ok by simp
    then show ?thesis
      using assms(1) executeProposal_registry [of g p] by (simp add: approved(1) governance_inv_def reg)
  next
    case rejected
    then show ?thesis
      using assms(1) ok proposals_ok_update [of g "p\<lparr>status := Rejected\<rparr>" i] by (simp add: governance_inv_def reg)
  next
    case open_still
    then show ?thesis using assms(1) by simp
  qed
qed

lemma vote_inv:
  assumes "governance_inv g" and "0 < approvalThresholdPercent (govConfig g)" and "vote g i voterId approve = Inr g'"
  shows "governance_inv g' \<and> govConfig g' = govConfig g"
  using assms(1,3)
proof (cases rule: vote_cases)
  case (1 p)
  let ?p = "p\<lparr>ballots := jset voterId approve (ballots p)\<rparr>"
  let ?g = "g\<lparr>proposals := jset i ?p (proposals g)\<rparr>"
  have "proposals_ok ?g"
    using proposals_ok_update [OF governance_inv_proposals [OF assms(1)], of ?p i] 1(2,5) by simp
  then have "governance_inv ?g" by (rule governance_inv_same_registry [OF assms(1), rotated]) simp
  from resolveProposal_inv [OF this, of i ?p] show ?thesis using 1(2,6) assms(2) by simp
qed


section \<open>Reachable states\<close>

text \<open>Governance moves, and the two moves of the slashing handler.\<close>

inductive gov_step :: "ValidatorGovernance \<Rightarrow> ValidatorGovernance \<Rightarrow> bool" where
  submit: "gov_step g (fst (submitProposal g ty target by_id address amount))"
| ballot: "vote g i voterId approve = Inr g' \<Longrightarrow> gov_step g g'"
| epoch: "gov_step g (advanceEpoch g e)"
| prune: "gov_step g (fst (pruneProposals g retention))"
| deposit: "depositTreasury g amount = Inr g' \<Longrightarrow> gov_step g g'"
| join_faction: "gov_step g (setFaction g address f)"

inductive slash_step :: "ValidatorGovernance \<Rightarrow> ValidatorGovernance \<Rightarrow> bool" where
  slash: "slash_step g (applySlash g i amount)"
| deactivate: "slash_step g (deactivateValidator g i)"

inductive governed :: "bool \<Rightarrow> GovernanceConfig \<Rightarrow> GenesisValidator list \<Rightarrow> ValidatorGovernance \<Rightarrow> bool"
    for slashing cfg vs where
  genesis: "governed slashing cfg vs (initGenesis (newGovernance cfg) vs)"
| gov: "governed slashing cfg vs g \<Longrightarrow> gov_step g g' \<Longrightarrow> governed slashing cfg vs g'"
| slashed: "governed slashing cfg vs g \<Longrightarrow> slashing \<Longrightarrow> slash_step g g' \<Longrightarrow> governed slashing cfg vs g'"

lemma genesis_registry_ok:
  "registry_ok (g\<lparr>registry := foldl (\<lambda>m v. jset (genesisId v)
       \<lparr>infoId = genesisId v, infoAddress = genesisAddress v, infoStake = genesisStake v, joinedAtEpoch = 0,
        active = True, votingPower = 0\<rparr> m) [] vs\<rparr>)"
proof (induction vs rule: rev_induct)
  case (snoc v vs)
  from registry_ok_jset [OF this, of "\<lparr>infoId = genesisId v, infoAddress = genesisAddress v, infoStake = genesisStake v,
      joinedAtEpoch = 0, active = True, votingPower = 0\<rparr>" "genesisId v"] show ?case by simp
qed (simp add: registry_ok_def)

lemma initGenesis_inv: "governance_inv (initGenesis (newGovernance cfg) vs)"
proof -
  note recalc_ok [OF genesis_registry_ok [where g = "newGovernance cfg" and vs = vs]]
  then show ?thesis by (simp add: governance_inv_def initGenesis_def proposals_ok_def newGovernance_def)
qed

lemma pruneProposals_frame [simp]:
  "registry (fst (pruneProposals g r)) = registry g" "govConfig (fst (pruneProposals g r)) = govConfig g"
  by (simp_all add: pruneProposals_def Let_def)

lemma pruneProposals_inv: "governance_inv g \<Longrightarrow> governance_inv (fst (pruneProposals g r))"
  by (rule governance_inv_same_registry)
    (auto simp: proposals_ok_def pruneProposals_def Let_def dest!: governance_inv_proposals)

lemma advanceEpoch_frame [simp]:
  "registry (advanceEpoch g e) = registry g" "govConfig (advanceEpoch g e) = govConfig g"
  by (simp_all add: advanceEpoch_def Let_def)

lemma advanceEpoch_inv:
  assumes "governance_inv g"
  shows "governance_inv (advanceEpoch g e)"
proof -
  have "governance_inv (g\<lparr>currentEpoch := e, proposals := map (\<lambda>(i, p). (i, if status p = Pending \<and> e \<ge> expiresAtEpoch p
      then p\<lparr>status := Expired\<rparr> else p)) (proposals g)\<rparr>)"
    using governance_inv_proposals [OF assms]
    by (intro governance_inv_same_registry [OF assms])
      (auto simp: proposals_ok_def jmap_ok_def comp_def case_prod_beta)
  from pruneProposals_inv [OF this] show ?thesis by (simp add: advanceEpoch_def)
qed

lemma submitProposal_frame [simp]:
  "registry (fst (submitProposal g ty target by_id address amount)) = registry g"
  "govConfig (fst (submitProposal g ty target by_id address amount)) = govConfig g"
  by (simp_all add: submitProposal_def Let_def split: option.split)

lemma submitProposal_inv:
  assumes "governance_inv g"
  shows "governance_inv (fst (submitProposal g ty target by_id address amount))"
proof -
  have "proposals_ok (g\<lparr>nextProposalId := n, proposals := jset i p (proposals g)\<rparr>)" if "ballots p = []" "status p = Pending" for n i p
    using proposals_ok_update [OF governance_inv_proposals [OF assms], of p i] that
    by (simp add: proposals_ok_def ballots_ok_def)
  then show ?thesis
    using assms by (auto simp: submitProposal_def Let_def split: option.split intro: governance_inv_same_registry)
qed

lemma slash_step_inv:
  assumes "governance_inv g" and "slash_step g g'"
  shows "governance_inv g' \<and> govConfig g' = govConfig g"
proof -
  have reg: "registry_ok g" using assms(1) by (simp add: governance_inv_def)
  have id: "infoId v = i" if "jget (registry g) i = Some v" for i v
    using reg that by (auto simp: registry_ok_def jball_iff)
  have upd: "governance_inv (recalcVotingPower (g\<lparr>registry := jset i v (registry g)\<rparr>))" if "infoId v = i" for i v
    using recalc_ok [OF registry_ok_jset [OF reg that]] assms(1) by (simp add: governance_inv_def proposals_ok_def)
  show ?thesis
    using assms(2)
  proof cases
    case (slash i amount)
    then show ?thesis using assms(1)
      by (auto simp: applySlash_def Let_def split: option.split intro!: upd dest!: id)
  next
    case (deactivate i)
    then show ?thesis using assms(1)
      by (auto simp: deactivateValidator_def split: option.split intro!: upd dest!: id)
  qed
qed

lemma gov_step_inv:
  assumes "governance_inv g" and "0 < approvalThresholdPercent (govConfig g)" and "gov_step g g'"
  shows "governance_inv g' \<and> govConfig g' = govConfig g"
  using assms(3)
proof cases
  case (ballot i voterId approve)
  show ?thesis by (rule vote_inv [OF assms(1,2) ballot])
next
  case (deposit amount)
  then have "registry g' = registry g" "govConfig g' = govConfig g" "proposals g' = proposals g"
    by (auto simp: depositTreasury_def split: if_splits)
  then show ?thesis
    using governance_inv_same_registry [OF assms(1)] governance_inv_proposals [OF assms(1)] by (simp add: proposals_ok_def)
next
  case (join_faction address f)
  then have "registry g' = registry g" "govConfig g' = govConfig g" "proposals g' = proposals g"
    by (simp_all add: setFaction_def)
  then show ?thesis
    using governance_inv_same_registry [OF assms(1)] governance_inv_proposals [OF assms(1)] by (simp add: proposals_ok_def)
qed (use assms(1) in \<open>simp_all add: submitProposal_inv advanceEpoch_inv pruneProposals_inv\<close>)

lemma governed_inv:
  assumes "governed slashing cfg vs g" and "0 < approvalThresholdPercent cfg"
  shows "governance_inv g \<and> govConfig g = cfg"
  using assms(1)
proof induction
  case genesis
  show ?case using initGenesis_inv [of cfg vs] by (simp add: initGenesis_def newGovernance_def)
next
  case (gov g g')
  then show ?case using gov_step_inv [of g g'] assms(2) by simp
next
  case (slashed g g')
  then show ?case using slash_step_inv [of g g'] by simp
qed


section \<open>The size of the active set\<close>

lemma filter_jset_length:
  assumes "jmap_ok m"
  shows "int (length (filter (\<lambda>(k, v). P v) (jset i v m))) =
    int (length (filter (\<lambda>(k, v). P v) m)) - (case jget m i of Some w \<Rightarrow> if P w then 1 else 0 | None \<Rightarrow> 0) +
    (if P v then 1 else 0)"
  using assms
proof (induction m)
  case (Cons e m)
  then show ?case
    by (cases e) (auto simp: jmap_ok_def split: option.splits dest: map_of_SomeD)
qed simp

lemma activeCount_filter: "activeCount g = int (length (filter (\<lambda>(k, v). active v) (registry g)))"
  by (auto simp: activeCount_membership membership_def filter_map intro!: arg_cong [of _ _ length] filter_cong)

lemma activeCount_jset:
  assumes "registry_ok g" and "infoId v = i"
  shows "activeCount (recalcVotingPower (g\<lparr>registry := jset i v (registry g)\<rparr>)) =
    activeCount g - (if isActive g i then 1 else 0) + (if active v then 1 else 0)"
proof -
  have "activeCount (recalcVotingPower (g\<lparr>registry := jset i v (registry g)\<rparr>)) =
      activeCount (g\<lparr>registry := jset i v (registry g)\<rparr>)"
    unfolding activeCount_membership by (simp add: recalc_membership [OF registry_ok_jset [OF assms]])
  then show ?thesis
    using assms(1) filter_jset_length [of "registry g" active i v]
    by (auto simp: activeCount_filter registry_ok_def isActive_def split: option.splits)
qed

definition active_bounds :: "ValidatorGovernance \<Rightarrow> bool" where
  "active_bounds g \<longleftrightarrow> 1 \<le> activeCount g \<and> activeCount g \<le> maxValidators (govConfig g)"

lemma executeProposal_bounds:
  assumes "registry_ok g" and "active_bounds g"
  shows "active_bounds (executeProposal g p)"
  using assms(1)
proof (cases rule: executeProposal_cases [where p = p])
  case kept
  with assms(2) show ?thesis by simp
next
  case (changed v)
  then show ?thesis
    using assms(2) activeCount_jset [OF assms(1) changed(1)] by (auto simp: active_bounds_def)
qed

lemma active_bounds_registry:
  "registry g' = registry g \<Longrightarrow> govConfig g' = govConfig g \<Longrightarrow> active_bounds g' = active_bounds g"
  by (simp add: active_bounds_def activeCount_def)

lemma vote_bounds:
  assumes "governance_inv g" and "active_bounds g" and "vote g i voterId approve = Inr g'"
  shows "active_bounds g'"
  using assms(1,3)
proof (cases rule: vote_cases)
  case (1 p)
  let ?p = "p\<lparr>ballots := jset voterId approve (ballots p)\<rparr>"
  let ?g = "g\<lparr>proposals := jset i ?p (proposals g)\<rparr>"
  have reg: "registry_ok ?g" "active_bounds ?g"
    using assms(1,2) by (simp_all add: governance_inv_def registry_ok_def active_bounds_def activeCount_def)
  have look: "jget (proposals ?g) i = Some ?p" "status ?p = Pending" using 1(2) by simp_all
  show ?thesis using look 1(5)
  proof (cases rule: resolveProposal_cases)
    case approved
    then show ?thesis
      using executeProposal_bounds [OF reg, of ?p] 1(6)
      by (simp add: active_bounds_def activeCount_def)
  qed (use 1(6) reg(2) in \<open>simp_all add: active_bounds_def activeCount_def\<close>)
qed

lemma governed_bounds:
  assumes "governed False cfg vs g" and "0 < approvalThresholdPercent cfg"
    and "active_bounds (initGenesis (newGovernance cfg) vs)"
  shows "active_bounds g"
  using assms(1)
proof induction
  case genesis
  show ?case by (fact assms(3))
next
  case (gov g g')
  have inv: "governance_inv g" using governed_inv [OF gov.hyps(1) assms(2)] by blast
  have same: "active_bounds g'" if "registry g' = registry g" "govConfig g' = govConfig g" for g'
    using active_bounds_registry [OF that] gov.IH by simp
  from gov.hyps(2) show ?case
  proof cases
    case (ballot i voterId approve)
    from vote_bounds [OF inv gov.IH ballot] show ?thesis .
  next
    case (deposit amount)
    then have "registry g' = registry g" "govConfig g' = govConfig g"
      by (auto simp: depositTreasury_def split: if_splits)
    then show ?thesis by (rule same)
  qed (rule same; simp add: setFaction_def)+
qed simp


section \<open>Properties\<close>

text \<open>
  (C26) The electorate decides. In every state that governance and slashing can reach, a proposal marked
  approved carries ballots of members of its creation-time electorate only, at most one each, and the members
  that approve hold at least the configured percentage of the stake of that snapshot, whatever
  happened to the validator set while it was open.
\<close>

theorem approved_has_threshold:
  assumes "governed slashing cfg vs g" and "0 < approvalThresholdPercent cfg"
    and "getProposal g i = Some p" and "status p = Approved"
  shows "approvals p \<subseteq> fst ` set (voterSnapshot p) \<and> distinct (map fst (ballots p)) \<and>
    approvalThresholdPercent cfg * snapshotStake p \<le> 100 * approvalStake p \<and> 0 < snapshotStake p"
proof -
  have "proposals_ok g" "govConfig g = cfg"
    using governed_inv [OF assms(1,2)] by (auto simp: governance_inv_def)
  then have "ballots_ok p" "approved_ok cfg p"
    using assms(3,4) by (auto simp: proposals_ok_def jball_iff getProposal_def)
  moreover from this(1) have "approvals p \<subseteq> fst ` set (voterSnapshot p)"
    by (force simp: ballots_ok_def approvals_def dest!: map_of_SomeD)
  ultimately show ?thesis by (simp add: approved_ok_def ballots_ok_def jmap_ok_def)
qed

definition demo_gov_cfg :: GovernanceConfig where
  "demo_gov_cfg = DEFAULT_GOVERNANCE\<lparr>minStake := 1, maxValidators := 3\<rparr>"

definition demo_genesis :: "GenesisValidator list" where
  "demo_genesis = [\<lparr>genesisId = ''a'', genesisAddress = ''0xa'', genesisStake = 3\<rparr>,
     \<lparr>genesisId = ''b'', genesisAddress = ''0xb'', genesisStake = 1\<rparr>]"

definition demo_gov :: ValidatorGovernance where
  "demo_gov = fst (submitProposal (initGenesis (newGovernance demo_gov_cfg) demo_genesis) AddValidator ''c'' ''b''
     (Some ''0xc'') (Some 4))"

definition demo_approved :: ValidatorGovernance where
  "demo_approved = (case vote demo_gov ''proposal-1'' ''a'' True of Inr g \<Rightarrow> g | Inl e \<Rightarrow> demo_gov)"

lemma demo_governed: "governed slashing demo_gov_cfg demo_genesis demo_approved"
proof -
  have gov: "governed slashing demo_gov_cfg demo_genesis demo_gov"
    unfolding demo_gov_def by (rule governed.gov [OF governed.genesis gov_step.submit])
  have "vote demo_gov ''proposal-1'' ''a'' True = Inr demo_approved" by code_simp
  from governed.gov [OF gov gov_step.ballot [OF this]] show ?thesis .
qed

theorem approved_has_threshold_witness:
  "\<exists>p. getProposal demo_approved ''proposal-1'' = Some p \<and> status p = Approved \<and>
     map fst (registry demo_approved) = [''a'', ''b'', ''c''] \<and> 67 * snapshotStake p \<le> 100 * approvalStake p"
proof -
  have "(case getProposal demo_approved ''proposal-1'' of None \<Rightarrow> False | Some p \<Rightarrow> status p = Approved)"
    "map fst (registry demo_approved) = [''a'', ''b'', ''c'']"
    "0 < approvalThresholdPercent demo_gov_cfg" "approvalThresholdPercent demo_gov_cfg = 67" by code_simp+
  then show ?thesis
    using approved_has_threshold [OF demo_governed, of "''proposal-1''"] by (auto split: option.splits)
qed

text \<open>
  (C27) Governance alone never empties or overfills the validator set: from a genesis set of one to
  \<open>maxValidators\<close> active validators, proposals, votes, epochs, deposits and factions keep at least one
  validator active and at most \<open>maxValidators\<close>, although several add or remove proposals may be open at once.
\<close>

theorem active_set_bounded:
  assumes "governed False cfg vs g" and "0 < approvalThresholdPercent cfg"
    and "1 \<le> activeCount (initGenesis (newGovernance cfg) vs)"
    and "activeCount (initGenesis (newGovernance cfg) vs) \<le> maxValidators cfg"
  shows "1 \<le> activeCount g \<and> activeCount g \<le> maxValidators cfg"
proof -
  have "active_bounds (initGenesis (newGovernance cfg) vs)"
    using assms(3,4) by (simp add: active_bounds_def initGenesis_def newGovernance_def)
  from governed_bounds [OF assms(1,2) this] show ?thesis
    using governed_inv [OF assms(1,2)] by (simp add: active_bounds_def)
qed

theorem active_set_bounded_witness:
  "activeCount demo_approved = 3 \<and> activeCount demo_approved \<le> maxValidators demo_gov_cfg"
proof -
  have "activeCount demo_approved = 3" "0 < approvalThresholdPercent demo_gov_cfg"
    "1 \<le> activeCount (initGenesis (newGovernance demo_gov_cfg) demo_genesis)"
    "activeCount (initGenesis (newGovernance demo_gov_cfg) demo_genesis) \<le> maxValidators demo_gov_cfg" by code_simp+
  with active_set_bounded [OF demo_governed] show ?thesis by blast
qed

lemma sum_div_le:
  assumes "0 < (T :: int)" and "\<forall>x\<in>set xs. 0 \<le> x"
  shows "sum_list (map (\<lambda>x. x * 10000 div T) xs) * T \<le> 10000 * sum_list xs"
  using assms(2)
proof (induction xs)
  case (Cons x xs)
  have "x * 10000 div T * T \<le> x * 10000"
    using assms(1) by (simp add: minus_mod_eq_div_mult [symmetric])
  then show ?case using Cons by (simp add: algebra_simps)
qed simp

text \<open>
  Voting power is proportional to stake. In every reachable state an active validator's power
  is its share of the active stake in basis points, rounded down, and an inactive validator has none, so
  the powers of validators with non-negative stakes sum to at most 10000.
\<close>

lemma voting_power_proportional:
  assumes "governed slashing cfg vs g" and "0 < approvalThresholdPercent cfg"
    and "\<forall>v\<in>set (getActiveValidators g). 0 \<le> infoStake v"
  shows "(\<forall>(k, v)\<in>set (registry g). votingPower v =
      (if active v \<and> 0 < activeStake g then infoStake v * 10000 div activeStake g else 0)) \<and>
    sum_list (map (\<lambda>(k, v). votingPower v) (registry g)) \<le> 10000"
proof -
  let ?T = "activeStake g"
  have ok: "powers_ok g" using governed_inv [OF assms(1,2)] by (simp add: governance_inv_def)
  have nn: "0 \<le> infoStake v" if "(k, v) \<in> set (registry g)" "active v" for k v
    using assms(3) that by (force simp: getActiveValidators_def)
  then have pow: "\<forall>(k, v)\<in>set (registry g). votingPower v = (if active v \<and> 0 < ?T then infoStake v * 10000 div ?T else 0)"
    using ok by (fastforce simp: powers_ok_def power_of_def)
  have "map (\<lambda>(k, v). votingPower v) (registry g) =
      map (\<lambda>(k, v). if active v \<and> 0 < ?T then infoStake v * 10000 div ?T else 0) (registry g)"
    using pow by (intro map_cong) auto
  moreover have "sum_list (map (\<lambda>(k, v). if active v \<and> 0 < ?T then infoStake v * 10000 div ?T else 0) m) =
      (if 0 < ?T then sum_list (map (\<lambda>x. x * 10000 div ?T) (map infoStake (filter active (map snd m)))) else 0)" for m :: "(string, ValidatorInfo) jsmap"
    by (induction m) auto
  ultimately have sum: "sum_list (map (\<lambda>(k, v). votingPower v) (registry g)) =
      (if 0 < ?T then sum_list (map (\<lambda>x. x * 10000 div ?T) (map infoStake (getActiveValidators g))) else 0)"
    by (simp only: getActiveValidators_def)
  have "sum_list (map (\<lambda>(k, v). votingPower v) (registry g)) \<le> 10000"
  proof (cases "0 < ?T")
    case True
    have "sum_list (map (\<lambda>x. x * 10000 div ?T) (map infoStake (getActiveValidators g))) * ?T \<le> 10000 * ?T"
      using sum_div_le [OF True, of "map infoStake (getActiveValidators g)"] assms(3) by (simp add: activeStake_def)
    then show ?thesis using True sum by simp
  qed (simp add: sum)
  with pow show ?thesis by blast
qed

end
