(* ===== verification/Equivocation.thy ===== *)
theory Equivocation
  imports Chain_Types
begin

text \<open>
  The equivocation detector: the second half of \<^verbatim>\<open>node/src/bft.ts\<close> (\<^verbatim>\<open>class EquivocationDetector\<close>).
  The vote table is keyed by height, phase and lower-cased validator id; the code keys it by the decimal
  string of the height, which determines the height, so the height itself is the key here. A phase
  is the string the code carries, because evidence from a peer may hold any string there.
  \<^verbatim>\<open>Date.now()\<close>, the canonical vote message and the signature check are arguments.
\<close>

record EquivocationEvidence =
  validatorId :: string
  evHeight :: bigint
  evPhase :: string
  blockHash1 :: hex
  blockHash2 :: hex
  detectedAtMs :: int
  signature1 :: "hex option"
  signature2 :: "hex option"

record TrackedVote =
  tvHash :: hex
  tvSignature :: hex

type_synonym vote_table = "(bigint, (string, (string, TrackedVote) jsmap) jsmap) jsmap"

record EquivocationDetector =
  votes :: vote_table
  evidence :: "EquivocationEvidence list"
  evidenceCountByValidator :: "(string, int) jsmap"
  maxTrackedHeights :: nat
  maxEvidence :: nat
  maxEvidencePerValidator :: int
  droppedTotal :: int

definition newDetector :: "nat \<Rightarrow> nat \<Rightarrow> int \<Rightarrow> EquivocationDetector" where
  "newDetector tracked cap perValidator =
     \<lparr>votes = [], evidence = [], evidenceCountByValidator = [], maxTrackedHeights = tracked,
      maxEvidence = cap, maxEvidencePerValidator = perValidator, droppedTotal = 0\<rparr>"

definition pruneOldHeights :: "EquivocationDetector \<Rightarrow> EquivocationDetector" where
  "pruneOldHeights d =
     (if length (votes d) \<le> maxTrackedHeights d then d
      else
        let heights = sort (map fst (votes d));
            toRemove = length heights - maxTrackedHeights d
        in d\<lparr>votes := foldl (\<lambda>m h. jdel h m) (votes d) (take toRemove heights)\<rparr>)"

text \<open>The validator with the most entries: the scan over the counters, which a larger count replaces.\<close>

definition busier :: "string \<times> int \<Rightarrow> string \<times> int \<Rightarrow> string \<times> int" where
  "busier best entry = (if snd entry > snd best then entry else best)"

definition busiestValidator :: "EquivocationDetector \<Rightarrow> string \<Rightarrow> string" where
  "busiestValidator d nid =
     fst (foldl busier (nid, get_or 0 (evidenceCountByValidator d) nid) (evidenceCountByValidator d))"

definition evictGlobal :: "EquivocationDetector \<Rightarrow> string \<Rightarrow> EquivocationDetector" where
  "evictGlobal d nid =
     (if length (evidence d) \<ge> maxEvidence d then
        let maxValidator = busiestValidator d nid
        in case findIndex (\<lambda>e. validatorId e = maxValidator) (evidence d) of
             None \<Rightarrow> d
           | Some evictIdx \<Rightarrow>
               d\<lparr>evidence := splice_out evictIdx (evidence d),
                 evidenceCountByValidator := jset maxValidator
                   (get_or 1 (evidenceCountByValidator d) maxValidator - 1) (evidenceCountByValidator d)\<rparr>
      else d)"

definition pushEvidence :: "EquivocationDetector \<Rightarrow> EquivocationEvidence \<Rightarrow> EquivocationDetector" where
  "pushEvidence d ev =
     d\<lparr>evidence := evidence d @ [ev],
       evidenceCountByValidator := jset (validatorId ev)
         (min (maxEvidencePerValidator d) (get_or 0 (evidenceCountByValidator d) (validatorId ev) + 1))
         (evidenceCountByValidator d)\<rparr>"

text \<open>
  A validator at its cap loses its oldest entry. \<^verbatim>\<open>recordVote\<close> resets the counter when there is none,
  \<^verbatim>\<open>importEvidence\<close> leaves it.
\<close>

definition evictOwn :: "EquivocationDetector \<Rightarrow> string \<Rightarrow> EquivocationDetector" where
  "evictOwn d nid =
     (if get_or 0 (evidenceCountByValidator d) nid \<ge> maxEvidencePerValidator d then
        case findIndex (\<lambda>e. validatorId e = nid) (evidence d) of
          Some oldestIdx \<Rightarrow> d\<lparr>evidence := splice_out oldestIdx (evidence d)\<rparr>
        | None \<Rightarrow> d\<lparr>evidenceCountByValidator := jset nid 0 (evidenceCountByValidator d),
                    droppedTotal := droppedTotal d + 1\<rparr>
      else d)"

definition evictOwnImport :: "EquivocationDetector \<Rightarrow> string \<Rightarrow> EquivocationDetector" where
  "evictOwnImport d nid =
     (if get_or 0 (evidenceCountByValidator d) nid \<ge> maxEvidencePerValidator d then
        case findIndex (\<lambda>e. validatorId e = nid) (evidence d) of
          Some oldestIdx \<Rightarrow> d\<lparr>evidence := splice_out oldestIdx (evidence d)\<rparr>
        | None \<Rightarrow> d
      else d)"

definition recordVote ::
    "int \<Rightarrow> EquivocationDetector \<Rightarrow> string \<Rightarrow> bigint \<Rightarrow> string \<Rightarrow> hex \<Rightarrow> hex option \<Rightarrow>
     EquivocationDetector \<times> EquivocationEvidence option" where
  "recordVote now d vId height phase blockHash sig =
     (let nid = toLowerCase vId;
          heightMap = get_or [] (votes d) height;
          phaseMap = get_or [] heightMap phase;
          withPhase = (\<lambda>m. d\<lparr>votes := jset height (jset phase m heightMap) (votes d)\<rparr>);
          existing = jget phaseMap nid;
          existingHash = map_option tvHash existing
      in if truthy existingHash \<and> existingHash \<noteq> Some blockHash then
           let d0 = withPhase phaseMap;
               ev = \<lparr>validatorId = nid, evHeight = height, evPhase = phase, blockHash1 = the existingHash,
                 blockHash2 = blockHash, detectedAtMs = now,
                 signature1 = (let s = map_option tvSignature existing in if truthy s then s else None),
                 signature2 = (if truthy sig then sig else None)\<rparr>
           in (pushEvidence (evictGlobal (evictOwn d0 nid) nid) ev, Some ev)
         else
           (pruneOldHeights (withPhase (jset nid
              \<lparr>tvHash = blockHash, tvSignature = (case sig of None \<Rightarrow> [] | Some s \<Rightarrow> s)\<rparr> phaseMap)), None))"

datatype ImportResult = Imported | Duplicate | Invalid

definition importEvidence ::
    "(string \<Rightarrow> bigint \<Rightarrow> hex \<Rightarrow> string) \<Rightarrow> (string \<Rightarrow> string \<Rightarrow> string \<Rightarrow> bool) \<Rightarrow>
     EquivocationDetector \<Rightarrow> EquivocationEvidence \<Rightarrow> EquivocationDetector \<times> ImportResult" where
  "importEvidence canonicalize verify d ev =
     (if evPhase ev \<noteq> ''prepare'' \<and> evPhase ev \<noteq> ''commit'' then (d, Invalid)
      else if \<not> truthy (signature1 ev) \<or> \<not> truthy (signature2 ev) then (d, Invalid)
      else if blockHash1 ev = blockHash2 ev then (d, Invalid)
      else
        let nid = toLowerCase (validatorId ev)
        in if list_ex (\<lambda>e. validatorId e = nid \<and> evHeight e = evHeight ev \<and> evPhase e = evPhase ev) (evidence d)
           then (d, Duplicate)
           else if \<not> verify (canonicalize (evPhase ev) (evHeight ev) (blockHash1 ev)) (the (signature1 ev)) nid
           then (d, Invalid)
           else if \<not> verify (canonicalize (evPhase ev) (evHeight ev) (blockHash2 ev)) (the (signature2 ev)) nid
           then (d, Invalid)
           else (pushEvidence (evictGlobal (evictOwnImport d nid) nid) (ev\<lparr>validatorId := nid\<rparr>), Imported))"

definition getEvidenceFor :: "EquivocationDetector \<Rightarrow> string \<Rightarrow> EquivocationEvidence list" where
  "getEvidenceFor d vId = filter (\<lambda>e. validatorId e = toLowerCase vId) (evidence d)"

text \<open>The compacting loop: the kept prefix and the counters after the entries seen so far.\<close>

definition clear_entry ::
    "bigint \<Rightarrow> EquivocationEvidence list \<times> (string, int) jsmap \<Rightarrow> EquivocationEvidence \<Rightarrow>
     EquivocationEvidence list \<times> (string, int) jsmap" where
  "clear_entry height acc e =
     (case acc of (kept, counts) \<Rightarrow>
       if evHeight e \<ge> height then (kept @ [e], counts)
       else
         let cnt = get_or 1 counts (validatorId e)
         in (kept, if cnt \<le> 1 then jdel (validatorId e) counts else jset (validatorId e) (cnt - 1) counts))"

definition clearEvidenceBefore :: "EquivocationDetector \<Rightarrow> bigint \<Rightarrow> EquivocationDetector \<times> nat" where
  "clearEvidenceBefore d height =
     (let (kept, counts) = foldl (clear_entry height) ([], evidenceCountByValidator d) (evidence d)
      in (d\<lparr>evidence := kept, evidenceCountByValidator := counts\<rparr>, length (evidence d) - length kept))"

definition pruneByMaxHeight :: "EquivocationDetector \<Rightarrow> nat \<Rightarrow> EquivocationDetector \<times> nat" where
  "pruneByMaxHeight d keep =
     (if keep = 0 then (d\<lparr>evidence := [], evidenceCountByValidator := []\<rparr>, length (evidence d))
      else
        let uniqueHeights = foldl (\<lambda>s e. set_add (evHeight e) s) [] (evidence d)
        in if length uniqueHeights \<le> keep then (d, 0)
           else clearEvidenceBefore d (rev (sort uniqueHeights) ! (keep - 1)))"

record DetectorStats =
  stTotalEvidence :: nat
  stMaxEvidence :: nat
  stMaxEvidencePerValidator :: int
  stUniqueValidators :: nat
  stPerValidator :: "(string, int) jsmap"
  stTrackedHeights :: nat
  stDroppedTotal :: int

definition getStats :: "EquivocationDetector \<Rightarrow> DetectorStats" where
  "getStats d =
     \<lparr>stTotalEvidence = length (evidence d), stMaxEvidence = maxEvidence d,
      stMaxEvidencePerValidator = maxEvidencePerValidator d,
      stUniqueValidators = length (evidenceCountByValidator d),
      stPerValidator = foldl (\<lambda>m (i, cnt). jset i cnt m) [] (evidenceCountByValidator d),
      stTrackedHeights = length (votes d), stDroppedTotal = droppedTotal d\<rparr>"


section \<open>The caps and the counters\<close>

interpretation busiest: ranked_duel busier snd
  by unfold_locales (auto simp: busier_def max_def)

definition entries :: "string \<Rightarrow> EquivocationEvidence list \<Rightarrow> int" where
  "entries v es = int (length (filter (\<lambda>e. validatorId e = v) es))"

definition exact_counts :: "EquivocationDetector \<Rightarrow> bool" where
  "exact_counts d \<longleftrightarrow>
     jmap_ok (evidenceCountByValidator d) \<and>
     (\<forall>v. get_or 0 (evidenceCountByValidator d) v = entries v (evidence d))"

definition evidence_ok :: "EquivocationEvidence \<Rightarrow> bool" where
  "evidence_ok e \<longleftrightarrow> toLowerCase (validatorId e) = validatorId e \<and> blockHash1 e \<noteq> blockHash2 e"

definition detector_inv :: "EquivocationDetector \<Rightarrow> bool" where
  "detector_inv d \<longleftrightarrow>
     0 < maxEvidence d \<and> 0 < maxEvidencePerValidator d \<and> exact_counts d \<and>
     length (evidence d) \<le> maxEvidence d \<and>
     (\<forall>v. entries v (evidence d) \<le> maxEvidencePerValidator d) \<and>
     (\<forall>e\<in>set (evidence d). evidence_ok e)"

lemma entries_mset: "entries v es = int (size (filter_mset (\<lambda>e. validatorId e = v) (mset es)))"
  by (simp add: entries_def flip: mset_filter)

lemma entries_nonneg [simp]: "0 \<le> entries v es"
  by (simp add: entries_def)

lemma entries_simps [simp]:
  "entries v [] = 0"
  "entries v (es @ [e]) = entries v es + (if validatorId e = v then 1 else 0)"
  "entries v (e # es) = entries v es + (if validatorId e = v then 1 else 0)"
  by (simp_all add: entries_def)

lemma entries_append [simp]: "entries v (es @ es') = entries v es + entries v es'"
  by (simp add: entries_def)

lemma entries_pos: "entries v es > 0 \<longleftrightarrow> (\<exists>e\<in>set es. validatorId e = v)"
  by (auto simp: entries_def filter_empty_conv)

lemma entries_splice_out:
  assumes "findIndex (\<lambda>e. validatorId e = w) es = Some i"
  shows "entries v (splice_out i es) = entries v es - (if v = w then 1 else 0)"
  using mset_splice_out [of i es] findIndex_Some [OF assms] by (auto simp: entries_mset)

lemma findIndex_entries:
  "findIndex (\<lambda>e. validatorId e = w) es = None \<longleftrightarrow> entries w es = 0"
  by (simp add: findIndex_None entries_def filter_empty_conv)

text \<open>The scan finds a validator that has an entry, whenever there is any evidence.\<close>

lemma busiest_has_entry:
  assumes "exact_counts d" and "evidence d \<noteq> []"
  shows "entries (busiestValidator d nid) (evidence d) > 0"
proof -
  let ?C = "evidenceCountByValidator d"
  let ?b = "busiest.champion (nid, get_or 0 ?C nid) ?C"
  have b: "busiestValidator d nid = fst ?b" by (simp add: busiestValidator_def busiest.champion_def)
  have cnt: "get_or 0 ?C v = entries v (evidence d)" for v using assms(1) by (simp add: exact_counts_def)
  have "snd x = get_or 0 ?C (fst x)" if "x \<in> set ?C" for x
    using that assms(1) jget_iff [of ?C "fst x" "snd x"] get_or_Some [of ?C "fst x" "snd x" 0]
    by (simp add: exact_counts_def)
  then have "snd ?b = get_or 0 ?C (fst ?b)"
    using busiest.champion_member [of "(nid, get_or 0 ?C nid)" ?C] by auto
  then have count: "snd ?b = entries (fst ?b) (evidence d)" by (simp add: cnt)
  obtain e where e: "e \<in> set (evidence d)" using assms(2) by (cases "evidence d") auto
  then have pos: "get_or 0 ?C (validatorId e) > 0" unfolding cnt entries_pos by blast
  then obtain c where "jget ?C (validatorId e) = Some c" and "c > 0"
    by (auto simp: get_or_def split: option.splits)
  then have "(validatorId e, c) \<in> insert (nid, get_or 0 ?C nid) (set ?C)" by (auto dest: map_of_SomeD)
  from busiest.champion_best [OF this] \<open>c > 0\<close> show ?thesis unfolding b by (simp add: count)
qed

lemma evictGlobal_frame [simp]:
  "votes (evictGlobal d nid) = votes d" "maxTrackedHeights (evictGlobal d nid) = maxTrackedHeights d"
  "maxEvidence (evictGlobal d nid) = maxEvidence d"
  "maxEvidencePerValidator (evictGlobal d nid) = maxEvidencePerValidator d"
  by (simp_all add: evictGlobal_def Let_def split: option.split)

lemma evictGlobal_evidence: "set (evidence (evictGlobal d nid)) \<subseteq> set (evidence d)"
  by (auto simp: evictGlobal_def Let_def split: option.splits dest: set_splice_out [THEN subsetD])

lemma evictGlobal_exact:
  assumes "exact_counts d" and "0 < maxEvidence d" and "length (evidence d) \<le> maxEvidence d"
  shows "exact_counts (evictGlobal d nid)" and "length (evidence (evictGlobal d nid)) < maxEvidence d"
    and "entries v (evidence (evictGlobal d nid)) \<le> entries v (evidence d)"
proof (atomize(full), cases "length (evidence d) < maxEvidence d")
  case True
  then show "exact_counts (evictGlobal d nid) \<and> length (evidence (evictGlobal d nid)) < maxEvidence d \<and>
      entries v (evidence (evictGlobal d nid)) \<le> entries v (evidence d)"
    using assms by (simp add: evictGlobal_def)
next
  case False
  let ?w = "busiestValidator d nid"
  have "entries ?w (evidence d) > 0" using assms(2,3) False by (intro busiest_has_entry assms(1)) auto
  then obtain i where i: "findIndex (\<lambda>e. validatorId e = ?w) (evidence d) = Some i"
    using findIndex_entries [of ?w "evidence d"] by (cases "findIndex (\<lambda>e. validatorId e = ?w) (evidence d)") auto
  have lt: "i < length (evidence d)" using findIndex_Some [OF i] by simp
  have "get_or 1 (evidenceCountByValidator d) ?w = entries ?w (evidence d)"
    using assms(1) \<open>entries ?w (evidence d) > 0\<close>
    by (subst get_or_default [of 0]) (simp_all add: exact_counts_def)
  then show "exact_counts (evictGlobal d nid) \<and> length (evidence (evictGlobal d nid)) < maxEvidence d \<and>
      entries v (evidence (evictGlobal d nid)) \<le> entries v (evidence d)"
    using assms False lt i by (auto simp: evictGlobal_def exact_counts_def entries_splice_out [OF i] Let_def)
qed

lemma pushEvidence_inv:
  assumes "detector_inv d" and "entries (validatorId ev) (evidence d) < maxEvidencePerValidator d"
    and "length (evidence d) < maxEvidence d" and "evidence_ok ev"
  shows "detector_inv (pushEvidence d ev)"
  using assms by (auto simp: detector_inv_def exact_counts_def pushEvidence_def)

text \<open>
  A validator at its cap has an entry to give up, so the repair branch is never taken; its counter
  stays one ahead of its entries until the new one is pushed.
\<close>

lemma own_entry:
  assumes "detector_inv d" and "get_or 0 (evidenceCountByValidator d) nid \<ge> maxEvidencePerValidator d"
  obtains i where "findIndex (\<lambda>e. validatorId e = nid) (evidence d) = Some i"
    and "entries nid (evidence d) = maxEvidencePerValidator d"
proof -
  have cnt: "get_or 0 (evidenceCountByValidator d) nid = entries nid (evidence d)"
    using assms(1) by (simp add: detector_inv_def exact_counts_def)
  have cap: "entries nid (evidence d) = maxEvidencePerValidator d" "0 < entries nid (evidence d)"
    using assms by (auto simp: cnt detector_inv_def intro: antisym)
  then show ?thesis using that findIndex_entries [of nid "evidence d"]
    by (cases "findIndex (\<lambda>e. validatorId e = nid) (evidence d)") auto
qed

lemma evictOwnImport_eq: "detector_inv d \<Longrightarrow> evictOwnImport d nid = evictOwn d nid"
  by (auto simp: evictOwnImport_def evictOwn_def elim: own_entry)

lemma add_evidence_inv:
  assumes "detector_inv d" and "validatorId ev = nid" and "evidence_ok ev"
  shows "detector_inv (pushEvidence (evictGlobal (evictOwn d nid) nid) ev)"
proof (cases "get_or 0 (evidenceCountByValidator d) nid \<ge> maxEvidencePerValidator d")
  case True
  obtain i where i: "findIndex (\<lambda>e. validatorId e = nid) (evidence d) = Some i"
    and cap: "entries nid (evidence d) = maxEvidencePerValidator d"
    using own_entry [OF assms(1) True] .
  let ?d = "d\<lparr>evidence := splice_out i (evidence d)\<rparr>"
  have lt: "length (splice_out i (evidence d)) < maxEvidence d"
    using assms(1) findIndex_Some [OF i] by (auto simp: detector_inv_def)
  then have "evictGlobal (evictOwn d nid) nid = ?d" using True i by (simp add: evictOwn_def evictGlobal_def)
  moreover have "detector_inv (pushEvidence ?d ev)"
    using assms lt cap set_splice_out [of i "evidence d"]
    by (auto simp: detector_inv_def exact_counts_def pushEvidence_def entries_splice_out [OF i])
  ultimately show ?thesis by simp
next
  case False
  have inv: "exact_counts d" "0 < maxEvidence d" "length (evidence d) \<le> maxEvidence d"
    using assms(1) by (auto simp: detector_inv_def)
  note ev = evictGlobal_exact [OF inv]
  have "detector_inv (pushEvidence (evictGlobal d nid) ev)"
  proof (rule pushEvidence_inv)
    show "detector_inv (evictGlobal d nid)"
      using assms(1) ev(1,2) order_trans [OF ev(3)] evictGlobal_evidence [of d nid]
      by (auto simp: detector_inv_def less_imp_le)
    show "entries (validatorId ev) (evidence (evictGlobal d nid)) < maxEvidencePerValidator (evictGlobal d nid)"
      using assms(2) False inv(1) ev(3) [of nid nid] by (simp add: exact_counts_def)
    show "length (evidence (evictGlobal d nid)) < maxEvidence (evictGlobal d nid)" using ev(2) by simp
  qed (fact assms(3))
  then show ?thesis using False by (simp add: evictOwn_def)
qed


section \<open>The operations by cases\<close>

definition tracked :: "EquivocationDetector \<Rightarrow> bigint \<Rightarrow> string \<Rightarrow> string \<Rightarrow> TrackedVote option" where
  "tracked d h ph nid = jget (get_or [] (get_or [] (votes d) h) ph) nid"

definition proof_of :: "int \<Rightarrow> string \<Rightarrow> bigint \<Rightarrow> string \<Rightarrow> TrackedVote \<Rightarrow> hex \<Rightarrow> hex option \<Rightarrow> EquivocationEvidence" where
  "proof_of now nid h ph tv bh sig =
     \<lparr>validatorId = nid, evHeight = h, evPhase = ph, blockHash1 = tvHash tv, blockHash2 = bh,
      detectedAtMs = now, signature1 = (if tvSignature tv = [] then None else Some (tvSignature tv)),
      signature2 = (if truthy sig then sig else None)\<rparr>"

definition vote_stored :: "EquivocationDetector \<Rightarrow> bigint \<Rightarrow> string \<Rightarrow> string \<Rightarrow> TrackedVote \<Rightarrow> EquivocationDetector" where
  "vote_stored d h ph nid tv =
     (let hm = get_or [] (votes d) h
      in d\<lparr>votes := jset h (jset ph (jset nid tv (get_or [] hm ph)) hm) (votes d)\<rparr>)"

lemma recordVote_cases:
  obtains (detected) tv where "tracked d h ph (toLowerCase vId) = Some tv" "tvHash tv \<noteq> []" "tvHash tv \<noteq> bh"
      "recordVote now d vId h ph bh sig =
         (pushEvidence (evictGlobal (evictOwn d (toLowerCase vId)) (toLowerCase vId))
            (proof_of now (toLowerCase vId) h ph tv bh sig),
          Some (proof_of now (toLowerCase vId) h ph tv bh sig))"
  | (stored) "\<And>tv. tracked d h ph (toLowerCase vId) = Some tv \<Longrightarrow> tvHash tv = [] \<or> tvHash tv = bh"
      "recordVote now d vId h ph bh sig =
         (pruneOldHeights (vote_stored d h ph (toLowerCase vId)
            \<lparr>tvHash = bh, tvSignature = (case sig of None \<Rightarrow> [] | Some s \<Rightarrow> s)\<rparr>), None)"
proof (cases "tracked d h ph (toLowerCase vId)")
  case None
  show ?thesis
    by (rule stored) (use None in \<open>simp_all add: tracked_def recordVote_def vote_stored_def truthy_def Let_def\<close>)
next
  case (Some tv)
  have pm: "jget (get_or [] (votes d) h) ph = Some (get_or [] (get_or [] (votes d) h) ph)"
    and hm: "jget (votes d) h = Some (get_or [] (votes d) h)"
    using Some by (auto simp: tracked_def get_or_def split: option.splits)
  have same: "d\<lparr>votes := jset h (jset ph (get_or [] (get_or [] (votes d) h) ph) (get_or [] (votes d) h)) (votes d)\<rparr> = d"
    by (simp add: update_triv [OF pm] update_triv [OF hm])
  show ?thesis
  proof (cases "tvHash tv \<noteq> [] \<and> tvHash tv \<noteq> bh")
    case True
    show ?thesis
      by (rule detected [OF Some]) (use True Some same in
        \<open>simp_all add: tracked_def recordVote_def proof_of_def truthy_def Let_def\<close>)
  next
    case False
    show ?thesis
      by (rule stored) (use False Some in
        \<open>auto simp: tracked_def recordVote_def vote_stored_def truthy_def Let_def\<close>)
  qed
qed

lemma importEvidence_cases:
  assumes "detector_inv d"
  obtains (rejected) res where "importEvidence canonicalize verify d ev = (d, res)"
  | (imported) "importEvidence canonicalize verify d ev =
      (pushEvidence (evictGlobal (evictOwn d (toLowerCase (validatorId ev))) (toLowerCase (validatorId ev)))
         (ev\<lparr>validatorId := toLowerCase (validatorId ev)\<rparr>), Imported)"
      "blockHash1 ev \<noteq> blockHash2 ev" "truthy (signature1 ev)" "truthy (signature2 ev)"
      "verify (canonicalize (evPhase ev) (evHeight ev) (blockHash1 ev)) (the (signature1 ev)) (toLowerCase (validatorId ev))"
      "verify (canonicalize (evPhase ev) (evHeight ev) (blockHash2 ev)) (the (signature2 ev)) (toLowerCase (validatorId ev))"
proof (cases "snd (importEvidence canonicalize verify d ev) = Imported")
  case True
  show ?thesis
    by (rule imported) (use True in \<open>auto simp: importEvidence_def evictOwnImport_eq [OF assms] Let_def split: if_splits\<close>)
next
  case False
  show ?thesis
    by (rule rejected [of "snd (importEvidence canonicalize verify d ev)"])
      (use False in \<open>auto simp: importEvidence_def Let_def split: if_splits\<close>)
qed

lemma tracked_pruned: "tracked (pruneOldHeights d) h ph nid = Some tv \<Longrightarrow> tracked d h ph nid = Some tv"
  by (auto simp: tracked_def pruneOldHeights_def get_or_def Let_def split: if_splits option.splits)

lemma tracked_stored [simp]:
  "tracked (vote_stored d h ph nid tv) h' ph' nid' =
     (if (h', ph', nid') = (h, ph, nid) then Some tv else tracked d h' ph' nid')"
  by (auto simp: tracked_def vote_stored_def get_or_def Let_def split: option.splits)

lemma evictOwn_frame [simp]:
  "votes (evictOwn d nid) = votes d" "maxTrackedHeights (evictOwn d nid) = maxTrackedHeights d"
  "maxEvidence (evictOwn d nid) = maxEvidence d"
  "maxEvidencePerValidator (evictOwn d nid) = maxEvidencePerValidator d"
  by (simp_all add: evictOwn_def split: option.split)

lemma evictOwn_evidence: "set (evidence (evictOwn d nid)) \<subseteq> set (evidence d)"
  by (auto simp: evictOwn_def split: option.splits dest: set_splice_out [THEN subsetD])

lemma pushEvidence_frame [simp]:
  "votes (pushEvidence d ev) = votes d" "maxTrackedHeights (pushEvidence d ev) = maxTrackedHeights d"
  "evidence (pushEvidence d ev) = evidence d @ [ev]"
  by (simp_all add: pushEvidence_def)

lemma pruneOldHeights_frame [simp]:
  "evidence (pruneOldHeights d) = evidence d" "maxTrackedHeights (pruneOldHeights d) = maxTrackedHeights d"
  "evidenceCountByValidator (pruneOldHeights d) = evidenceCountByValidator d"
  "maxEvidence (pruneOldHeights d) = maxEvidence d"
  "maxEvidencePerValidator (pruneOldHeights d) = maxEvidencePerValidator d"
  by (simp_all add: pruneOldHeights_def Let_def)

lemma vote_stored_frame [simp]:
  "evidence (vote_stored d h ph nid tv) = evidence d"
  "maxTrackedHeights (vote_stored d h ph nid tv) = maxTrackedHeights d"
  "evidenceCountByValidator (vote_stored d h ph nid tv) = evidenceCountByValidator d"
  "maxEvidence (vote_stored d h ph nid tv) = maxEvidence d"
  "maxEvidencePerValidator (vote_stored d h ph nid tv) = maxEvidencePerValidator d"
  "fst ` set (votes (vote_stored d h ph nid tv)) = insert h (fst ` set (votes d))"
  "jmap_ok (votes d) \<Longrightarrow> jmap_ok (votes (vote_stored d h ph nid tv))"
  by (simp_all add: vote_stored_def Let_def)

lemma added_evidence:
  "set (evidence (pushEvidence (evictGlobal (evictOwn d nid) nid) ev)) \<subseteq> insert ev (set (evidence d))"
  using evictGlobal_evidence [of "evictOwn d nid" nid] evictOwn_evidence [of d nid] by auto

lemma recordVote_inv:
  assumes "detector_inv d"
  shows "detector_inv (fst (recordVote now d vId h ph bh sig))"
proof (cases rule: recordVote_cases [of d h ph vId bh now sig])
  case (detected tv)
  then have "evidence_ok (proof_of now (toLowerCase vId) h ph tv bh sig)"
    by (simp add: evidence_ok_def proof_of_def)
  with detected(4) show ?thesis using assms by (simp add: add_evidence_inv proof_of_def)
next
  case stored
  show ?thesis using assms unfolding stored(2) by (simp add: detector_inv_def exact_counts_def)
qed

lemma importEvidence_inv:
  assumes "detector_inv d"
  shows "detector_inv (fst (importEvidence canonicalize verify d ev))"
  using assms
  by (cases rule: importEvidence_cases [OF assms, of canonicalize verify ev])
    (simp_all add: add_evidence_inv evidence_ok_def)

lemma clear_entries:
  assumes "\<And>v. get_or 0 counts v = entries v kept + entries v es" and "jmap_ok counts"
    and "foldl (clear_entry h) (kept, counts) es = (kept', counts')"
  shows "kept' = kept @ filter (\<lambda>e. evHeight e \<ge> h) es \<and> jmap_ok counts' \<and>
    (\<forall>v. get_or 0 counts' v = entries v kept')"
  using assms
proof (induction es arbitrary: kept counts)
  case Nil
  then show ?case by simp
next
  case (Cons e es)
  show ?case
  proof (cases "evHeight e \<ge> h")
    case True
    have "get_or 0 counts v = entries v (kept @ [e]) + entries v es" for v using Cons.prems(1) [of v] by simp
    from Cons.IH [OF this Cons.prems(2)] show ?thesis using True Cons.prems(3) by (simp add: clear_entry_def)
  next
    case False
    let ?v = "validatorId e" and ?c = "snd (clear_entry h (kept, counts) e)"
    have e: "get_or 0 counts ?v = entries ?v kept + entries ?v es + 1" using Cons.prems(1) [of ?v] by simp
    then have "get_or 0 counts ?v \<noteq> 0" using entries_nonneg [of ?v kept] entries_nonneg [of ?v es] by linarith
    from get_or_default [OF this, of 1] e
    have cnt: "get_or 1 counts ?v = entries ?v kept + entries ?v es + 1" by simp
    have zero: "entries ?v kept + entries ?v es \<le> 0 \<longleftrightarrow> entries ?v kept + entries ?v es = 0"
      using entries_nonneg [of ?v kept] entries_nonneg [of ?v es] by linarith
    have "get_or 0 ?c v = entries v kept + entries v es" for v
      using cnt Cons.prems(1) [of v] False by (auto simp: clear_entry_def get_or_def zero)
    moreover have "jmap_ok ?c" using Cons.prems(2) by (simp add: clear_entry_def Let_def)
    ultimately show ?thesis
      using Cons.IH [of ?c kept] Cons.prems(3) False by (simp add: clear_entry_def Let_def)
  qed
qed

lemma clearEvidenceBefore_filter:
  assumes "exact_counts d"
  shows "evidence (fst (clearEvidenceBefore d h)) = filter (\<lambda>e. evHeight e \<ge> h) (evidence d)"
    and "exact_counts (fst (clearEvidenceBefore d h))"
    and "snd (clearEvidenceBefore d h) = length (filter (\<lambda>e. evHeight e < h) (evidence d))"
proof -
  obtain kept counts where loop: "foldl (clear_entry h) ([], evidenceCountByValidator d) (evidence d) = (kept, counts)"
    by fastforce
  have k: "kept = filter (\<lambda>e. evHeight e \<ge> h) (evidence d)" "jmap_ok counts"
      "\<forall>v. get_or 0 counts v = entries v kept"
    using clear_entries [OF _ _ loop] assms by (auto simp: exact_counts_def)
  have "length (evidence d) = length kept + length (filter (\<lambda>e. evHeight e < h) (evidence d))"
    unfolding k(1) using sum_length_filter_compl [of "\<lambda>e. evHeight e \<ge> h" "evidence d"] by (simp add: not_le)
  then show "evidence (fst (clearEvidenceBefore d h)) = filter (\<lambda>e. evHeight e \<ge> h) (evidence d)"
    "exact_counts (fst (clearEvidenceBefore d h))"
    "snd (clearEvidenceBefore d h) = length (filter (\<lambda>e. evHeight e < h) (evidence d))"
    using k by (simp_all add: clearEvidenceBefore_def loop exact_counts_def)
qed

lemma clearEvidenceBefore_frame [simp]:
  "votes (fst (clearEvidenceBefore d h)) = votes d"
  "maxEvidence (fst (clearEvidenceBefore d h)) = maxEvidence d"
  "maxEvidencePerValidator (fst (clearEvidenceBefore d h)) = maxEvidencePerValidator d"
  by (simp_all add: clearEvidenceBefore_def split: prod.split)

lemma entries_filter_le: "entries v (filter P es) \<le> entries v es"
  by (induction es) auto

lemma clearEvidenceBefore_inv:
  assumes "detector_inv d"
  shows "detector_inv (fst (clearEvidenceBefore d h))"
proof -
  have "exact_counts d" using assms by (simp add: detector_inv_def)
  note clear = clearEvidenceBefore_filter [OF this, of h]
  show ?thesis
    using assms clear(2) order_trans [OF entries_filter_le] le_trans [OF length_filter_le]
    by (auto simp: detector_inv_def clear(1))
qed

lemma pruneByMaxHeight_inv: "detector_inv d \<Longrightarrow> detector_inv (fst (pruneByMaxHeight d keep))"
  by (auto simp: pruneByMaxHeight_def Let_def clearEvidenceBefore_inv)
    (simp add: detector_inv_def exact_counts_def get_or_def)


section \<open>Runs of the detector\<close>

record SeenVote =
  svNow :: int
  svValidator :: string
  svHeight :: bigint
  svPhase :: string
  svHash :: hex
  svSignature :: "hex option"

datatype DetectorEvent = VoteSeen SeenVote | EvidenceSeen EquivocationEvidence
  | ClearBefore bigint | PruneMax nat

definition record_seen :: "EquivocationDetector \<Rightarrow> SeenVote \<Rightarrow> EquivocationDetector \<times> EquivocationEvidence option" where
  "record_seen d x = recordVote (svNow x) d (svValidator x) (svHeight x) (svPhase x) (svHash x) (svSignature x)"

definition seen_key :: "SeenVote \<Rightarrow> bigint \<times> string \<times> string" where
  "seen_key x = (svHeight x, svPhase x, toLowerCase (svValidator x))"

definition seen_sig :: "SeenVote \<Rightarrow> hex" where
  "seen_sig x = (case svSignature x of None \<Rightarrow> [] | Some s \<Rightarrow> s)"

fun detector_step ::
    "(string \<Rightarrow> bigint \<Rightarrow> hex \<Rightarrow> string) \<Rightarrow> (string \<Rightarrow> string \<Rightarrow> string \<Rightarrow> bool) \<Rightarrow>
     EquivocationDetector \<Rightarrow> DetectorEvent \<Rightarrow> EquivocationDetector" where
  "detector_step canonicalize verify d (VoteSeen x) = fst (record_seen d x)"
| "detector_step canonicalize verify d (EvidenceSeen ev) = fst (importEvidence canonicalize verify d ev)"
| "detector_step canonicalize verify d (ClearBefore h) = fst (clearEvidenceBefore d h)"
| "detector_step canonicalize verify d (PruneMax keep) = fst (pruneByMaxHeight d keep)"

definition detector_run ::
    "(string \<Rightarrow> bigint \<Rightarrow> hex \<Rightarrow> string) \<Rightarrow> (string \<Rightarrow> string \<Rightarrow> string \<Rightarrow> bool) \<Rightarrow>
     EquivocationDetector \<Rightarrow> DetectorEvent list \<Rightarrow> EquivocationDetector" where
  "detector_run canonicalize verify d events = foldl (detector_step canonicalize verify) d events"

lemma detector_step_inv: "detector_inv d \<Longrightarrow> detector_inv (detector_step canonicalize verify d event)"
  by (cases event)
    (simp_all add: record_seen_def recordVote_inv importEvidence_inv clearEvidenceBefore_inv pruneByMaxHeight_inv)

lemma newDetector_inv: "0 < cap \<Longrightarrow> 0 < perValidator \<Longrightarrow> detector_inv (newDetector tr cap perValidator)"
  by (simp add: detector_inv_def newDetector_def exact_counts_def get_or_def)

lemma detector_run_inv: "detector_inv d \<Longrightarrow> detector_inv (detector_run canonicalize verify d events)"
  unfolding detector_run_def by (induction events arbitrary: d) (simp_all add: detector_step_inv)

text \<open>
  What stands behind an entry: two votes the node received, with the signatures they carried, or an
  import whose two signatures verified against the accused validator.
\<close>

definition accused_by_votes :: "SeenVote set \<Rightarrow> EquivocationEvidence \<Rightarrow> bool" where
  "accused_by_votes seen e \<longleftrightarrow>
     (\<exists>x\<in>seen. \<exists>y\<in>seen.
        seen_key x = (evHeight e, evPhase e, validatorId e) \<and> seen_key y = (evHeight e, evPhase e, validatorId e) \<and>
        svHash x = blockHash1 e \<and> svHash y = blockHash2 e \<and>
        signature1 e = (if seen_sig x = [] then None else Some (seen_sig x)) \<and>
        signature2 e = (if seen_sig y = [] then None else Some (seen_sig y)))"

definition accused_by_signatures ::
    "(string \<Rightarrow> bigint \<Rightarrow> hex \<Rightarrow> string) \<Rightarrow> (string \<Rightarrow> string \<Rightarrow> string \<Rightarrow> bool) \<Rightarrow> EquivocationEvidence \<Rightarrow> bool" where
  "accused_by_signatures canonicalize verify e \<longleftrightarrow>
     (\<exists>s1 s2. signature1 e = Some s1 \<and> signature2 e = Some s2 \<and>
        verify (canonicalize (evPhase e) (evHeight e) (blockHash1 e)) s1 (validatorId e) \<and>
        verify (canonicalize (evPhase e) (evHeight e) (blockHash2 e)) s2 (validatorId e))"

definition seen_votes :: "DetectorEvent list \<Rightarrow> SeenVote set" where
  "seen_votes events = {x. VoteSeen x \<in> set events}"

definition tracks_seen :: "SeenVote set \<Rightarrow> EquivocationDetector \<Rightarrow> bool" where
  "tracks_seen seen d \<longleftrightarrow>
     (\<forall>h ph nid tv. tracked d h ph nid = Some tv \<longrightarrow>
        (\<exists>x\<in>seen. seen_key x = (h, ph, nid) \<and> svHash x = tvHash tv \<and> seen_sig x = tvSignature tv))"

lemma accused_mono: "accused_by_votes seen e \<Longrightarrow> seen \<subseteq> seen' \<Longrightarrow> accused_by_votes seen' e"
  unfolding accused_by_votes_def by blast

lemma tracks_mono: "tracks_seen seen d \<Longrightarrow> seen \<subseteq> seen' \<Longrightarrow> tracks_seen seen' d"
  unfolding tracks_seen_def by blast

lemma tracks_votes: "votes d = votes d' \<Longrightarrow> tracks_seen seen d = tracks_seen seen d'"
  by (simp add: tracks_seen_def tracked_def)

lemma pruneByMaxHeight_sub:
  assumes "detector_inv d"
  shows "set (evidence (fst (pruneByMaxHeight d keep))) \<subseteq> set (evidence d) \<and>
    votes (fst (pruneByMaxHeight d keep)) = votes d"
  using assms by (auto simp: pruneByMaxHeight_def Let_def clearEvidenceBefore_filter detector_inv_def)

lemma record_seen_justified:
  assumes "tracks_seen seen d"
  shows "tracks_seen (insert x seen) (fst (record_seen d x)) \<and>
    (\<forall>e\<in>set (evidence (fst (record_seen d x))). e \<in> set (evidence d) \<or> accused_by_votes (insert x seen) e)"
proof (cases rule: recordVote_cases [of d "svHeight x" "svPhase x" "svValidator x" "svHash x" "svNow x" "svSignature x"])
  case (detected tv)
  let ?ev = "proof_of (svNow x) (toLowerCase (svValidator x)) (svHeight x) (svPhase x) tv (svHash x) (svSignature x)"
  obtain y where "y \<in> seen" "seen_key y = seen_key x" "svHash y = tvHash tv" "seen_sig y = tvSignature tv"
    using assms detected(1) unfolding tracks_seen_def seen_key_def by blast
  then have "accused_by_votes (insert x seen) ?ev"
    unfolding accused_by_votes_def
    by (intro bexI [of _ y] bexI [of _ x])
      (auto simp: proof_of_def seen_key_def seen_sig_def truthy_def split: option.splits)
  moreover have "tracks_seen (insert x seen) (fst (record_seen d x))"
    using tracks_mono [OF assms, of "insert x seen"] tracks_votes [of "fst (record_seen d x)" d]
    by (simp add: record_seen_def detected(4) subset_insertI)
  ultimately show ?thesis
    using added_evidence [of d "toLowerCase (svValidator x)" ?ev] by (auto simp: record_seen_def detected(4))
next
  case stored
  show ?thesis
    unfolding record_seen_def stored(2) tracks_seen_def
  proof (intro conjI allI impI ballI)
    fix h ph nid tv
    assume "tracked (fst (pruneOldHeights (vote_stored d (svHeight x) (svPhase x) (toLowerCase (svValidator x))
      \<lparr>tvHash = svHash x, tvSignature = (case svSignature x of None \<Rightarrow> [] | Some s \<Rightarrow> s)\<rparr>), None)) h ph nid = Some tv"
    then have "tracked (vote_stored d (svHeight x) (svPhase x) (toLowerCase (svValidator x))
      \<lparr>tvHash = svHash x, tvSignature = seen_sig x\<rparr>) h ph nid = Some tv"
      by (auto dest: tracked_pruned simp: seen_sig_def)
    then show "\<exists>y\<in>insert x seen. seen_key y = (h, ph, nid) \<and> svHash y = tvHash tv \<and> seen_sig y = tvSignature tv"
      using assms by (auto simp: tracks_seen_def seen_key_def split: if_splits)
  qed simp
qed

lemma detector_run_justified:
  assumes "detector_inv d" and "tracks_seen {} d" and "evidence d = []"
  shows "tracks_seen (seen_votes events) (detector_run canonicalize verify d events) \<and>
    (\<forall>e\<in>set (evidence (detector_run canonicalize verify d events)).
       accused_by_votes (seen_votes events) e \<or> accused_by_signatures canonicalize verify e)"
proof (induction events rule: rev_induct)
  case Nil
  show ?case using assms by (simp add: detector_run_def seen_votes_def)
next
  case (snoc event events)
  let ?d = "detector_run canonicalize verify d events" and ?seen = "seen_votes events"
  let ?d' = "detector_step canonicalize verify ?d event"
  have run: "detector_run canonicalize verify d (events @ [event]) = ?d'" by (simp add: detector_run_def)
  have inv: "detector_inv ?d" using assms(1) by (rule detector_run_inv)
  have seen: "?seen \<subseteq> seen_votes (events @ [event])" by (auto simp: seen_votes_def)
  have old: "accused_by_votes (seen_votes (events @ [event])) e \<or> accused_by_signatures canonicalize verify e"
    if "e \<in> set (evidence ?d)" for e
    using that snoc.IH accused_mono [OF _ seen] by blast
  have keep: "tracks_seen (seen_votes (events @ [event])) x" if "votes x = votes ?d" for x
    using tracks_mono [OF _ seen] snoc.IH tracks_votes [OF that] by blast
  show ?case unfolding run
  proof (cases event)
    case (VoteSeen x)
    then have "seen_votes (events @ [event]) = insert x ?seen" by (auto simp: seen_votes_def)
    then show "tracks_seen (seen_votes (events @ [event])) ?d' \<and> (\<forall>e\<in>set (evidence ?d').
        accused_by_votes (seen_votes (events @ [event])) e \<or> accused_by_signatures canonicalize verify e)"
      using record_seen_justified [of ?seen ?d x] snoc.IH old VoteSeen by auto
  next
    case (EvidenceSeen ev)
    from inv show "tracks_seen (seen_votes (events @ [event])) ?d' \<and> (\<forall>e\<in>set (evidence ?d').
        accused_by_votes (seen_votes (events @ [event])) e \<or> accused_by_signatures canonicalize verify e)"
    proof (cases rule: importEvidence_cases [where canonicalize = canonicalize and verify = verify and ev = ev])
      case (rejected res)
      then show ?thesis using keep old EvidenceSeen by simp
    next
      case imported
      let ?nid = "toLowerCase (validatorId ev)"
      have "accused_by_signatures canonicalize verify (ev\<lparr>validatorId := ?nid\<rparr>)"
        using imported(3-) by (auto simp: accused_by_signatures_def truthy_def)
      then show ?thesis
        using added_evidence [of ?d ?nid "ev\<lparr>validatorId := ?nid\<rparr>"] old keep [of ?d'] EvidenceSeen imported(1) by auto
    qed
  next
    case (ClearBefore h)
    show "tracks_seen (seen_votes (events @ [event])) ?d' \<and> (\<forall>e\<in>set (evidence ?d').
        accused_by_votes (seen_votes (events @ [event])) e \<or> accused_by_signatures canonicalize verify e)"
      using keep [of ?d'] old inv clearEvidenceBefore_filter(1) [of ?d h] ClearBefore by (auto simp: detector_inv_def)
  next
    case (PruneMax k)
    show "tracks_seen (seen_votes (events @ [event])) ?d' \<and> (\<forall>e\<in>set (evidence ?d').
        accused_by_votes (seen_votes (events @ [event])) e \<or> accused_by_signatures canonicalize verify e)"
      using keep [of ?d'] old pruneByMaxHeight_sub [OF inv, of k] PruneMax by auto
  qed
qed

lemma detector_step_dropped:
  assumes "detector_inv d"
  shows "droppedTotal (detector_step canonicalize verify d event) = droppedTotal d"
proof -
  have own: "droppedTotal (evictOwn d nid) = droppedTotal d" for nid
  proof (cases "get_or 0 (evidenceCountByValidator d) nid \<ge> maxEvidencePerValidator d")
    case True
    obtain i where "findIndex (\<lambda>e. validatorId e = nid) (evidence d) = Some i" using own_entry [OF assms True] .
    then show ?thesis by (simp add: evictOwn_def)
  qed (simp add: evictOwn_def)
  have add: "droppedTotal (pushEvidence (evictGlobal (evictOwn d nid) nid) ev) = droppedTotal d" for nid ev
    by (simp add: pushEvidence_def evictGlobal_def own Let_def split: option.split)
  show ?thesis
  proof (cases event)
    case (VoteSeen x)
    then show ?thesis
      by (cases rule: recordVote_cases [of d "svHeight x" "svPhase x" "svValidator x" "svHash x" "svNow x" "svSignature x"])
        (simp_all add: record_seen_def add pruneOldHeights_def vote_stored_def Let_def)
  next
    case (EvidenceSeen ev)
    then show ?thesis
      by (cases rule: importEvidence_cases [OF assms, of canonicalize verify ev]) (simp_all add: add)
  qed (simp_all add: clearEvidenceBefore_def pruneByMaxHeight_def Let_def split: prod.split)
qed

lemma detector_run_dropped:
  "detector_inv d \<Longrightarrow> droppedTotal (detector_run canonicalize verify d events) = droppedTotal d"
  unfolding detector_run_def
  by (induction events arbitrary: d) (simp_all add: detector_step_inv detector_step_dropped)


section \<open>Detection\<close>

text \<open>The reports of a sequence of votes.\<close>

definition detect_all :: "EquivocationDetector \<Rightarrow> SeenVote list \<Rightarrow> EquivocationDetector \<times> EquivocationEvidence list" where
  "detect_all d xs =
     foldl (\<lambda>(d, reports) x. let (d', r) = record_seen d x in (d', reports @ (case r of None \<Rightarrow> [] | Some e \<Rightarrow> [e])))
       (d, []) xs"

definition ev_key :: "EquivocationEvidence \<Rightarrow> bigint \<times> string \<times> string" where
  "ev_key e = (evHeight e, evPhase e, validatorId e)"

abbreviation first_hash :: "bigint \<times> string \<times> string \<Rightarrow> SeenVote list \<Rightarrow> hex option" where
  "first_hash k xs \<equiv> map_option svHash (find (\<lambda>x. seen_key x = k) xs)"

lemma first_hash_snoc:
  "first_hash k (xs @ [x]) =
     (case first_hash k xs of Some a \<Rightarrow> Some a | None \<Rightarrow> if seen_key x = k then Some (svHash x) else None)"
  by (induction xs) auto

lemma first_hash_None: "first_hash k xs = None \<longleftrightarrow> (\<forall>x\<in>set xs. seen_key x \<noteq> k)"
  by (induction xs) auto

lemma first_hash_Some: "first_hash k xs = Some a \<Longrightarrow> \<exists>x\<in>set xs. seen_key x = k \<and> svHash x = a"
  by (induction xs) (auto split: if_splits)

lemma detect_all_snoc:
  "detect_all d (xs @ [x]) =
     (let (d1, reports) = detect_all d xs; (d2, r) = record_seen d1 x
      in (d2, reports @ (case r of None \<Rightarrow> [] | Some e \<Rightarrow> [e])))"
  by (simp add: detect_all_def split: prod.split)

text \<open>As long as no height is pruned, the table holds the first hash of every key.\<close>

definition reports_first :: "SeenVote list \<Rightarrow> EquivocationDetector \<Rightarrow> EquivocationEvidence list \<Rightarrow> bool" where
  "reports_first xs d reports \<longleftrightarrow>
     jmap_ok (votes d) \<and> fst ` set (votes d) \<subseteq> svHeight ` set xs \<and>
     (\<forall>h ph nid. map_option tvHash (tracked d h ph nid) = first_hash (h, ph, nid) xs) \<and>
     (\<forall>k. (\<exists>e\<in>set reports. ev_key e = k) \<longleftrightarrow>
        (\<exists>x\<in>set xs. seen_key x = k \<and> first_hash k xs \<noteq> Some (svHash x)))"

lemma reports_firstD:
  assumes "reports_first xs d reports"
  shows "jmap_ok (votes d)" and "fst ` set (votes d) \<subseteq> svHeight ` set xs"
    and "map_option tvHash (tracked d h ph nid) = first_hash (h, ph, nid) xs"
    and "(\<exists>e\<in>set reports. ev_key e = k) \<longleftrightarrow> (\<exists>x\<in>set xs. seen_key x = k \<and> first_hash k xs \<noteq> Some (svHash x))"
  using assms unfolding reports_first_def by blast+

lemma reports_first_detected:
  assumes "reports_first xs d rs" and "tracked d (svHeight x) (svPhase x) (toLowerCase (svValidator x)) = Some tv"
    and "tvHash tv \<noteq> svHash x" and "ev_key ev = seen_key x"
  shows "reports_first (xs @ [x]) (pushEvidence (evictGlobal (evictOwn d nid) nid) ev) (rs @ [ev])"
proof -
  have sk: "seen_key x = (svHeight x, svPhase x, toLowerCase (svValidator x))" by (simp add: seen_key_def)
  have hd: "first_hash (seen_key x) xs = Some (tvHash tv)"
    using reports_firstD(3) [OF assms(1)] assms(2) unfolding sk by (metis option.simps(9))
  have same: "first_hash k (xs @ [x]) = first_hash k xs" for k
    using hd by (auto simp: first_hash_snoc split: option.split)
  have "(\<exists>e\<in>set (rs @ [ev]). ev_key e = k) \<longleftrightarrow> (\<exists>e\<in>set rs. ev_key e = k) \<or> seen_key x = k" for k
    using assms(4) by auto
  then have "(\<exists>e\<in>set (rs @ [ev]). ev_key e = k) \<longleftrightarrow>
      (\<exists>y\<in>set (xs @ [x]). seen_key y = k \<and> first_hash k (xs @ [x]) \<noteq> Some (svHash y))" for k
    unfolding reports_firstD(4) [OF assms(1)] same using hd assms(3) by auto
  moreover have "tracked (pushEvidence (evictGlobal (evictOwn d nid) nid) ev) = tracked d"
    by (simp add: tracked_def fun_eq_iff)
  moreover have "fst ` set (votes d) \<subseteq> svHeight ` set (xs @ [x])" using reports_firstD(2) [OF assms(1)] by auto
  ultimately show ?thesis
    unfolding reports_first_def using reports_firstD(1,3) [OF assms(1)] by (simp add: same)
qed

lemma reports_first_stored:
  assumes "reports_first xs d rs" and "tvHash tv = svHash x"
    and "first_hash (seen_key x) xs = None \<or> first_hash (seen_key x) xs = Some (svHash x)"
  shows "reports_first (xs @ [x]) (vote_stored d (svHeight x) (svPhase x) (toLowerCase (svValidator x)) tv) rs"
proof -
  have same: "first_hash k (xs @ [x]) = (if seen_key x = k then Some (svHash x) else first_hash k xs)" for k
    using assms(3) by (auto simp: first_hash_snoc split: option.split)
  have sk: "seen_key x = (svHeight x, svPhase x, toLowerCase (svValidator x))" by (simp add: seen_key_def)
  have "(\<exists>e\<in>set rs. ev_key e = k) \<longleftrightarrow>
      (\<exists>y\<in>set (xs @ [x]). seen_key y = k \<and> first_hash k (xs @ [x]) \<noteq> Some (svHash y))" for k
    unfolding reports_firstD(4) [OF assms(1)] same
    using assms(3) first_hash_None [of k xs] by (cases "seen_key x = k") auto
  moreover have "fst ` set (votes d) \<subseteq> svHeight ` set (xs @ [x])" using reports_firstD(2) [OF assms(1)] by auto
  moreover have "map_option tvHash (tracked (vote_stored d (svHeight x) (svPhase x) (toLowerCase (svValidator x)) tv) h ph nid)
      = first_hash (h, ph, nid) (xs @ [x])" for h ph nid
    unfolding same sk using reports_firstD(3) [OF assms(1)] assms(2) by auto
  ultimately show ?thesis
    unfolding reports_first_def using reports_firstD(1) [OF assms(1)] by simp
qed

lemma reports_first_unpruned:
  assumes "reports_first xs d rs" and "card (svHeight ` set xs) \<le> maxTrackedHeights d"
  shows "pruneOldHeights d = d"
proof -
  have "length (votes d) = card (fst ` set (votes d))"
    using reports_firstD(1) [OF assms(1)] distinct_card [of "map fst (votes d)"] by (simp add: jmap_ok_def)
  also have "\<dots> \<le> card (svHeight ` set xs)" by (intro card_mono reports_firstD(2) [OF assms(1)]) simp
  finally show ?thesis using assms(2) by (simp add: pruneOldHeights_def)
qed

lemma detect_all_first:
  assumes "card (svHeight ` set xs) \<le> maxTrackedHeights d0" and "votes d0 = []" and "\<forall>x\<in>set xs. svHash x \<noteq> []"
    and "detect_all d0 xs = (d, reports)"
  shows "maxTrackedHeights d = maxTrackedHeights d0 \<and> reports_first xs d reports"
  using assms
proof (induction xs arbitrary: d reports rule: rev_induct)
  case Nil
  then show ?case by (simp add: detect_all_def reports_first_def tracked_def get_or_def)
next
  case (snoc x xs)
  obtain d1 rs where d1: "detect_all d0 xs = (d1, rs)" by fastforce
  have "card (svHeight ` set xs) \<le> card (svHeight ` set (xs @ [x]))" by (intro card_mono) auto
  then have IH: "maxTrackedHeights d1 = maxTrackedHeights d0" "reports_first xs d1 rs"
    using snoc.IH [OF _ snoc.prems(2) _ d1] snoc.prems(1,3) by simp_all
  let ?nid = "toLowerCase (svValidator x)"
  show ?case
  proof (cases rule: recordVote_cases [of d1 "svHeight x" "svPhase x" "svValidator x" "svHash x" "svNow x" "svSignature x"])
    case (detected tv)
    let ?ev = "proof_of (svNow x) ?nid (svHeight x) (svPhase x) tv (svHash x) (svSignature x)"
    have "reports_first (xs @ [x]) (pushEvidence (evictGlobal (evictOwn d1 ?nid) ?nid) ?ev) (rs @ [?ev])"
      using reports_first_detected [OF IH(2) detected(1,3)] by (simp add: ev_key_def proof_of_def seen_key_def)
    then show ?thesis using snoc.prems(4) IH(1) by (auto simp: detect_all_snoc d1 record_seen_def detected(4))
  next
    case stored
    let ?tv = "\<lparr>tvHash = svHash x, tvSignature = (case svSignature x of None \<Rightarrow> [] | Some s \<Rightarrow> s)\<rparr>"
    have "first_hash (seen_key x) xs = None \<or> first_hash (seen_key x) xs = Some (svHash x)"
      using reports_firstD(3) [OF IH(2), of "svHeight x" "svPhase x" ?nid] stored(1) snoc.prems(3)
        first_hash_Some [of "seen_key x" xs "[]"]
      by (cases "tracked d1 (svHeight x) (svPhase x) ?nid") (fastforce simp: seen_key_def)+
    from reports_first_stored [OF IH(2) _ this, of ?tv]
    have r: "reports_first (xs @ [x]) (vote_stored d1 (svHeight x) (svPhase x) ?nid ?tv) rs" by simp
    from reports_first_unpruned [OF r] r show ?thesis
      using snoc.prems(1,4) IH(1) by (auto simp: detect_all_snoc d1 record_seen_def stored(2))
  qed
qed

lemma two_hashes_not_first:
  "(\<exists>x\<in>set xs. seen_key x = k \<and> first_hash k xs \<noteq> Some (svHash x)) \<longleftrightarrow>
   (\<exists>x\<in>set xs. \<exists>y\<in>set xs. seen_key x = k \<and> seen_key y = k \<and> svHash x \<noteq> svHash y)"
  (is "?A \<longleftrightarrow> ?B")
proof
  assume ?A
  then obtain x where x: "x \<in> set xs" "seen_key x = k" "first_hash k xs \<noteq> Some (svHash x)" by blast
  then obtain a where a: "first_hash k xs = Some a" using first_hash_None [of k xs] by fastforce
  from first_hash_Some [OF a] x a show ?B by auto
next
  assume ?B
  then obtain x y where "x \<in> set xs" "y \<in> set xs" "seen_key x = k" "seen_key y = k" "svHash x \<noteq> svHash y" by blast
  then show ?A by (cases "first_hash k xs = Some (svHash x)") auto
qed

text \<open>Pruning by height: how many of the recorded heights are above an entry's.\<close>

lemma unique_heights:
  "distinct acc \<Longrightarrow> distinct (foldl (\<lambda>s e. set_add (f e) s) acc es) \<and>
   set (foldl (\<lambda>s e. set_add (f e) s) acc es) = set acc \<union> f ` set es"
  by (induction es arbitrary: acc) auto

lemma sorted_above:
  assumes "sorted s" and "distinct s" and "i < length s"
  shows "card {h \<in> set s. s ! i < h} = length s - Suc i"
proof -
  have "{h \<in> set s. s ! i < h} = set (drop (Suc i) s)"
  proof (intro set_eqI iffI)
    fix h assume "h \<in> {h \<in> set s. s ! i < h}"
    then obtain j where j: "j < length s" "h = s ! j" "s ! i < s ! j" by (auto simp: in_set_conv_nth)
    then have "i < j" using assms sorted_nth_mono [OF assms(1), of j i] by (meson leD leI)
    with j show "h \<in> set (drop (Suc i) s)" by (auto simp: in_set_conv_nth intro!: exI [of _ "j - Suc i"])
  next
    fix h assume "h \<in> set (drop (Suc i) s)"
    then obtain j where "i < j" "j < length s" "h = s ! j"
      by (auto simp: in_set_conv_nth) (metis add_Suc_right less_add_Suc1 add.commute less_diff_conv)
    then show "h \<in> {h \<in> set s. s ! i < h}"
      using sorted_nth_mono [OF assms(1), of i j] nth_eq_iff_index_eq [OF assms(2), of i j] by (auto simp: order_le_less)
  qed
  then show ?thesis using assms(2) by (simp add: distinct_card)
qed

lemma cutoff_iff:
  assumes "distinct hs" and "0 < keep" and "keep < length hs" and "h \<in> set hs"
  shows "rev (sort hs) ! (keep - 1) \<le> h \<longleftrightarrow> card {h' \<in> set hs. h < h'} < keep"
proof -
  let ?s = "sort hs"
  have s: "sorted ?s" "distinct ?s" "set ?s = set hs" "length ?s = length hs" using assms(1) by auto
  obtain i where i: "i < length hs" "h = ?s ! i" using assms(4) s(3,4) by (metis in_set_conv_nth)
  have "rev ?s ! (keep - 1) = ?s ! (length hs - keep)" using assms(2,3) by (simp add: rev_nth)
  moreover have "?s ! (length hs - keep) \<le> ?s ! i \<longleftrightarrow> length hs - keep \<le> i"
  proof
    assume "?s ! (length hs - keep) \<le> ?s ! i"
    then show "length hs - keep \<le> i"
      using s i assms(2,3) sorted_nth_mono [OF s(1), of i "length hs - keep"]
      by (metis diff_less length_greater_0_conv length_pos_if_in_set assms(4) less_imp_le nat_le_linear nth_eq_iff_index_eq order_antisym)
  qed (use s i in \<open>auto intro: sorted_nth_mono\<close>)
  moreover have "card {h' \<in> set hs. h < h'} = length hs - Suc i"
    using sorted_above [OF s(1,2), of i] i s(3,4) by simp
  ultimately show ?thesis using i assms(2,3) by auto
qed

lemma detector_step_limits:
  "maxEvidence (detector_step canonicalize verify d event) = maxEvidence d \<and>
   maxEvidencePerValidator (detector_step canonicalize verify d event) = maxEvidencePerValidator d"
proof (cases event)
  case (VoteSeen x)
  then show ?thesis
    by (cases rule: recordVote_cases [of d "svHeight x" "svPhase x" "svValidator x" "svHash x" "svNow x" "svSignature x"])
      (simp_all add: record_seen_def pushEvidence_def)
qed (simp_all add: importEvidence_def pushEvidence_def evictGlobal_def evictOwnImport_def pruneByMaxHeight_def Let_def
    split: option.split)

lemma detector_run_limits:
  "maxEvidence (detector_run canonicalize verify d events) = maxEvidence d \<and>
   maxEvidencePerValidator (detector_run canonicalize verify d events) = maxEvidencePerValidator d"
  unfolding detector_run_def by (induction events arbitrary: d) (simp_all add: detector_step_limits)


section \<open>Properties\<close>

text \<open>
  (C10) No slander. Whatever votes, gossiped evidence and pruning calls a detector sees, every entry it
  holds names a validator (lower-cased) and two different block hashes, and is backed either by two
  votes the node itself recorded for that height, phase and validator, with the signatures they
  carried, or by two signatures that verify against the accused.
\<close>

theorem evidence_justified:
  assumes "0 < cap" and "0 < perValidator"
    and "e \<in> set (evidence (detector_run canonicalize verify (newDetector tr cap perValidator) events))"
  shows "blockHash1 e \<noteq> blockHash2 e \<and>
    (accused_by_votes (seen_votes events) e \<or> accused_by_signatures canonicalize verify e)"
proof -
  have new: "detector_inv (newDetector tr cap perValidator)" using assms(1,2) by (rule newDetector_inv)
  moreover have "tracks_seen {} (newDetector tr cap perValidator)" "evidence (newDetector tr cap perValidator) = []"
    by (simp_all add: newDetector_def tracks_seen_def tracked_def get_or_def)
  ultimately have "accused_by_votes (seen_votes events) e \<or> accused_by_signatures canonicalize verify e"
    using detector_run_justified assms(3) by blast
  moreover have "evidence_ok e"
    using detector_run_inv [OF new, of canonicalize verify events] assms(3) by (auto simp: detector_inv_def)
  ultimately show ?thesis by (simp add: evidence_ok_def)
qed

definition demo_vote :: "string \<Rightarrow> bigint \<Rightarrow> hex \<Rightarrow> SeenVote" where
  "demo_vote v h bh = \<lparr>svNow = 7, svValidator = v, svHeight = h, svPhase = ''commit'', svHash = bh, svSignature = Some ''0x51''\<rparr>"

theorem evidence_justified_witness:
  "\<exists>e. detector_run (\<lambda>p h b. b) (\<lambda>m s a. s = m) (newDetector 100 1000 100)
       [VoteSeen (demo_vote ''0xA'' 4 ''0x01''), VoteSeen (demo_vote ''0xa'' 4 ''0x02'')] =
     (newDetector 100 1000 100)\<lparr>votes := [(4, [(''commit'', [(''0xa'', \<lparr>tvHash = ''0x01'', tvSignature = ''0x51''\<rparr>)])])],
        evidence := [e], evidenceCountByValidator := [(''0xa'', 1)]\<rparr> \<and>
     accused_by_votes (seen_votes [VoteSeen (demo_vote ''0xA'' 4 ''0x01''), VoteSeen (demo_vote ''0xa'' 4 ''0x02'')]) e"
proof -
  let ?e = "\<lparr>validatorId = ''0xa'', evHeight = 4, evPhase = ''commit'', blockHash1 = ''0x01'', blockHash2 = ''0x02'',
    detectedAtMs = 7, signature1 = Some ''0x51'', signature2 = Some ''0x51''\<rparr>"
  let ?run = "detector_run (\<lambda>p h b. b) (\<lambda>m s a. s = m) (newDetector 100 1000 100)
       [VoteSeen (demo_vote ''0xA'' 4 ''0x01''), VoteSeen (demo_vote ''0xa'' 4 ''0x02'')]"
  have run: "?run = (newDetector 100 1000 100)\<lparr>votes := [(4, [(''commit'', [(''0xa'', \<lparr>tvHash = ''0x01'', tvSignature = ''0x51''\<rparr>)])])],
      evidence := [?e], evidenceCountByValidator := [(''0xa'', 1)]\<rparr>" by code_simp
  then have "?e \<in> set (evidence ?run)" by simp
  from evidence_justified [OF _ _ this]
  have "accused_by_votes (seen_votes [VoteSeen (demo_vote ''0xA'' 4 ''0x01''), VoteSeen (demo_vote ''0xa'' 4 ''0x02'')]) ?e"
    by (auto simp: accused_by_signatures_def)
  with run show ?thesis by blast
qed

text \<open>
  (C11) Detection is sound and complete while no height is pruned. Feed a fresh detector any sequence of
  votes with non-empty hashes over at most \<open>maxTrackedHeights\<close> heights: it reports a validator for a
  height and a phase exactly when the sequence holds two votes of that validator, up to letter case, for that
  height and phase with different block hashes.
\<close>

theorem equivocation_detected_iff:
  assumes "card (svHeight ` set xs) \<le> tr" and "\<forall>x\<in>set xs. svHash x \<noteq> []"
  shows "(\<exists>e\<in>set (snd (detect_all (newDetector tr cap perValidator) xs)). ev_key e = k) \<longleftrightarrow>
    (\<exists>x\<in>set xs. \<exists>y\<in>set xs. seen_key x = k \<and> seen_key y = k \<and> svHash x \<noteq> svHash y)"
proof -
  obtain d reports where run: "detect_all (newDetector tr cap perValidator) xs = (d, reports)" by fastforce
  have new: "votes (newDetector tr cap perValidator) = []" "maxTrackedHeights (newDetector tr cap perValidator) = tr"
    by (simp_all add: newDetector_def)
  have "(\<exists>e\<in>set reports. ev_key e = k) \<longleftrightarrow>
      (\<exists>x\<in>set xs. seen_key x = k \<and> first_hash k xs \<noteq> Some (svHash x))"
    using detect_all_first [OF _ new(1) assms(2) run] assms(1) reports_firstD(4) unfolding new(2) by blast
  then show ?thesis unfolding run snd_conv two_hashes_not_first .
qed

theorem equivocation_detected_iff_witness:
  "\<exists>e\<in>set (snd (detect_all (newDetector 1 1000 100)
      [demo_vote ''0xA'' 4 ''0x01'', demo_vote ''0xB'' 4 ''0x01'', demo_vote ''0xa'' 4 ''0x02''])).
     ev_key e = (4, ''commit'', ''0xa'')"
proof -
  let ?xs = "[demo_vote ''0xA'' 4 ''0x01'', demo_vote ''0xB'' 4 ''0x01'', demo_vote ''0xa'' 4 ''0x02'']"
  have "card (svHeight ` set ?xs) \<le> 1" "\<forall>x\<in>set ?xs. svHash x \<noteq> []"
    "\<exists>x\<in>set ?xs. \<exists>y\<in>set ?xs. seen_key x = (4, ''commit'', ''0xa'') \<and> seen_key y = (4, ''commit'', ''0xa'') \<and>
       svHash x \<noteq> svHash y" by code_simp+
  with equivocation_detected_iff [of ?xs 1] show ?thesis by blast
qed

text \<open>
  (C12) The evidence store is bounded and fair. After any events the store holds at most
  \<open>maxEvidence\<close> entries and at most \<open>maxEvidencePerValidator\<close> of one validator, each
  validator's counter is the number of its entries, and the repair path for a counter out of step is never taken.
\<close>

theorem evidence_bounded:
  assumes "0 < cap" and "0 < perValidator"
  shows "let d = detector_run canonicalize verify (newDetector tr cap perValidator) events
    in length (evidence d) \<le> cap \<and> int (length (getEvidenceFor d v)) \<le> perValidator \<and>
       get_or 0 (evidenceCountByValidator d) (toLowerCase v) = int (length (getEvidenceFor d v)) \<and>
       droppedTotal d = 0"
proof -
  have new: "detector_inv (newDetector tr cap perValidator)" using assms by (rule newDetector_inv)
  let ?d = "detector_run canonicalize verify (newDetector tr cap perValidator) events"
  have "droppedTotal ?d = 0"
    unfolding detector_run_dropped [OF new] by (simp add: newDetector_def)
  moreover have "maxEvidence ?d = cap" "maxEvidencePerValidator ?d = perValidator"
    using detector_run_limits [of canonicalize verify "newDetector tr cap perValidator" events]
    by (simp_all add: newDetector_def)
  ultimately show ?thesis
    using detector_run_inv [OF new, of canonicalize verify events]
    by (auto simp: Let_def detector_inv_def exact_counts_def getEvidenceFor_def entries_def)
qed

theorem evidence_bounded_witness:
  "let d = detector_run (\<lambda>p h b. b) (\<lambda>m s a. s = m) (newDetector 100 2 1)
      [VoteSeen (demo_vote ''0xA'' 4 ''0x01''), VoteSeen (demo_vote ''0xa'' 4 ''0x02''), VoteSeen (demo_vote ''0xa'' 4 ''0x03'')]
   in map blockHash2 (evidence d) = [''0x03''] \<and> length (evidence d) \<le> 2 \<and>
      get_or 0 (evidenceCountByValidator d) ''0xa'' = 1"
proof -
  let ?d = "detector_run (\<lambda>p h b. b) (\<lambda>m s a. s = m) (newDetector 100 2 1)
      [VoteSeen (demo_vote ''0xA'' 4 ''0x01''), VoteSeen (demo_vote ''0xa'' 4 ''0x02''), VoteSeen (demo_vote ''0xa'' 4 ''0x03'')]"
  have "map blockHash2 (evidence ?d) = [''0x03'']" "toLowerCase ''0xa'' = ''0xa''" "length (getEvidenceFor ?d ''0xa'') = 1"
    by code_simp+
  with evidence_bounded [of 2 1 "\<lambda>p h b. b" "\<lambda>m s a. s = m" 100 _ "''0xa''"] show ?thesis
    unfolding Let_def by (metis of_nat_1 zero_less_numeral zero_less_one)
qed

text \<open>
  The recency prune keeps exactly the entries at the \<open>keep\<close> highest recorded heights, in order, and
  returns how many it removed.
\<close>

lemma pruneByMaxHeight_keeps_highest:
  assumes "exact_counts d"
  shows "evidence (fst (pruneByMaxHeight d keep)) =
      filter (\<lambda>e. card {h \<in> evHeight ` set (evidence d). evHeight e < h} < keep) (evidence d) \<and>
    snd (pruneByMaxHeight d keep) = length (evidence d) - length (evidence (fst (pruneByMaxHeight d keep)))"
proof -
  let ?es = "evidence d" and ?H = "evHeight ` set (evidence d)"
  define hs where "hs = foldl (\<lambda>s e. set_add (evHeight e) s) [] ?es"
  have hs: "distinct hs" "set hs = ?H" using unique_heights [of "[]" evHeight ?es] by (simp_all add: hs_def)
  consider "keep = 0" | "0 < keep" "length hs \<le> keep" | "0 < keep" "keep < length hs" by linarith
  then show ?thesis
  proof cases
    case 1
    then show ?thesis by (simp add: pruneByMaxHeight_def)
  next
    case 2
    have "card {h \<in> ?H. evHeight e < h} < keep" if "e \<in> set ?es" for e
    proof -
      have "{h \<in> ?H. evHeight e < h} \<subset> ?H" using that by blast
      then have "card {h \<in> ?H. evHeight e < h} < card ?H" by (intro psubset_card_mono) auto
      then show ?thesis using 2(2) hs distinct_card by fastforce
    qed
    then have "filter (\<lambda>e. card {h \<in> ?H. evHeight e < h} < keep) ?es = ?es" by (simp add: filter_id_conv)
    with 2 show ?thesis by (simp add: pruneByMaxHeight_def hs_def [symmetric])
  next
    case 3
    have "rev (sort hs) ! (keep - 1) \<le> evHeight e \<longleftrightarrow> card {h \<in> ?H. evHeight e < h} < keep"
      if "e \<in> set ?es" for e
      using cutoff_iff [OF hs(1) 3, of "evHeight e"] that unfolding hs(2) by simp
    then have "filter (\<lambda>e. rev (sort hs) ! (keep - 1) \<le> evHeight e) ?es =
        filter (\<lambda>e. card {h \<in> ?H. evHeight e < h} < keep) ?es" by (intro filter_cong) auto
    moreover have "snd (clearEvidenceBefore d c) = length ?es - length (evidence (fst (clearEvidenceBefore d c)))" for c
      by (simp add: clearEvidenceBefore_def split: prod.split)
    ultimately show ?thesis
      using 3 by (simp add: pruneByMaxHeight_def hs_def [symmetric] clearEvidenceBefore_filter(1) [OF assms])
  qed
qed

end
