(* ===== verification/Slashing.thy ===== *)
theory Slashing
  imports Governance Equivocation
begin

text \<open>
  The slashing handler: \<^verbatim>\<open>node/src/bft-slashing.ts\<close>. The handler owns its replay set and its history and
  shares the governance object, which is a field of the handler's record here. \<^verbatim>\<open>Date.now()\<close> is an
  argument; the \<^verbatim>\<open>onSlash\<close> callback receives the event the handler returns and is taken not to throw. The
  percentage is an integer: the code's \<^verbatim>\<open>number\<close> may be a fraction, on which \<^verbatim>\<open>BigInt\<close> throws.
\<close>

record SlashEvent =
  slashedId :: string
  slashedHeight :: bigint
  slashedPhase :: string
  slashedAmount :: bigint
  remainingStake :: bigint
  removed :: bool
  slashEvidence :: EquivocationEvidence
  slashTimestamp :: int

record BftSlashingConfig =
  slashPercent :: int
  minStakeThreshold :: "bigint option"
  autoRemove :: bool

definition DEFAULT_SLASHING :: BftSlashingConfig where
  "DEFAULT_SLASHING = \<lparr>slashPercent = 10, minStakeThreshold = None, autoRemove = True\<rparr>"

definition MAX_CONSUMED_EVIDENCE :: nat where
  "MAX_CONSUMED_EVIDENCE = 10000"

record BftSlashingHandler =
  slashConfig :: BftSlashingConfig
  governance :: ValidatorGovernance
  slashHistory :: "SlashEvent list"
  consumedEvidence :: "string list"

datatype SlashError = PercentOutOfRange | GovernanceError GovError

definition newSlashingHandler :: "ValidatorGovernance \<Rightarrow> BftSlashingConfig \<Rightarrow> SlashError + BftSlashingHandler" where
  "newSlashingHandler g cfg =
     (if slashPercent cfg < 0 \<or> slashPercent cfg > 100 then Inl PercentOutOfRange
      else Inr \<lparr>slashConfig = cfg, governance = g, slashHistory = [], consumedEvidence = []\<rparr>)"

definition evidenceKey :: "EquivocationEvidence \<Rightarrow> string" where
  "evidenceKey ev =
     (let hashes = sort (map toLowerCase [blockHash1 ev, blockHash2 ev])
      in toLowerCase (validatorId ev) @ ''|'' @ show_int (evHeight ev) @ ''|'' @ evPhase ev @ ''|'' @
         (hashes ! 0) @ ''|'' @ (hashes ! 1))"

text \<open>The loop that makes room for one more key, oldest first.\<close>

fun evictConsumed :: "string list \<Rightarrow> string list" where
  "evictConsumed [] = []"
| "evictConsumed (k # ks) = (if length (k # ks) \<ge> MAX_CONSUMED_EVIDENCE then evictConsumed ks else k # ks)"

definition recordSlash :: "SlashEvent list \<Rightarrow> SlashEvent \<Rightarrow> SlashEvent list" where
  "recordSlash hist event =
     (if length hist \<ge> 10000 then drop (length hist - 9999) hist else hist) @ [event]"

definition handleEquivocation ::
    "int \<Rightarrow> BftSlashingHandler \<Rightarrow> EquivocationEvidence \<Rightarrow> (SlashError, BftSlashingHandler, SlashEvent option) outcome" where
  "handleEquivocation now h ev =
     (case getValidator (governance h) (validatorId ev) of None \<Rightarrow> (h, Inr None)
      | Some v \<Rightarrow>
          if \<not> active v then (h, Inr None)
          else if evidenceKey ev \<in> set (consumedEvidence h) then (h, Inr None)
          else
            let h1 = h\<lparr>consumedEvidence := set_add (evidenceKey ev) (evictConsumed (consumedEvidence h))\<rparr>;
                slashAmount = (infoStake v * slashPercent (slashConfig h)) sdiv 100;
                remaining = infoStake v - slashAmount;
                g1 = applySlash (governance h) (validatorId ev) slashAmount
            in case (if slashAmount > 0 then depositTreasury g1 slashAmount else Inr g1) of
                 Inl e \<Rightarrow> (h1\<lparr>governance := g1\<rparr>, Inl (GovernanceError e))
               | Inr g2 \<Rightarrow>
                   let threshold = (case minStakeThreshold (slashConfig h) of Some m \<Rightarrow> m | None \<Rightarrow> getMinStake g2);
                       shouldRemove = (autoRemove (slashConfig h) \<and> remaining < threshold);
                       g3 = (if shouldRemove then deactivateValidator g2 (validatorId ev) else g2);
                       event = \<lparr>slashedId = validatorId ev, slashedHeight = evHeight ev, slashedPhase = evPhase ev,
                         slashedAmount = slashAmount, remainingStake = remaining, removed = shouldRemove,
                         slashEvidence = ev, slashTimestamp = now\<rparr>
                   in (h1\<lparr>governance := g3, slashHistory := recordSlash (slashHistory h) event\<rparr>, Inr (Some event)))"

definition getSlashesFor :: "BftSlashingHandler \<Rightarrow> string \<Rightarrow> SlashEvent list" where
  "getSlashesFor h i = filter (\<lambda>e. slashedId e = i) (slashHistory h)"

definition getTotalSlashed :: "BftSlashingHandler \<Rightarrow> bigint" where
  "getTotalSlashed h = foldl (\<lambda>sum e. sum + slashedAmount e) 0 (slashHistory h)"


section \<open>The funds a slash moves\<close>

text \<open>
  What the handler relies on in the registry of stakes: taking an amount an active member can cover lowers the
  funds by that amount, a deposit raises them by it, and a deactivation leaves them alone.
\<close>

locale slashable_funds =
  fixes valid :: "'g \<Rightarrow> bool" and funds :: "'g \<Rightarrow> int" and held :: "'g \<Rightarrow> 'i \<Rightarrow> int option"
    and take :: "'g \<Rightarrow> 'i \<Rightarrow> int \<Rightarrow> 'g" and pay :: "'g \<Rightarrow> int \<Rightarrow> 'e + 'g" and drop :: "'g \<Rightarrow> 'i \<Rightarrow> 'g"
  assumes take_valid: "valid g \<Longrightarrow> valid (take g i a)"
    and take_funds: "valid g \<Longrightarrow> held g i = Some s \<Longrightarrow> 0 \<le> a \<Longrightarrow> a \<le> s \<Longrightarrow> funds (take g i a) = funds g - a"
    and pay_ok: "0 < a \<Longrightarrow> \<exists>g'. pay g a = Inr g'"
    and pay_valid: "valid g \<Longrightarrow> pay g a = Inr g' \<Longrightarrow> valid g'"
    and pay_funds: "pay g a = Inr g' \<Longrightarrow> funds g' = funds g + a"
    and drop_valid: "valid g \<Longrightarrow> valid (drop g i)"
    and drop_funds: "valid g \<Longrightarrow> funds (drop g i) = funds g"
begin

lemma seize_funds:
  assumes "valid g" and "held g i = Some s" and "0 \<le> a" and "a \<le> s"
    and "(if 0 < a then pay (take g i a) a else Inr (take g i a)) = Inr g'"
  shows "funds g' = funds g \<and> valid g' \<and> funds (drop g' i) = funds g \<and> valid (drop g' i)"
proof -
  have v: "valid (take g i a)" using assms(1) by (rule take_valid)
  have f: "funds (take g i a) = funds g - a" using assms(1-4) by (rule take_funds)
  have "funds g' = funds g \<and> valid g'"
  proof (cases "0 < a")
    case True
    then show ?thesis using assms(5) pay_valid [OF v] pay_funds f by fastforce
  next
    case False
    then show ?thesis using assms(3,5) v f by auto
  qed
  then show ?thesis using drop_valid drop_funds by simp
qed

lemma seize_succeeds: "\<exists>g'. (if 0 < a then pay (take g i a) a else Inr (take g i a)) = Inr g'"
  using pay_ok [of a] by auto

end

definition totalFunds :: "ValidatorGovernance \<Rightarrow> bigint" where
  "totalFunds g = sum_list (map (\<lambda>(k, v). infoStake v) (registry g)) + treasuryBalance g"

definition heldStake :: "ValidatorGovernance \<Rightarrow> string \<Rightarrow> bigint option" where
  "heldStake g i = (case jget (registry g) i of None \<Rightarrow> None | Some v \<Rightarrow> if active v then Some (infoStake v) else None)"

lemma sum_jset_stake:
  assumes "jmap_ok m" and "jget m i = Some w"
  shows "sum_list (map (\<lambda>(k, v). f v) (jset i v m)) = sum_list (map (\<lambda>(k, v). f v) m) - f w + (f v :: int)"
  using assms
proof (induction m)
  case (Cons e m)
  then show ?case by (cases e) (auto simp: jmap_ok_def)
qed simp

lemma totalFunds_recalc: "registry_ok g \<Longrightarrow> totalFunds (recalcVotingPower g) = totalFunds g"
  by (auto simp: totalFunds_def recalc_registry intro!: arg_cong [of _ _ sum_list] map_cong)

lemma totalFunds_jset:
  assumes "registry_ok g" and "jget (registry g) i = Some w" and "infoId v = i"
  shows "totalFunds (recalcVotingPower (g\<lparr>registry := jset i v (registry g)\<rparr>)) = totalFunds g - infoStake w + infoStake v"
  unfolding totalFunds_recalc [OF registry_ok_jset [OF assms(1,3)]]
  using sum_jset_stake [of "registry g" i w infoStake v] assms(1,2) by (simp add: totalFunds_def registry_ok_def)

lemma registry_id: "registry_ok g \<Longrightarrow> jget (registry g) i = Some v \<Longrightarrow> infoId v = i"
  by (auto simp: registry_ok_def jball_iff)

lemma recalc_jset_ok:
  "registry_ok g \<Longrightarrow> infoId v = i \<Longrightarrow> registry_ok (recalcVotingPower (g\<lparr>registry := jset i v (registry g)\<rparr>))"
  by (intro recalc_ok(1) registry_ok_jset)

lemma applySlash_registry_ok:
  assumes "registry_ok g"
  shows "registry_ok (applySlash g i a)"
proof (cases "jget (registry g) i")
  case (Some v)
  have "registry_ok (recalcVotingPower (g\<lparr>registry := jset i (v\<lparr>infoStake := s, active := b\<rparr>) (registry g)\<rparr>))" for s b
    using registry_id [OF assms Some] by (intro recalc_jset_ok [OF assms]) simp
  then show ?thesis using assms Some by (simp add: applySlash_def Let_def)
qed (use assms in \<open>simp add: applySlash_def\<close>)

lemma applySlash_funds:
  assumes "registry_ok g" and "heldStake g i = Some s" and "0 \<le> a" and "a \<le> s"
  shows "totalFunds (applySlash g i a) = totalFunds g - a"
proof -
  obtain v where v: "jget (registry g) i = Some v" "active v" "infoStake v = s"
    using assms(2) by (auto simp: heldStake_def split: option.splits if_splits)
  show ?thesis
  proof (cases "a \<le> 0")
    case True
    then show ?thesis using assms(3) by (simp add: applySlash_def)
  next
    case False
    then show ?thesis
      using totalFunds_jset [OF assms(1) v(1)] v assms(4) registry_id [OF assms(1) v(1)]
      by (auto simp: applySlash_def Let_def)
  qed
qed

interpretation seizure: slashable_funds registry_ok totalFunds heldStake applySlash depositTreasury deactivateValidator
proof
  show "registry_ok (applySlash g i a)" if "registry_ok g" for g i a using that by (rule applySlash_registry_ok)
  show "totalFunds (applySlash g i a) = totalFunds g - a"
    if "registry_ok g" "heldStake g i = Some s" "0 \<le> a" "a \<le> s" for g i s a
    using that by (rule applySlash_funds)
  show "\<exists>g'. depositTreasury g a = Inr g'" if "0 < a" for g a using that by (simp add: depositTreasury_def)
  show "registry_ok g'" if "registry_ok g" "depositTreasury g a = Inr g'" for g a g'
    using that by (auto simp: depositTreasury_def registry_ok_def split: if_splits)
  show "totalFunds g' = totalFunds g + a" if "depositTreasury g a = Inr g'" for g a g'
    using that by (auto simp: depositTreasury_def totalFunds_def split: if_splits)
  show "registry_ok (deactivateValidator g i)" if "registry_ok g" for g i
    using that by (auto simp: deactivateValidator_def registry_id split: option.split intro!: recalc_jset_ok)
  show "totalFunds (deactivateValidator g i) = totalFunds g" if "registry_ok g" for g i
    using that by (auto simp: deactivateValidator_def totalFunds_jset registry_id split: option.split)
qed


section \<open>What the handler does\<close>

lemma slash_amount:
  assumes "0 \<le> (s :: int)" and "0 \<le> p" and "p \<le> 100"
  shows "(s * p) sdiv 100 = s * p div 100" and "0 \<le> s * p div 100" and "s * p div 100 \<le> s"
proof -
  show "(s * p) sdiv 100 = s * p div 100" "0 \<le> s * p div 100"
    using assms by (simp_all add: pos_imp_zdiv_nonneg_iff)
  have "s * p \<le> s * 100" using assms by (intro mult_left_mono) auto
  then have "s * p div 100 \<le> s * 100 div 100" by (intro div_mono_int) auto
  then show "s * p div 100 \<le> s" by simp
qed

lemma getValidator_recalc:
  "registry_ok g \<Longrightarrow> getValidator (recalcVotingPower g) i =
     map_option (\<lambda>v. v\<lparr>votingPower := power_of (activeStake g) v\<rparr>) (getValidator g i)"
  by (simp add: getValidator_def recalc_registry map_of_map)

text \<open>What of an entry a recalculation keeps.\<close>

definition holding :: "ValidatorGovernance \<Rightarrow> string \<Rightarrow> (bigint \<times> bool) option" where
  "holding g i = map_option (\<lambda>v. (infoStake v, active v)) (getValidator g i)"

lemma holding_recalc_jset:
  assumes "registry_ok g" and "infoId v = i"
  shows "holding (recalcVotingPower (g\<lparr>registry := jset i v (registry g)\<rparr>)) = (holding g)(i \<mapsto> (infoStake v, active v))"
  using getValidator_recalc [OF registry_ok_jset [OF assms]]
  by (auto simp: fun_eq_iff holding_def getValidator_def option.map_comp comp_def)

lemma holding_applySlash:
  assumes "registry_ok g" and "holding g i = Some (s, True)" and "0 \<le> a" and "a \<le> s"
  shows "holding (applySlash g i a) = (holding g)(i \<mapsto> (s - a, a = 0 \<or> s - a \<noteq> 0))"
proof (cases "a = 0")
  case True
  with assms(2) show ?thesis by (auto simp: applySlash_def)
next
  case False
  obtain v where v: "jget (registry g) i = Some v" "infoStake v = s" "active v"
    using assms(2) by (auto simp: holding_def getValidator_def)
  have "infoId v = i" by (rule registry_id [OF assms(1) v(1)])
  with v False assms(3,4) show ?thesis
    by (auto simp: applySlash_def Let_def holding_recalc_jset [OF assms(1)])
qed

lemma holding_deactivate:
  assumes "registry_ok g" and "holding g i = Some (s, b)"
  shows "holding (deactivateValidator g i) = (holding g)(i \<mapsto> (s, False))"
proof -
  obtain v where v: "jget (registry g) i = Some v" "infoStake v = s" "active v = b"
    using assms(2) by (auto simp: holding_def getValidator_def)
  have "infoId v = i" by (rule registry_id [OF assms(1) v(1)])
  with v assms(2) show ?thesis
    by (auto simp: deactivateValidator_def holding_recalc_jset [OF assms(1)])
qed

lemma depositTreasury_holding: "depositTreasury g a = Inr g' \<Longrightarrow> holding g' = holding g"
  by (auto simp: depositTreasury_def holding_def getValidator_def fun_eq_iff split: if_splits)

definition handler_ok :: "BftSlashingHandler \<Rightarrow> bool" where
  "handler_ok h \<longleftrightarrow>
     registry_ok (governance h) \<and> 0 \<le> slashPercent (slashConfig h) \<and> slashPercent (slashConfig h) \<le> 100 \<and>
     (\<forall>i s b. holding (governance h) i = Some (s, b) \<longrightarrow> 0 \<le> s)"

lemma handleEquivocation_cases:
  assumes "handler_ok h"
  obtains (ignored) "handleEquivocation now h ev = (h, Inr None)"
      "(\<forall>s. holding (governance h) (validatorId ev) \<noteq> Some (s, True)) \<or> evidenceKey ev \<in> set (consumedEvidence h)"
  | (slashed) s g event where
      "holding (governance h) (validatorId ev) = Some (s, True)" "evidenceKey ev \<notin> set (consumedEvidence h)"
      "handleEquivocation now h ev =
         (h\<lparr>consumedEvidence := evictConsumed (consumedEvidence h) @ [evidenceKey ev], governance := g,
            slashHistory := recordSlash (slashHistory h) event\<rparr>, Inr (Some event))"
      "slashedId event = validatorId ev" "slashedAmount event = s * slashPercent (slashConfig h) div 100"
      "remainingStake event = s - slashedAmount event" "registry_ok g" "totalFunds g = totalFunds (governance h)"
      "holding g = (holding (governance h))(validatorId ev \<mapsto>
         (s - slashedAmount event, \<not> removed event \<and> (slashedAmount event = 0 \<or> s \<noteq> slashedAmount event)))"
proof (cases "\<exists>s. holding (governance h) (validatorId ev) = Some (s, True) \<and> evidenceKey ev \<notin> set (consumedEvidence h)")
  case False
  then have "handleEquivocation now h ev = (h, Inr None)"
    by (auto simp: handleEquivocation_def holding_def split: option.splits)
  with False show ?thesis by (intro ignored) auto
next
  case True
  then obtain s where s: "holding (governance h) (validatorId ev) = Some (s, True)"
    and fresh: "evidenceKey ev \<notin> set (consumedEvidence h)" by blast
  then obtain v where v: "getValidator (governance h) (validatorId ev) = Some v" "active v" "infoStake v = s"
    by (auto simp: holding_def)
  let ?a = "s * slashPercent (slashConfig h) div 100" and ?i = "validatorId ev"
  have ok: "registry_ok (governance h)" and "0 \<le> s" "0 \<le> slashPercent (slashConfig h)" "slashPercent (slashConfig h) \<le> 100"
    using assms s by (auto simp: handler_ok_def)
  note a = slash_amount [OF this(2-4)]
  have "heldStake (governance h) ?i = Some s" using v by (simp add: heldStake_def getValidator_def)
  obtain g2 where g2: "(if 0 < ?a then depositTreasury (applySlash (governance h) ?i ?a) ?a
      else Inr (applySlash (governance h) ?i ?a)) = Inr g2" using seizure.seize_succeeds by blast
  note funds = seizure.seize_funds [OF ok \<open>heldStake (governance h) ?i = Some s\<close> a(2,3) g2]
  have hold2: "holding g2 = (holding (governance h))(?i \<mapsto> (s - ?a, ?a = 0 \<or> s - ?a \<noteq> 0))"
    using g2 depositTreasury_holding holding_applySlash [OF ok s a(2,3)] by (auto split: if_splits)
  define rm where "rm = (autoRemove (slashConfig h) \<and>
      s - ?a < (case minStakeThreshold (slashConfig h) of Some m \<Rightarrow> m | None \<Rightarrow> getMinStake g2))"
  define event where "event = \<lparr>slashedId = ?i, slashedHeight = evHeight ev, slashedPhase = evPhase ev,
      slashedAmount = ?a, remainingStake = s - ?a, removed = rm, slashEvidence = ev, slashTimestamp = now\<rparr>"
  let ?g = "if rm then deactivateValidator g2 ?i else g2"
  have "set (evictConsumed ks) \<subseteq> set ks" for ks by (induction ks rule: evictConsumed.induct) auto
  then have add: "set_add (evidenceKey ev) (evictConsumed (consumedEvidence h)) =
      evictConsumed (consumedEvidence h) @ [evidenceKey ev]" using fresh by (auto simp: set_add_def)
  show ?thesis
  proof (rule slashed [where g = ?g and event = event, OF s fresh])
    show "handleEquivocation now h ev =
        (h\<lparr>consumedEvidence := evictConsumed (consumedEvidence h) @ [evidenceKey ev], governance := ?g,
           slashHistory := recordSlash (slashHistory h) event\<rparr>, Inr (Some event))"
      unfolding handleEquivocation_def v(1) option.case Let_def v(3) a(1) g2 add
      using v(2) fresh by (simp add: rm_def event_def)
    show "holding ?g = (holding (governance h))(?i \<mapsto> (s - slashedAmount event,
        \<not> removed event \<and> (slashedAmount event = 0 \<or> s \<noteq> slashedAmount event)))"
      using hold2 holding_deactivate [of g2 ?i] funds by (auto simp: event_def)
  qed (use funds in \<open>simp_all add: event_def\<close>)
qed


section \<open>The replay set\<close>

lemma evictConsumed_keeps:
  assumes "length post + 1 < MAX_CONSUMED_EVIDENCE"
  shows "\<exists>pre'. evictConsumed (pre @ k # post) = pre' @ k # post"
proof (induction pre)
  case Nil
  show ?case using assms by auto
next
  case (Cons x pre)
  then show ?case by (auto intro: exI [of _ "x # pre"])
qed

definition handle_all :: "BftSlashingHandler \<Rightarrow> (int \<times> EquivocationEvidence) list \<Rightarrow> BftSlashingHandler" where
  "handle_all h evs = foldl (\<lambda>h (now, ev). fst (handleEquivocation now h ev)) h evs"

lemma handleEquivocation_ok:
  assumes "handler_ok h"
  shows "handler_ok (fst (handleEquivocation now h ev))"
  using assms
proof (cases rule: handleEquivocation_cases [where now = now and ev = ev])
  case ignored
  with assms show ?thesis by simp
next
  case (slashed s g event)
  have "0 \<le> s" "0 \<le> slashPercent (slashConfig h)" "slashPercent (slashConfig h) \<le> 100"
    using assms slashed(1) by (auto simp: handler_ok_def)
  note slash_amount(3) [OF this]
  then show ?thesis using assms slashed(3,5,7,9) by (auto simp: handler_ok_def split: if_splits)
qed

lemma key_survives:
  assumes "handler_ok h" and "consumedEvidence h = pre @ k # post" and "length post + length evs < MAX_CONSUMED_EVIDENCE"
  shows "k \<in> set (consumedEvidence (handle_all h evs)) \<and> handler_ok (handle_all h evs)"
  using assms
proof (induction evs arbitrary: h pre post)
  case Nil
  then show ?case by (simp add: handle_all_def)
next
  case (Cons e evs)
  obtain now ev where e: "e = (now, ev)" by fastforce
  let ?h = "fst (handleEquivocation now h ev)"
  have ok: "handler_ok ?h" using Cons.prems(1) by (rule handleEquivocation_ok)
  obtain pre' where pre': "evictConsumed (pre @ k # post) = pre' @ k # post"
    using evictConsumed_keeps [of post] Cons.prems(3) by fastforce
  have "\<exists>pre post. consumedEvidence ?h = pre @ k # post \<and> length post + length evs < MAX_CONSUMED_EVIDENCE"
    using Cons.prems(1)
  proof (cases rule: handleEquivocation_cases [where now = now and ev = ev])
    case ignored
    then show ?thesis using Cons.prems(2,3) by (intro exI [of _ pre] exI [of _ post]) simp
  next
    case (slashed s g event)
    then have "consumedEvidence ?h = pre' @ k # (post @ [evidenceKey ev])"
      using Cons.prems(2) pre' by simp
    with Cons.prems(3) show ?thesis by (intro exI [of _ pre'] exI [of _ "post @ [evidenceKey ev]"]) simp
  qed
  then show ?case using Cons.IH [OF ok] by (auto simp: handle_all_def e)
qed


section \<open>Properties\<close>


definition demo_handler :: BftSlashingHandler where
  "demo_handler = \<lparr>slashConfig = DEFAULT_SLASHING,
     governance = initGenesis (newGovernance DEFAULT_GOVERNANCE)
       [\<lparr>genesisId = ''a'', genesisAddress = ''0xa'', genesisStake = 2000000000000000005\<rparr>,
        \<lparr>genesisId = ''B'', genesisAddress = ''0xb'', genesisStake = 3000000000000000000\<rparr>],
     slashHistory = [], consumedEvidence = []\<rparr>"

definition demo_evidence :: "string \<Rightarrow> hex \<Rightarrow> hex \<Rightarrow> EquivocationEvidence" where
  "demo_evidence v h1 h2 = \<lparr>validatorId = v, evHeight = 9, evPhase = ''commit'', blockHash1 = h1, blockHash2 = h2,
     detectedAtMs = 0, signature1 = None, signature2 = None\<rparr>"

lemma demo_handler_ok: "handler_ok demo_handler"
proof -
  have reg: "registry (governance demo_handler) =
      [(''a'', \<lparr>infoId = ''a'', infoAddress = ''0xa'', infoStake = 2000000000000000005, joinedAtEpoch = 0, active = True,
         votingPower = 4000\<rparr>),
       (''B'', \<lparr>infoId = ''B'', infoAddress = ''0xb'', infoStake = 3000000000000000000, joinedAtEpoch = 0, active = True,
         votingPower = 5999\<rparr>)]" by code_simp
  have "slashPercent (slashConfig demo_handler) = 10" by code_simp
  then show ?thesis
    unfolding handler_ok_def registry_ok_def holding_def getValidator_def reg by (auto simp: jmap_ok_def split: if_splits)
qed


definition same_offence :: "EquivocationEvidence \<Rightarrow> EquivocationEvidence \<Rightarrow> bool" where
  "same_offence ev ev' \<longleftrightarrow>
     toLowerCase (validatorId ev) = toLowerCase (validatorId ev') \<and> evHeight ev = evHeight ev' \<and> evPhase ev = evPhase ev' \<and>
     mset (map toLowerCase [blockHash1 ev, blockHash2 ev]) = mset (map toLowerCase [blockHash1 ev', blockHash2 ev'])"

lemma same_offence_key: "same_offence ev ev' \<Longrightarrow> evidenceKey ev = evidenceKey ev'"
  using properties_for_sort [of "sort (map toLowerCase [blockHash1 ev, blockHash2 ev])" "map toLowerCase [blockHash1 ev', blockHash2 ev']"]
  by (simp only: same_offence_def evidenceKey_def Let_def mset_sort sorted_sort)

text \<open>
  (C14) One offence is slashed once. After evidence has been slashed, evidence of the same offence, with the two
  hashes swapped or the letter case changed, is ignored and changes nothing, even after up to
  9,999 other pieces of evidence have been handled in between.
\<close>

theorem offence_slashed_once:
  assumes "handler_ok h" and "handleEquivocation now h ev = (h', Inr (Some event))"
    and "same_offence ev ev'" and "length evs < MAX_CONSUMED_EVIDENCE"
  shows "handleEquivocation now' (handle_all h' evs) ev' = (handle_all h' evs, Inr None)"
proof -
  have h': "h' = fst (handleEquivocation now h ev)" using assms(2) by simp
  have "\<exists>pre. consumedEvidence h' = pre @ [evidenceKey ev]"
    using assms(1)
  proof (cases rule: handleEquivocation_cases [where now = now and ev = ev])
    case ignored
    with assms(2) show ?thesis by simp
  next
    case (slashed s g event')
    with h' show ?thesis by simp
  qed
  then obtain pre where "consumedEvidence h' = pre @ evidenceKey ev # []" by auto
  from key_survives [OF _ this, of evs] assms(1,4)
  have key: "evidenceKey ev \<in> set (consumedEvidence (handle_all h' evs))" and ok: "handler_ok (handle_all h' evs)"
    unfolding h' using handleEquivocation_ok by simp_all
  from ok show ?thesis
  proof (cases rule: handleEquivocation_cases [where now = now' and ev = ev'])
    case (slashed s g event')
    then show ?thesis using key same_offence_key [OF assms(3)] by simp
  qed
qed

theorem offence_slashed_once_witness:
  "\<exists>h' event. handleEquivocation 7 demo_handler (demo_evidence ''a'' ''0xAB'' ''0x02'') = (h', Inr (Some event)) \<and>
     handleEquivocation 8 (handle_all h' [(8, demo_evidence ''B'' ''0x01'' ''0x02'')]) (demo_evidence ''a'' ''0x02'' ''0xab'') =
       (handle_all h' [(8, demo_evidence ''B'' ''0x01'' ''0x02'')], Inr None)"
proof -
  have run: "(case snd (handleEquivocation 7 demo_handler (demo_evidence ''a'' ''0xAB'' ''0x02'')) of
      Inr (Some e) \<Rightarrow> True | _ \<Rightarrow> False)" by code_simp
  then obtain h' event where h': "handleEquivocation 7 demo_handler (demo_evidence ''a'' ''0xAB'' ''0x02'') = (h', Inr (Some event))"
    by (cases "handleEquivocation 7 demo_handler (demo_evidence ''a'' ''0xAB'' ''0x02'')") (auto split: sum.splits option.splits)
  have "same_offence (demo_evidence ''a'' ''0xAB'' ''0x02'') (demo_evidence ''a'' ''0x02'' ''0xab'')" by code_simp
  from offence_slashed_once [OF demo_handler_ok h' this, of "[(8, demo_evidence ''B'' ''0x01'' ''0x02'')]"] h'
  show ?thesis by (auto simp: MAX_CONSUMED_EVIDENCE_def)
qed

text \<open>
  (C39) The detector lower-cases the validator id of its evidence and the governance registry does not, so
  evidence against a validator whose registered id has an upper-case letter is dropped: when no
  validator is registered under the lower-cased id, whatever the detector reports for it changes nothing.
\<close>

theorem mixed_case_validator_escapes:
  assumes "handler_ok h" and "getValidator (governance h) (toLowerCase vId) = None"
    and "recordVote now d vId height phase bh sig = (d', Some ev)"
  shows "handleEquivocation now' h ev = (h, Inr None)"
proof -
  have "validatorId ev = toLowerCase vId"
    using assms(3) by (cases rule: recordVote_cases [of d height phase vId bh now sig]) (auto simp: proof_of_def)
  then show ?thesis using assms(2) by (simp add: handleEquivocation_def)
qed

theorem mixed_case_validator_escapes_witness:
  "\<exists>d' ev. holding (governance demo_handler) ''B'' = Some (3000000000000000000, True) \<and>
     recordVote 5 (fst (recordVote 4 (newDetector 100 1000 100) ''B'' 9 ''commit'' ''0x01'' None)) ''B'' 9 ''commit'' ''0x02'' None =
       (d', Some ev) \<and> handleEquivocation 7 demo_handler ev = (demo_handler, Inr None)"
proof -
  let ?d = "fst (recordVote 4 (newDetector 100 1000 100) ''B'' 9 ''commit'' ''0x01'' None)"
  have "holding (governance demo_handler) ''B'' = Some (3000000000000000000, True)"
    "getValidator (governance demo_handler) (toLowerCase ''B'') = None"
    "snd (recordVote 5 ?d ''B'' 9 ''commit'' ''0x02'' None) \<noteq> None" by code_simp+
  moreover from this(3) obtain d' ev where "recordVote 5 ?d ''B'' 9 ''commit'' ''0x02'' None = (d', Some ev)"
    by (cases "recordVote 5 ?d ''B'' 9 ''commit'' ''0x02'' None") auto
  ultimately show ?thesis using mixed_case_validator_escapes [OF demo_handler_ok] by blast
qed

end
