(* ===== verification/Vote_Ledger.thy ===== *)
theory Vote_Ledger
  imports Pali_Prelude
begin

text \<open>
  The durable vote ledger: \<^verbatim>\<open>node/src/bft-vote-ledger.ts\<close>. The file the ledger rewrites is part of the state:
  absent, unreadable, or a snapshot, which is what \<^verbatim>\<open>JSON.parse\<close> gives back for what \<^verbatim>\<open>JSON.stringify\<close>
  wrote. A flush writes a temporary file, syncs it and renames it, so it either replaces the whole
  file or, when any of the calls throws, leaves it as it was; which of the two is the argument \<open>io\<close>.
\<close>

record VoteLedgerSnapshot =
  snapPrepared :: "(string, hex) jsmap"
  snapCommitted :: "(string, hex) jsmap"

datatype LedgerFile = NoFile | Unreadable | Saved VoteLedgerSnapshot

record BftVoteLedger =
  prepared :: "(bigint, hex) jsmap"
  committed :: "(bigint, hex) jsmap"
  hasPath :: bool
  ledgerFile :: LedgerFile

definition load_map :: "(string, hex) jsmap \<Rightarrow> (bigint, hex) jsmap" where
  "load_map entries = foldl (\<lambda>m (h, bh). jset (read_int h) bh m) [] entries"

definition loadLedger :: "BftVoteLedger \<Rightarrow> BftVoteLedger" where
  "loadLedger l =
     (case ledgerFile l of
        NoFile \<Rightarrow> l
      | Unreadable \<Rightarrow> l
      | Saved snap \<Rightarrow> l\<lparr>prepared := load_map (snapPrepared snap), committed := load_map (snapCommitted snap)\<rparr>)"

definition newVoteLedger :: "bool \<Rightarrow> LedgerFile \<Rightarrow> BftVoteLedger" where
  "newVoteLedger path file =
     (let l = \<lparr>prepared = [], committed = [], hasPath = path, ledgerFile = file\<rparr>
      in if path then loadLedger l else l)"

definition save_map :: "(bigint, hex) jsmap \<Rightarrow> (string, hex) jsmap" where
  "save_map m = foldl (\<lambda>s (h, bh). jset (show_int h) bh s) [] m"

definition flush :: "bool \<Rightarrow> BftVoteLedger \<Rightarrow> BftVoteLedger" where
  "flush io l =
     (if \<not> hasPath l then l
      else if io then l\<lparr>ledgerFile := Saved \<lparr>snapPrepared = save_map (prepared l), snapCommitted = save_map (committed l)\<rparr>\<rparr>
      else l)"

definition getPrepared :: "BftVoteLedger \<Rightarrow> bigint \<Rightarrow> hex option" where
  "getPrepared l h = jget (prepared l) h"

definition getCommitted :: "BftVoteLedger \<Rightarrow> bigint \<Rightarrow> hex option" where
  "getCommitted l h = jget (committed l) h"

definition recordPrepared :: "bool \<Rightarrow> BftVoteLedger \<Rightarrow> bigint \<Rightarrow> hex \<Rightarrow> BftVoteLedger" where
  "recordPrepared io l h bh =
     (if jget (prepared l) h = Some bh then l else flush io (l\<lparr>prepared := jset h bh (prepared l)\<rparr>))"

definition recordCommitted :: "bool \<Rightarrow> BftVoteLedger \<Rightarrow> bigint \<Rightarrow> hex \<Rightarrow> BftVoteLedger" where
  "recordCommitted io l h bh =
     (if jget (committed l) h = Some bh then l else flush io (l\<lparr>committed := jset h bh (committed l)\<rparr>))"

definition pruneLedger :: "bool \<Rightarrow> BftVoteLedger \<Rightarrow> bigint \<Rightarrow> BftVoteLedger" where
  "pruneLedger io l finalizedHeight =
     (let changed = (list_ex (\<lambda>(h, bh). h \<le> finalizedHeight) (prepared l) \<or>
            list_ex (\<lambda>(h, bh). h \<le> finalizedHeight) (committed l));
          l1 = l\<lparr>prepared := filter (\<lambda>(h, bh). \<not> h \<le> finalizedHeight) (prepared l),
            committed := filter (\<lambda>(h, bh). \<not> h \<le> finalizedHeight) (committed l)\<rparr>
      in if changed then flush io l1 else l1)"

definition clearAllVotes :: "bool \<Rightarrow> BftVoteLedger \<Rightarrow> BftVoteLedger" where
  "clearAllVotes io l =
     (if length (prepared l) = 0 \<and> length (committed l) = 0 then l
      else flush io (l\<lparr>prepared := [], committed := []\<rparr>))"

definition snapshotPrepared :: "BftVoteLedger \<Rightarrow> (bigint, hex) jsmap" where
  "snapshotPrepared l = prepared l"

definition snapshotCommitted :: "BftVoteLedger \<Rightarrow> (bigint, hex) jsmap" where
  "snapshotCommitted l = committed l"


section \<open>Saving and loading\<close>

lemma foldl_jset_fresh:
  assumes "distinct (map f (map fst m))" and "\<forall>(k, v)\<in>set m. f k \<notin> fst ` set acc"
  shows "foldl (\<lambda>s (k, v). jset (f k) v s) acc m = acc @ map (\<lambda>(k, v). (f k, v)) m"
  using assms
proof (induction m arbitrary: acc)
  case (Cons e m)
  obtain k v where e: "e = (k, v)" by fastforce
  have "jset (f k) v acc = acc @ [(f k, v)]" using Cons.prems(2) e by (auto intro: jset_fresh)
  moreover have nk: "f k \<notin> f ` fst ` set m" using Cons.prems(1) e by (simp add: image_image)
  have "f k' \<notin> fst ` set (acc @ [(f k, v)])" if "(k', v') \<in> set m" for k' v'
  proof -
    have in_m: "f k' \<in> f ` fst ` set m" using imageI [OF imageI [OF that], of f fst] by simp
    have "f k' \<notin> fst ` set acc" using bspec [OF Cons.prems(2), of "(k', v')"] that by simp
    moreover have "f k' \<noteq> f k" using in_m nk by metis
    ultimately show ?thesis by simp
  qed
  then have "\<forall>(k', v')\<in>set m. f k' \<notin> fst ` set (acc @ [(f k, v)])" by blast
  ultimately show ?case using Cons.IH [of "acc @ [(f k, v)]"] Cons.prems(1) e by simp
qed simp

lemma load_save [simp]:
  assumes "jmap_ok m"
  shows "load_map (save_map m) = m"
proof -
  have "distinct (map show_int (map fst m))" "distinct (map fst m)"
    using assms by (simp_all add: jmap_ok_def distinct_map inj_on_def)
  then have "save_map m = map (\<lambda>(h, bh). (show_int h, bh)) m"
    unfolding save_map_def using foldl_jset_fresh [of show_int m "[]"] by simp
  moreover have "load_map (map (\<lambda>(h, bh). (show_int h, bh)) m) = m"
    unfolding load_map_def
    using foldl_jset_fresh [of read_int "map (\<lambda>(h, bh). (show_int h, bh)) m" "[]"] \<open>distinct (map fst m)\<close>
    by (simp add: comp_def case_prod_beta)
  ultimately show ?thesis by simp
qed

datatype LedgerOp = RecordPrepared bigint hex | RecordCommitted bigint hex | Prune bigint | ClearAll

fun ledger_step :: "BftVoteLedger \<Rightarrow> bool \<times> LedgerOp \<Rightarrow> BftVoteLedger" where
  "ledger_step l (io, RecordPrepared h bh) = recordPrepared io l h bh"
| "ledger_step l (io, RecordCommitted h bh) = recordCommitted io l h bh"
| "ledger_step l (io, Prune h) = pruneLedger io l h"
| "ledger_step l (io, ClearAll) = clearAllVotes io l"

definition ledger_run :: "BftVoteLedger \<Rightarrow> (bool \<times> LedgerOp) list \<Rightarrow> BftVoteLedger" where
  "ledger_run l ops = foldl ledger_step l ops"

text \<open>A restart opens the file again and forgets the memory.\<close>

definition restart :: "BftVoteLedger \<Rightarrow> BftVoteLedger" where
  "restart l = newVoteLedger (hasPath l) (ledgerFile l)"

definition same_votes :: "BftVoteLedger \<Rightarrow> BftVoteLedger \<Rightarrow> bool" where
  "same_votes l l' \<longleftrightarrow> getPrepared l = getPrepared l' \<and> getCommitted l = getCommitted l'"

definition ledger_ok :: "BftVoteLedger \<Rightarrow> bool" where
  "ledger_ok l \<longleftrightarrow> jmap_ok (prepared l) \<and> jmap_ok (committed l)"

lemma same_votes_eq: "prepared l = prepared l' \<Longrightarrow> committed l = committed l' \<Longrightarrow> same_votes l l'"
  by (simp add: same_votes_def getPrepared_def getCommitted_def fun_eq_iff)

lemma flush_frame [simp]:
  "prepared (flush io l) = prepared l" "committed (flush io l) = committed l" "hasPath (flush io l) = hasPath l"
  by (simp_all add: flush_def)

lemma restart_flushed: "hasPath l \<Longrightarrow> ledger_ok l \<Longrightarrow> same_votes (restart (flush True l)) l"
  by (intro same_votes_eq) (simp_all add: restart_def flush_def newVoteLedger_def loadLedger_def ledger_ok_def)

text \<open>
  What an operation does to the file: either nothing, or it holds exactly the votes in memory afterwards; and
  it does nothing without failing only if the votes did not change.
\<close>

lemma flush_file:
  "ledgerFile (flush io l) = ledgerFile l \<and> \<not> io \<or> flush io l = flush True l \<and> io"
  by (simp add: flush_def)

lemma ledger_step_file:
  assumes "ledger_ok l" and "hasPath l" and "same_votes (restart l) l0"
  shows "ledger_ok (ledger_step l (io, op)) \<and> hasPath (ledger_step l (io, op)) \<and>
    (same_votes (restart (ledger_step l (io, op))) l0 \<and> (io \<longrightarrow> same_votes (ledger_step l (io, op)) l) \<or>
     same_votes (restart (ledger_step l (io, op))) (ledger_step l (io, op)))"
proof -
  have same: "same_votes (restart l') l0" if "ledgerFile l' = ledgerFile l" "hasPath l' = hasPath l" for l'
    using that assms(3) by (simp add: restart_def)
  have fl: "ledger_ok (flush io l') \<and> hasPath (flush io l') \<and>
      (same_votes (restart (flush io l')) l0 \<and> \<not> io \<or> same_votes (restart (flush io l')) (flush io l'))"
    if "ledger_ok l'" "hasPath l'" "ledgerFile l' = ledgerFile l" for l'
    using restart_flushed [OF that(2,1)] same [of "flush io l'"] flush_file [of io l'] that assms(2)
      same_votes_eq [of "flush True l'" l'] by (cases io) (auto simp: ledger_ok_def same_votes_def)
  have keep: "ledger_ok l' \<and> hasPath l' \<and> same_votes (restart l') l0 \<and> same_votes l' l"
    if "prepared l' = prepared l" "committed l' = committed l" "hasPath l' = hasPath l" "ledgerFile l' = ledgerFile l" for l'
    using that assms same [of l'] same_votes_eq [of l' l] by (simp add: ledger_ok_def)
  show ?thesis
  proof (cases op)
    case (RecordPrepared h bh)
    have "ledger_ok (l\<lparr>prepared := jset h bh (prepared l)\<rparr>)" using assms(1) by (simp add: ledger_ok_def)
    then show ?thesis using RecordPrepared fl [of "l\<lparr>prepared := jset h bh (prepared l)\<rparr>"] keep [of l] assms(2)
      by (auto simp: recordPrepared_def)
  next
    case (RecordCommitted h bh)
    have "ledger_ok (l\<lparr>committed := jset h bh (committed l)\<rparr>)" using assms(1) by (simp add: ledger_ok_def)
    then show ?thesis using RecordCommitted fl [of "l\<lparr>committed := jset h bh (committed l)\<rparr>"] keep [of l] assms(2)
      by (auto simp: recordCommitted_def)
  next
    case (Prune h)
    let ?l = "l\<lparr>prepared := filter (\<lambda>(h', bh). \<not> h' \<le> h) (prepared l), committed := filter (\<lambda>(h', bh). \<not> h' \<le> h) (committed l)\<rparr>"
    have ok: "ledger_ok ?l" using assms(1) by (simp add: ledger_ok_def)
    show ?thesis
    proof (cases "list_ex (\<lambda>(h', bh). h' \<le> h) (prepared l) \<or> list_ex (\<lambda>(h', bh). h' \<le> h) (committed l)")
      case True
      then show ?thesis using Prune fl [OF ok] assms(2) by (auto simp: pruneLedger_def)
    next
      case False
      then have "filter (\<lambda>(h', bh). \<not> h' \<le> h) (prepared l) = prepared l"
        "filter (\<lambda>(h', bh). \<not> h' \<le> h) (committed l) = committed l"
        by (auto simp: list_ex_iff intro!: filter_True)
      then have "?l = l" by simp
      with False Prune keep [of l] show ?thesis by (simp add: pruneLedger_def)
    qed
  next
    case ClearAll
    have "ledger_ok (l\<lparr>prepared := [], committed := []\<rparr>)" by (simp add: ledger_ok_def)
    then show ?thesis using ClearAll fl [of "l\<lparr>prepared := [], committed := []\<rparr>"] keep [of l] assms(2)
      by (auto simp: clearAllVotes_def)
  qed
qed

lemma ledger_run_file:
  assumes "ledger_ok l" and "hasPath l" and "same_votes (restart l) l"
  shows "ledger_ok (ledger_run l ops) \<and> hasPath (ledger_run l ops) \<and>
    (\<exists>k \<le> length ops. same_votes (restart (ledger_run l ops)) (ledger_run l (take k ops)) \<and>
       (list_all fst ops \<longrightarrow> same_votes (restart (ledger_run l ops)) (ledger_run l ops)))"
proof (induction ops rule: rev_induct)
  case Nil
  show ?case using assms by (simp add: ledger_run_def)
next
  case (snoc e ops)
  obtain io op where e: "e = (io, op)" by fastforce
  let ?l = "ledger_run l ops"
  have run: "ledger_run l (ops @ [e]) = ledger_step ?l (io, op)" by (simp add: ledger_run_def e)
  obtain k where k: "k \<le> length ops" "same_votes (restart ?l) (ledger_run l (take k ops))"
    and last: "list_all fst ops \<longrightarrow> same_votes (restart ?l) ?l" using snoc.IH by blast
  from ledger_step_file [OF _ _ k(2), of io op] snoc.IH
  have ok: "ledger_ok (ledger_step ?l (io, op))" "hasPath (ledger_step ?l (io, op))"
    and old_or_new: "same_votes (restart (ledger_step ?l (io, op))) (ledger_run l (take k ops)) \<or>
      same_votes (restart (ledger_step ?l (io, op))) (ledger_step ?l (io, op))" by auto
  have "same_votes (restart (ledger_step ?l (io, op))) (ledger_step ?l (io, op))" if all: "list_all fst ops" "io"
    using ledger_step_file [of ?l ?l io op] snoc.IH last that by (auto simp: same_votes_def)
  then have new: "list_all fst (ops @ [e]) \<longrightarrow> same_votes (restart (ledger_step ?l (io, op))) (ledger_step ?l (io, op))"
    by (simp add: e)
  from old_or_new show ?case
  proof
    assume "same_votes (restart (ledger_step ?l (io, op))) (ledger_run l (take k ops))"
    then show ?thesis using k(1) ok new unfolding run by (intro conjI exI [of _ k]) simp_all
  next
    assume "same_votes (restart (ledger_step ?l (io, op))) (ledger_step ?l (io, op))"
    then show ?thesis using ok new unfolding run by (intro conjI exI [of _ "Suc (length ops)"]) (simp_all add: run)
  qed
qed


section \<open>Properties\<close>

text \<open>
  (C15) The ledger survives crashes. Whatever votes are recorded, pruned and cleared, and whichever flushes fail, a
  validator that restarts finds the votes of one earlier moment of the run, never a mixture; if no
  flush failed, it finds exactly the votes it had recorded, for every height and both phases.
\<close>

theorem ledger_survives_restart:
  "let run = ledger_run (newVoteLedger True NoFile)
   in (\<exists>k \<le> length ops. same_votes (restart (run ops)) (run (take k ops))) \<and>
      (list_all fst ops \<longrightarrow> same_votes (restart (run ops)) (run ops))"
proof -
  let ?l = "newVoteLedger True NoFile"
  have "ledger_ok ?l" "hasPath ?l" "same_votes (restart ?l) ?l"
    by (simp_all add: ledger_ok_def newVoteLedger_def loadLedger_def restart_def same_votes_eq)
  from ledger_run_file [OF this] show ?thesis unfolding Let_def by blast
qed

theorem ledger_survives_restart_witness:
  "getPrepared (restart (ledger_run (newVoteLedger True NoFile)
     [(True, RecordPrepared 7 ''0x01''), (True, RecordCommitted 7 ''0x01''), (True, RecordPrepared 8 ''0x02''), (True, Prune 7)])) 8 =
     Some ''0x02'' \<and>
   getPrepared (restart (ledger_run (newVoteLedger True NoFile) [(True, RecordPrepared 7 ''0x01''), (False, RecordPrepared 8 ''0x02'')])) 8 = None"
proof -
  let ?ops = "[(True, RecordPrepared 7 ''0x01''), (True, RecordCommitted 7 ''0x01''), (True, RecordPrepared 8 ''0x02''), (True, Prune 7)]"
  have "getPrepared (ledger_run (newVoteLedger True NoFile) ?ops) 8 = Some ''0x02''"
    "getPrepared (restart (ledger_run (newVoteLedger True NoFile) [(True, RecordPrepared 7 ''0x01''), (False, RecordPrepared 8 ''0x02'')])) 8 = None"
    by code_simp+
  with ledger_survives_restart [of ?ops] show ?thesis by (simp add: same_votes_def Let_def)
qed


section \<open>The interface a voter relies on\<close>

text \<open>
  A durable record of votes: what a node that votes at most once for a height needs of it. A vote that is recorded is found
  again, pruning forgets exactly the heights it is told to, and reopening the record gives back the same votes.
\<close>

locale durable_votes =
  fixes durable :: "'l \<Rightarrow> bool" and prep :: "'l \<Rightarrow> int \<Rightarrow> 'v option" and com :: "'l \<Rightarrow> int \<Rightarrow> 'v option"
    and rec_prep :: "'l \<Rightarrow> int \<Rightarrow> 'v \<Rightarrow> 'l" and rec_com :: "'l \<Rightarrow> int \<Rightarrow> 'v \<Rightarrow> 'l" and forget :: "'l \<Rightarrow> int \<Rightarrow> 'l" and reopen :: "'l \<Rightarrow> 'l"
  assumes rec_prep: "durable l \<Longrightarrow> durable (rec_prep l h v) \<and> prep (rec_prep l h v) = (prep l)(h \<mapsto> v) \<and> com (rec_prep l h v) = com l"
    and rec_com: "durable l \<Longrightarrow> durable (rec_com l h v) \<and> prep (rec_com l h v) = prep l \<and> com (rec_com l h v) = (com l)(h \<mapsto> v)"
    and forget: "durable l \<Longrightarrow> durable (forget l k) \<and> prep (forget l k) = (\<lambda>h. if h \<le> k then None else prep l h) \<and>
        com (forget l k) = (\<lambda>h. if h \<le> k then None else com l h)"
    and reopen: "durable l \<Longrightarrow> durable (reopen l) \<and> prep (reopen l) = prep l \<and> com (reopen l) = com l"
begin

definition mirrors :: "'l \<Rightarrow> (int \<Rightarrow> 'v option) \<Rightarrow> (int \<Rightarrow> 'v option) \<Rightarrow> bool" where
  "mirrors l P C \<longleftrightarrow> durable l \<and> prep l = P \<and> com l = C"

lemma mirrors_rec_prep: "mirrors l P C \<Longrightarrow> mirrors (rec_prep l h v) (P(h \<mapsto> v)) C"
  by (simp add: mirrors_def rec_prep)

lemma mirrors_rec_com: "mirrors l P C \<Longrightarrow> mirrors (rec_com l h v) P (C(h \<mapsto> v))"
  by (simp add: mirrors_def rec_com)

lemma mirrors_forget:
  "mirrors l P C \<Longrightarrow> mirrors (forget l k) (\<lambda>h. if h \<le> k then None else P h) (\<lambda>h. if h \<le> k then None else C h)"
  by (auto simp: mirrors_def forget)

lemma mirrors_reopen: "mirrors l P C \<Longrightarrow> mirrors (reopen l) P C"
  by (simp add: mirrors_def reopen)

end

definition ledger_durable :: "BftVoteLedger \<Rightarrow> bool" where
  "ledger_durable l \<longleftrightarrow> ledger_ok l \<and> hasPath l \<and> same_votes (restart l) l"

lemma ledger_step_durable:
  assumes "ledger_durable l"
  shows "ledger_durable (ledger_step l (True, op))"
  using ledger_step_file [of l l True op] assms by (auto simp: ledger_durable_def same_votes_def)

lemma load_map_ok: "jmap_ok (load_map m)"
proof -
  have "jmap_ok (foldl (\<lambda>m (h, bh). jset (read_int h) bh m) acc m)" if "jmap_ok acc" for acc
    using that by (induction m arbitrary: acc) auto
  then show ?thesis by (simp add: load_map_def)
qed

lemma newVoteLedger_frame [simp]:
  "hasPath (newVoteLedger path f) = path" "ledgerFile (newVoteLedger path f) = f" "ledger_ok (newVoteLedger path f)"
  by (cases f; simp add: newVoteLedger_def loadLedger_def ledger_ok_def load_map_ok Let_def)+

lemma restart_durable: "ledger_durable l \<Longrightarrow> ledger_durable (restart l)"
  by (simp add: ledger_durable_def restart_def same_votes_def)

lemma new_ledger_durable: "ledger_durable (newVoteLedger True NoFile)"
  by (simp add: ledger_durable_def ledger_ok_def newVoteLedger_def loadLedger_def restart_def same_votes_def)

interpretation ledger: durable_votes ledger_durable getPrepared getCommitted "recordPrepared True" "recordCommitted True"
  "pruneLedger True" restart
proof unfold_locales
  fix l h v
  assume l: "ledger_durable l"
  show "ledger_durable (recordPrepared True l h v) \<and> getPrepared (recordPrepared True l h v) = (getPrepared l)(h \<mapsto> v) \<and>
      getCommitted (recordPrepared True l h v) = getCommitted l"
    using ledger_step_durable [OF l, of "RecordPrepared h v"]
    by (auto simp: recordPrepared_def getPrepared_def getCommitted_def fun_eq_iff)
  show "ledger_durable (recordCommitted True l h v) \<and> getPrepared (recordCommitted True l h v) = getPrepared l \<and>
      getCommitted (recordCommitted True l h v) = (getCommitted l)(h \<mapsto> v)"
    using ledger_step_durable [OF l, of "RecordCommitted h v"]
    by (auto simp: recordCommitted_def getPrepared_def getCommitted_def fun_eq_iff)
next
  fix l k
  assume l: "ledger_durable l"
  then have "jmap_ok (prepared l)" "jmap_ok (committed l)" by (simp_all add: ledger_durable_def ledger_ok_def)
  then show "ledger_durable (pruneLedger True l k) \<and>
      getPrepared (pruneLedger True l k) = (\<lambda>h. if h \<le> k then None else getPrepared l h) \<and>
      getCommitted (pruneLedger True l k) = (\<lambda>h. if h \<le> k then None else getCommitted l h)"
    using ledger_step_durable [OF l, of "Prune k"]
    by (auto simp: pruneLedger_def getPrepared_def getCommitted_def fun_eq_iff jget_filter Let_def split: option.splits)
next
  fix l
  assume "ledger_durable l"
  then show "ledger_durable (restart l) \<and> getPrepared (restart l) = getPrepared l \<and> getCommitted (restart l) = getCommitted l"
    using restart_durable by (auto simp: ledger_durable_def same_votes_def)
qed

end
