(* ===== verification/Coordinator.thy ===== *)
theory Coordinator
  imports Bft_Round Equivocation Vote_Ledger
begin

text \<open>
  The BFT coordinator of \<^verbatim>\<open>node/src/bft-coordinator.ts\<close>: it starts rounds for proposed blocks, feeds them the
  votes that arrive, buffers votes that come early, keeps the node's own votes in memory and in the durable
  ledger, finalizes, times out, re-enters and repeats, and watches for peers that agree on a state this node cannot reproduce.

  The methods are asynchronous. A suspended call is a stack of \<open>Frame\<close>s, one for each \<^verbatim>\<open>await\<close> it is inside of, and
  \<open>tasks\<close> holds the suspended calls; an event of the coordinator runs one piece of code from one suspension point to the next, so
  that every interleaving of the calls is a sequence of events. What an awaited call or a callback answers, the clock and
  the success of a write are the fields of \<open>Env\<close>, chosen anew for each event. The callbacks the coordinator
  invokes are appended to \<open>effects\<close>; logging is left out.
\<close>

section \<open>State\<close>

record Divergence =
  peerBlockHash :: hex
  peerStateRoot :: hex
  divLocalRoot :: "hex option"

record CoordConfig =
  coordId :: string
  coordValidators :: "Validator list"
  coordPrepareTimeout :: "int option"
  coordCommitTimeout :: "int option"
  livenessTimeoutMs :: "int option"
  signer :: "(string \<Rightarrow> hex) option"
  verifier :: "(string \<Rightarrow> hex \<Rightarrow> string \<Rightarrow> bool) option"
  coordRelaxed :: bool
  persistentThreshold :: "nat option"
  hasRegossip :: bool
  hasEquivocationHook :: bool
  hasDivergedHook :: bool
  hasPersistentHook :: bool
  hasChainHeight :: bool
  hasLocalBlock :: bool
  hasStuckHook :: bool

datatype Effect =
    Broadcast BftMessage | OnFinalized ChainBlock | OnEquivocation EquivocationEvidence
  | OnPeerQuorumDiverged bigint Divergence bool | OnPersistentDivergence bigint nat hex hex
  | OnProposerStuck string bigint | RegossipBlock ChainBlock

record Linger =
  lingerRemaining :: nat
  lingerPrepare :: "BftMessage option"
  lingerHeight :: bigint
  lingerHash :: hex

text \<open>
  The suspension points: \<^verbatim>\<open>startRound\<close> at its staleness query (with the finalized height it has read before), at the state root, after
  its broadcasts and inside the loop over buffered messages; \<^verbatim>\<open>handleMessage\<close> after a broadcast and after
  \<^verbatim>\<open>onFinalized\<close>; the deferred block at its staleness query; and the divergence check at the lookups of the local block and
  of the chain height. A broadcast is taken not to reject.
\<close>

datatype Frame =
    StartFloor bigint ChainBlock | StartRoot ChainBlock BftRoundConfig | StartSent ChainBlock "BftMessage list"
  | StartDrain "nat option" "BftMessage list" | SendOuts "BftMessage list" | AfterFinalized | DeferredFloor bigint ChainBlock
  | ConfirmDivergence bigint Divergence int | ConfirmTip bigint Divergence int

record Env =
  envNow :: int
  envTip :: "bigint option"
  envRoot :: "hex option"
  envLocalBlock :: "ChainBlock option option"
  envAccepted :: bool
  envIo :: bool

record Coordinator =
  coordCfg :: CoordConfig
  activeRound :: "(nat \<times> BftRound) option"
  timeoutTimer :: "nat option"
  timers :: "nat list"
  commitRetryTimer :: bool
  prepareRetryTimer :: bool
  reenteredHeight :: "bigint option"
  stopped :: bool
  lingerTimer :: "Linger option"
  pendingMessages :: "BftMessage list"
  deferredBlock :: "ChainBlock option"
  lastFinalizedHeight :: bigint
  lastFinalizedAtMs :: int
  confirmHeight :: "bigint option"
  warnedNoVerifier :: bool
  watchdogTimer :: bool
  divergenceCount :: nat
  lastFireHeight :: "bigint option"
  lastFireAtMs :: int
  detector :: EquivocationDetector
  equivocationsTotal :: nat
  localPreparedAt :: "(bigint, hex) jsmap"
  localCommittedAt :: "(bigint, hex) jsmap"
  localPreparedBlock :: "(bigint, ChainBlock) jsmap"
  voteLedger :: BftVoteLedger
  nextId :: nat
  tasks :: "Frame list list"
  effects :: "Effect list"

definition newCoordinator :: "int \<Rightarrow> CoordConfig \<Rightarrow> BftVoteLedger \<Rightarrow> Coordinator" where
  "newCoordinator now cfg ledger =
     \<lparr>coordCfg = cfg, activeRound = None, timeoutTimer = None, timers = [], commitRetryTimer = False, prepareRetryTimer = False,
      reenteredHeight = None, stopped = False, lingerTimer = None, pendingMessages = [], deferredBlock = None,
      lastFinalizedHeight = 0, lastFinalizedAtMs = now, confirmHeight = None, warnedNoVerifier = False, watchdogTimer = True,
      divergenceCount = 0, lastFireHeight = None, lastFireAtMs = 0, detector = newDetector 100 1000 100, equivocationsTotal = 0,
      localPreparedAt = snapshotPrepared ledger, localCommittedAt = snapshotCommitted ledger, localPreparedBlock = [],
      voteLedger = ledger, nextId = 0, tasks = [], effects = []\<rparr>"

definition emit :: "Effect \<Rightarrow> Coordinator \<Rightarrow> Coordinator" where
  "emit e c = c\<lparr>effects := effects c @ [e]\<rparr>"

definition spawn :: "Frame list \<Rightarrow> Coordinator \<Rightarrow> Coordinator" where
  "spawn fs c = (if fs = [] then c else c\<lparr>tasks := tasks c @ [fs]\<rparr>)"

definition localKeyOf :: "Coordinator \<Rightarrow> string" where
  "localKeyOf c = toLowerCase (coordId (coordCfg c))"


section \<open>Messages\<close>

fun typeName :: "BftMessageType \<Rightarrow> string" where
  "typeName ProposeMsg = ''propose''"
| "typeName PrepareMsg = ''prepare''"
| "typeName CommitMsg = ''commit''"

definition bftCanonicalMessage :: "string \<Rightarrow> bigint \<Rightarrow> hex \<Rightarrow> string" where
  "bftCanonicalMessage type height blockHash = ''bft:'' @ type @ '':'' @ show_int height @ '':'' @ blockHash"

definition signMessage :: "Coordinator \<Rightarrow> BftMessage \<Rightarrow> BftMessage" where
  "signMessage c msg =
     (case signer (coordCfg c) of None \<Rightarrow> msg
      | Some sign \<Rightarrow> msg\<lparr>signature := sign (bftCanonicalMessage (typeName (msgType msg)) (msgHeight msg) (msgBlockHash msg))\<rparr>)"

definition broadcast :: "BftMessage \<Rightarrow> Coordinator \<Rightarrow> Coordinator" where
  "broadcast msg c = emit (Broadcast (signMessage c msg)) c"

definition ownVote :: "Coordinator \<Rightarrow> BftMessageType \<Rightarrow> bigint \<Rightarrow> hex \<Rightarrow> hex option \<Rightarrow> BftMessage" where
  "ownVote c type height blockHash root =
     \<lparr>msgType = type, msgHeight = height, msgBlockHash = blockHash, senderId = coordId (coordCfg c), signature = [], msgStateRoot = root\<rparr>"

definition ownStateRoot :: "Coordinator \<Rightarrow> hex option" where
  "ownStateRoot c =
     (case activeRound c of None \<Rightarrow> None
      | Some (rid, r) \<Rightarrow> Option.bind (jget (prepareVotes (state r)) (localKeyOf c)) voteStateRoot)"


section \<open>Rounds, timers and the vote record\<close>

definition clearRound :: "Coordinator \<Rightarrow> Coordinator" where
  "clearRound c =
     c\<lparr>activeRound := None, commitRetryTimer := False, prepareRetryTimer := False,
       timers := (case timeoutTimer c of None \<Rightarrow> timers c | Some t \<Rightarrow> removeAll t (timers c)), timeoutTimer := None\<rparr>"

definition forceClearRound :: "Coordinator \<Rightarrow> Coordinator" where
  "forceClearRound c = (if activeRound c = None then c else clearRound c)"

definition startTimeout :: "Coordinator \<Rightarrow> Coordinator" where
  "startTimeout c =
     (if activeRound c = None then c
      else c\<lparr>timeoutTimer := Some (nextId c), timers := timers c @ [nextId c], nextId := nextId c + 1\<rparr>)"

definition startCommitRetry :: "Coordinator \<Rightarrow> Coordinator" where
  "startCommitRetry c = c\<lparr>commitRetryTimer := True\<rparr>"

definition startPrepareRetry :: "Coordinator \<Rightarrow> Coordinator" where
  "startPrepareRetry c = c\<lparr>prepareRetryTimer := True\<rparr>"

definition LINGER_COUNT :: nat where
  "LINGER_COUNT = 6"

definition startLingerBroadcast :: "bigint \<Rightarrow> hex \<Rightarrow> Coordinator \<Rightarrow> Coordinator" where
  "startLingerBroadcast height blockHash c =
     (let prepare = (if jget (localPreparedAt c) height = Some blockHash
            then Some (signMessage c (ownVote c PrepareMsg height blockHash (ownStateRoot c))) else None)
      in c\<lparr>lingerTimer := Some \<lparr>lingerRemaining = LINGER_COUNT, lingerPrepare = prepare, lingerHeight = height,
           lingerHash = blockHash\<rparr>\<rparr>)"

definition pruneLocalVoteLedger :: "bool \<Rightarrow> bigint \<Rightarrow> Coordinator \<Rightarrow> Coordinator" where
  "pruneLocalVoteLedger io finalizedHeight c =
     c\<lparr>localPreparedAt := filter (\<lambda>(h, bh). \<not> h \<le> finalizedHeight) (localPreparedAt c),
       localCommittedAt := filter (\<lambda>(h, bh). \<not> h \<le> finalizedHeight) (localCommittedAt c),
       localPreparedBlock := filter (\<lambda>(h, b). \<not> h \<le> finalizedHeight) (localPreparedBlock c),
       reenteredHeight := (case reenteredHeight c of Some h \<Rightarrow> if h \<le> finalizedHeight then None else Some h | None \<Rightarrow> None),
       voteLedger := pruneLedger io (voteLedger c) finalizedHeight\<rparr>"

definition getLocalPreparedBlock :: "bigint \<Rightarrow> Coordinator \<Rightarrow> ChainBlock option" where
  "getLocalPreparedBlock height c = jget (localPreparedBlock c) height"

text \<open>The floor, from the finalized height read before the query and the answer to it.\<close>

definition computeStalenessFloor :: "Env \<Rightarrow> CoordConfig \<Rightarrow> bigint \<Rightarrow> bigint" where
  "computeStalenessFloor env cfg floor =
     (if hasChainHeight cfg then case envTip env of None \<Rightarrow> floor | Some tip \<Rightarrow> if tip > floor then tip else floor
      else floor)"

definition isSupersededReentry :: "ChainBlock \<Rightarrow> Coordinator \<Rightarrow> bool" where
  "isSupersededReentry block c =
     (case activeRound c of None \<Rightarrow> False
      | Some (rid, r) \<Rightarrow> Some (roundHeight (state r)) = reenteredHeight c \<and> number block > roundHeight (state r))"

definition reenterLocallyPreparedRound :: "bigint \<Rightarrow> Coordinator \<Rightarrow> Coordinator" where
  "reenterLocallyPreparedRound height c =
     (if stopped c then c
      else if (case deferredBlock c of None \<Rightarrow> False | Some b \<Rightarrow> number b > height) then c
      else case jget (localPreparedBlock c) height of None \<Rightarrow> c
      | Some b \<Rightarrow>
          let c1 = c\<lparr>deferredBlock := Some b, reenteredHeight := Some height\<rparr>
          in if hasRegossip (coordCfg c) then emit (RegossipBlock b) c1 else c1)"

text \<open>\<^verbatim>\<open>processDeferredBlock\<close> up to its staleness query.\<close>

definition processDeferredBlock :: "Coordinator \<Rightarrow> Coordinator \<times> Frame list" where
  "processDeferredBlock c =
     (case deferredBlock c of None \<Rightarrow> (c, [])
      | Some b \<Rightarrow> (c\<lparr>deferredBlock := None\<rparr>, [DeferredFloor (lastFinalizedHeight c) b]))"

definition startRound :: "ChainBlock \<Rightarrow> Coordinator \<Rightarrow> Coordinator \<times> Frame list" where
  "startRound block c = (if stopped c then (c, []) else (c, [StartFloor (lastFinalizedHeight c) block]))"


section \<open>Peers that agree on another state\<close>

record OtherVote =
  ovId :: string
  ovHash :: hex
  ovRoot :: "hex option"

record PairStake =
  psHash :: hex
  psRoot :: hex
  psStake :: bigint

definition stakeById :: "Validator list \<Rightarrow> (string, bigint) jsmap" where
  "stakeById vs = foldl (\<lambda>m v. jset (toLowerCase (vid v)) (stake v) m) [] vs"

definition countPair ::
  "(string, bigint) jsmap \<Rightarrow> (string, PairStake) jsmap \<times> string list \<Rightarrow> OtherVote \<Rightarrow> (string, PairStake) jsmap \<times> string list" where
  "countPair stakes acc vote =
     (case acc of (pairs, counted) \<Rightarrow>
      if \<not> truthy (ovRoot vote) then acc
      else
        let i = toLowerCase (ovId vote); root = the (ovRoot vote)
        in if i \<in> set counted then acc
           else
             let counted1 = set_add i counted; s = get_or 0 stakes i
             in if s = 0 then (pairs, counted1)
                else
                  let key = ovHash vote @ '':'' @ root
                  in case jget pairs key of
                       Some e \<Rightarrow> (jset key (e\<lparr>psStake := psStake e + s\<rparr>) pairs, counted1)
                     | None \<Rightarrow> (jset key \<lparr>psHash = ovHash vote, psRoot = root, psStake = s\<rparr> pairs, counted1))"

definition betterPair :: "bigint \<Rightarrow> PairStake option \<Rightarrow> PairStake \<Rightarrow> PairStake option" where
  "betterPair twoThirds best e =
     (if psStake e \<ge> twoThirds \<and> (case best of None \<Rightarrow> True | Some b \<Rightarrow> psStake e > psStake b) then Some e else best)"

definition computePeerQuorumDivergence :: "Validator list \<Rightarrow> OtherVote list \<Rightarrow> hex option \<Rightarrow> Divergence option" where
  "computePeerQuorumDivergence vs otherVotes localRoot =
     (let total = foldl (\<lambda>t v. t + stake v) 0 vs;
          pairs = fst (foldl (countPair (stakeById vs)) ([], []) otherVotes);
          twoThirds = (total * 2) sdiv 3
      in case foldl (betterPair twoThirds) None (map snd pairs) of None \<Rightarrow> None
         | Some best \<Rightarrow>
             if truthy localRoot \<and> localRoot = Some (psRoot best) then None
             else Some \<lparr>peerBlockHash = psHash best, peerStateRoot = psRoot best, divLocalRoot = localRoot\<rparr>)"

text \<open>The votes of the other validators that a round holds, each with its state root.\<close>

definition otherVotesOf :: "Coordinator \<Rightarrow> BftRound \<Rightarrow> OtherVote list" where
  "otherVotesOf c r =
     List.map_filter
       (\<lambda>v. let i = toLowerCase (vid v)
            in if i = localKeyOf c then None
               else case jget (prepareVotes (state r)) i of None \<Rightarrow> None
                    | Some vote \<Rightarrow> if truthy (voteStateRoot vote)
                        then Some \<lparr>ovId = i, ovHash = voteBlockHash vote, ovRoot = voteStateRoot vote\<rparr> else None)
       (coordValidators (coordCfg c))"

definition detectPeerQuorumDivergence :: "Coordinator \<Rightarrow> BftRound \<Rightarrow> Divergence option" where
  "detectPeerQuorumDivergence c r =
     computePeerQuorumDivergence (coordValidators (coordCfg c)) (otherVotesOf c r)
       (Option.bind (jget (prepareVotes (state r)) (localKeyOf c)) voteStateRoot)"

text \<open>The loop over the buffered prepare messages: the votes found, the senders seen, and the node's own root.\<close>

definition addBuffered ::
  "string \<Rightarrow> bigint \<Rightarrow> OtherVote list \<times> string list \<times> hex option \<Rightarrow> BftMessage \<Rightarrow> OtherVote list \<times> string list \<times> hex option" where
  "addBuffered me height acc msg =
     (case acc of (others, seen, localRoot) \<Rightarrow>
      if msgType msg \<noteq> PrepareMsg \<or> msgHeight msg \<noteq> height \<or> \<not> truthy (msgStateRoot msg) then acc
      else
        let i = toLowerCase (senderId msg)
        in if i = me then (others, seen, if truthy localRoot then localRoot else msgStateRoot msg)
           else if i \<in> set seen then acc
           else (others @ [\<lparr>ovId = i, ovHash = msgBlockHash msg, ovRoot = msgStateRoot msg\<rparr>], set_add i seen, localRoot))"

definition earlyVotes :: "bigint \<Rightarrow> Coordinator \<Rightarrow> OtherVote list \<times> hex option" where
  "earlyVotes height c =
     (let (others, localRoot) =
          (case activeRound c of
             Some (rid, r) \<Rightarrow>
               if roundHeight (state r) = height
               then (otherVotesOf c r, Option.bind (jget (prepareVotes (state r)) (localKeyOf c)) voteStateRoot) else ([], None)
           | None \<Rightarrow> ([], None));
          (others2, seen, localRoot2) =
            foldl (addBuffered (localKeyOf c) height) (others, map (\<lambda>v. toLowerCase (ovId v)) others, localRoot) (pendingMessages c)
      in (others2, localRoot2))"

text \<open>Firing the callback, with the roll-back when it declines.\<close>

definition fireDivergence :: "Env \<Rightarrow> bigint \<Rightarrow> Divergence \<Rightarrow> int \<Rightarrow> bool \<Rightarrow> Coordinator \<Rightarrow> Coordinator" where
  "fireDivergence env height d nowMs noLocalBlock c =
     (let c1 = c\<lparr>lastFireHeight := Some height, lastFireAtMs := nowMs\<rparr>
      in if hasDivergedHook (coordCfg c) then
           let c2 = emit (OnPeerQuorumDiverged height d noLocalBlock) c1
           in if envAccepted env then c2 else c2\<lparr>lastFireHeight := lastFireHeight c, lastFireAtMs := lastFireAtMs c\<rparr>
         else c1)"

definition tryEarlyDivergenceDetect :: "Env \<Rightarrow> bigint \<Rightarrow> Coordinator \<Rightarrow> Coordinator \<times> Frame list" where
  "tryEarlyDivergenceDetect env height c =
     (if \<not> hasDivergedHook (coordCfg c) \<and> \<not> hasPersistentHook (coordCfg c) then (c, [])
      else if lastFireHeight c = Some height then (c, [])
      else if envNow env - lastFireAtMs c < 1000 then (c, [])
      else
        let (others, localRoot) = earlyVotes height c
        in case computePeerQuorumDivergence (coordValidators (coordCfg c)) others localRoot of
             None \<Rightarrow> (c, [])
           | Some d \<Rightarrow>
               if \<not> truthy localRoot \<and> hasLocalBlock (coordCfg c) then
                 if confirmHeight c = Some height then (c, [])
                 else (c\<lparr>confirmHeight := Some height\<rparr>, [ConfirmDivergence height d (envNow env)])
               else (fireDivergence env height d (envNow env) False c, []))"

text \<open>The rest of the check, once the local block and the chain height are known.\<close>

definition confirmedTip :: "bigint \<Rightarrow> Coordinator \<Rightarrow> bigint" where
  "confirmedTip chainTip c =
     (let roundHgt = (case activeRound c of None \<Rightarrow> 0 | Some (rid, r) \<Rightarrow> roundHeight (state r))
      in if lastFinalizedHeight c = chainTip + 1 \<or> roundHgt = chainTip + 1 then chainTip + 1 else chainTip)"

definition confirmTip :: "Env \<Rightarrow> bigint \<Rightarrow> Divergence \<Rightarrow> int \<Rightarrow> Coordinator \<Rightarrow> Coordinator" where
  "confirmTip env height d nowMs c =
     (let c1 = c\<lparr>confirmHeight := None\<rparr>
      in if (case envTip env of None \<Rightarrow> False | Some chainTip \<Rightarrow> height \<le> confirmedTip chainTip c + 1) then c1
         else fireDivergence env height d nowMs True c1)"

definition confirmDivergence :: "Env \<Rightarrow> bigint \<Rightarrow> Divergence \<Rightarrow> int \<Rightarrow> Coordinator \<Rightarrow> Coordinator \<times> Frame list" where
  "confirmDivergence env height d nowMs c =
     (let c1 = c\<lparr>confirmHeight := None\<rparr>
      in case envLocalBlock env of
           None \<Rightarrow> (fireDivergence env height d nowMs False c1, [])
         | Some (Some b) \<Rightarrow>
             if hash b = peerBlockHash d \<and> truthy (blockStateRoot b) \<and> blockStateRoot b = Some (peerStateRoot d) then (c1, [])
             else (fireDivergence env height d nowMs False c1, [])
         | Some None \<Rightarrow>
             if hasChainHeight (coordCfg c) then (c, [ConfirmTip height d nowMs])
             else (fireDivergence env height d nowMs True c1, []))"


section \<open>Starting a round\<close>

definition terminal :: "BftPhase \<Rightarrow> bool" where
  "terminal p \<longleftrightarrow> p = Finalized \<or> p = Failed"

definition clearTerminal :: "Coordinator \<Rightarrow> Coordinator" where
  "clearTerminal c =
     (case activeRound c of None \<Rightarrow> c | Some (rid, r) \<Rightarrow> if terminal (phase (state r)) then clearRound c else c)"

definition roundConfig :: "Coordinator \<Rightarrow> BftRoundConfig" where
  "roundConfig c =
     \<lparr>validators = coordValidators (coordCfg c), localId = coordId (coordCfg c),
      prepareTimeoutMs = (case coordPrepareTimeout (coordCfg c) of Some t \<Rightarrow> t | None \<Rightarrow> 2000),
      commitTimeoutMs = (case coordCommitTimeout (coordCfg c) of Some t \<Rightarrow> t | None \<Rightarrow> 2000),
      relaxedQuorum = coordRelaxed (coordCfg c)\<rparr>"

definition hasProgress :: "BftRound \<Rightarrow> bool" where
  "hasProgress r \<longleftrightarrow> (phase (state r) = Prepare \<or> phase (state r) = Commit) \<and>
     (length (prepareVotes (state r)) > 0 \<or> length (commitVotes (state r)) > 0)"

text \<open>From the staleness query to the computation of the local state root.\<close>

definition startCheck :: "Env \<Rightarrow> bigint \<Rightarrow> ChainBlock \<Rightarrow> Coordinator \<Rightarrow> Coordinator \<times> Frame list" where
  "startCheck env floor block c =
     (if number block \<le> computeStalenessFloor env (coordCfg c) floor then (c, [])
      else
        let c1 = clearTerminal c
        in if (case activeRound c1 of None \<Rightarrow> False | Some (rid, r) \<Rightarrow> hasProgress r) \<and> \<not> isSupersededReentry block c1
           then (c1\<lparr>deferredBlock := Some block\<rparr>, [])
           else if (case jget (localPreparedAt c1) (number block) of None \<Rightarrow> False | Some h \<Rightarrow> h \<noteq> hash block)
           then (c1, [])
           else
             let c2 = (clearRound c1)\<lparr>deferredBlock := None\<rparr>
             in (c2, [StartRoot block (roundConfig c2)]))"

definition recordOwnPrepare :: "bool \<Rightarrow> ChainBlock \<Rightarrow> Coordinator \<Rightarrow> Coordinator" where
  "recordOwnPrepare io block c =
     c\<lparr>localPreparedAt := jset (number block) (hash block) (localPreparedAt c),
       localPreparedBlock := jset (number block) block (localPreparedBlock c),
       voteLedger := recordPrepared io (voteLedger c) (number block) (hash block)\<rparr>"

definition finalizeRound :: "Env \<Rightarrow> bigint \<Rightarrow> ChainBlock \<Rightarrow> Coordinator \<Rightarrow> Coordinator \<times> Frame list" where
  "finalizeRound env height block c =
     (let c1 = c\<lparr>lastFinalizedHeight := height, lastFinalizedAtMs := envNow env, divergenceCount := 0\<rparr>;
          c2 = clearRound (startLingerBroadcast height (hash block) c1);
          c3 = c2\<lparr>detector := fst (clearEvidenceBefore (detector c2) (height + 1))\<rparr>
      in (emit (OnFinalized block) (pruneLocalVoteLedger (envIo env) height c3), [AfterFinalized]))"

text \<open>After the votes of a prepare are sent: the commit retry and the divergence check.\<close>

definition afterPrepare :: "Env \<Rightarrow> Coordinator \<Rightarrow> Coordinator \<times> Frame list" where
  "afterPrepare env c =
     (case activeRound c of None \<Rightarrow> (c, [])
      | Some (rid, r) \<Rightarrow>
          let c1 = (if phase (state r) = Commit then startCommitRetry c else c)
          in tryEarlyDivergenceDetect env (roundHeight (state r)) c1)"

fun sendOuts :: "Env \<Rightarrow> BftMessage list \<Rightarrow> Coordinator \<Rightarrow> Coordinator \<times> Frame list" where
  "sendOuts env [] c = afterPrepare env c"
| "sendOuts env (out # outs) c =
     (if msgType out = CommitMsg then
        if (case jget (localCommittedAt c) (msgHeight out) of None \<Rightarrow> False | Some h \<Rightarrow> h \<noteq> msgBlockHash out)
        then sendOuts env outs c
        else
          let c1 = c\<lparr>localCommittedAt := jset (msgHeight out) (msgBlockHash out) (localCommittedAt c),
                voteLedger := recordCommitted (envIo env) (voteLedger c) (msgHeight out) (msgBlockHash out)\<rparr>
          in (broadcast out c1, [SendOuts outs])
      else (broadcast out c, [SendOuts outs]))"


section \<open>Handling a message\<close>

definition bufferMessage :: "BftMessage \<Rightarrow> Coordinator \<Rightarrow> Coordinator \<times> bool" where
  "bufferMessage msg c =
     (if list_ex (\<lambda>m. senderId m = senderId msg \<and> msgType m = msgType msg \<and> msgHeight m = msgHeight msg) (pendingMessages c)
      then (c, False) else (c\<lparr>pendingMessages := pendingMessages c @ [msg]\<rparr>, True))"

definition votes_on :: "BftMessage \<Rightarrow> bool" where
  "votes_on msg \<longleftrightarrow> msgType msg = PrepareMsg \<or> msgType msg = CommitMsg"

text \<open>The signature gate: whether the message may pass, and the one-time warning.\<close>

definition signatureGate :: "BftMessage \<Rightarrow> Coordinator \<Rightarrow> Coordinator \<times> bool" where
  "signatureGate msg c =
     (if \<not> votes_on msg then (c, True)
      else if signature msg = [] then (c, False)
      else case verifier (coordCfg c) of
        Some verify \<Rightarrow>
          (c, verify (bftCanonicalMessage (typeName (msgType msg)) (msgHeight msg) (msgBlockHash msg)) (signature msg) (senderId msg))
      | None \<Rightarrow>
          (case signer (coordCfg c) of Some sign \<Rightarrow> (c\<lparr>warnedNoVerifier := True\<rparr>, False)
           | None \<Rightarrow> (c\<lparr>warnedNoVerifier := True\<rparr>, True)))"

definition equivocationGate :: "Env \<Rightarrow> BftMessage \<Rightarrow> Coordinator \<Rightarrow> Coordinator \<times> bool" where
  "equivocationGate env msg c =
     (if \<not> votes_on msg then (c, True)
      else
        case recordVote (envNow env) (detector c) (senderId msg) (msgHeight msg) (typeName (msgType msg)) (msgBlockHash msg)
               (Some (signature msg)) of
          (d, None) \<Rightarrow> (c\<lparr>detector := d\<rparr>, True)
        | (d, Some ev) \<Rightarrow>
            let c1 = c\<lparr>detector := d, equivocationsTotal := equivocationsTotal c + 1\<rparr>
            in ((if hasEquivocationHook (coordCfg c) then emit (OnEquivocation ev) c1 else c1), False))"

text \<open>The dispatch on the type, for the active round \<open>r\<close>.\<close>

definition deliver :: "Env \<Rightarrow> BftMessage \<Rightarrow> nat \<Rightarrow> BftRound \<Rightarrow> Coordinator \<Rightarrow> Coordinator \<times> Frame list" where
  "deliver env msg rid r c =
     (case msgType msg of
        PrepareMsg \<Rightarrow>
          (case handlePrepare r (senderId msg) (msgBlockHash msg) (msgStateRoot msg) of (r1, outgoing) \<Rightarrow>
           let c1 = c\<lparr>activeRound := Some (rid, r1)\<rparr>
           in case (if phase (state r1) = Finalized then proposedBlock (state r1) else None) of
                Some block \<Rightarrow> finalizeRound env (msgHeight msg) block c1
              | None \<Rightarrow> sendOuts env outgoing c1)
      | CommitMsg \<Rightarrow>
          (case handleCommit r (senderId msg) (msgBlockHash msg) (msgStateRoot msg) of (r1, fin) \<Rightarrow>
           let c1 = c\<lparr>activeRound := Some (rid, r1)\<rparr>
           in case (if fin then proposedBlock (state r1) else None) of
                Some block \<Rightarrow> finalizeRound env (msgHeight msg) block c1
              | None \<Rightarrow> (c1, []))
      | ProposeMsg \<Rightarrow> (c, []))"

definition coordHandleMessage :: "Env \<Rightarrow> BftMessage \<Rightarrow> Coordinator \<Rightarrow> Coordinator \<times> Frame list" where
  "coordHandleMessage env msg c =
     (case activeRound c of
        None \<Rightarrow>
          if length (pendingMessages c) < 50 then
            let c1 = fst (bufferMessage msg c)
            in if msgType msg = PrepareMsg then tryEarlyDivergenceDetect env (msgHeight msg) c1 else (c1, [])
          else (c, [])
      | Some (rid, r) \<Rightarrow>
          if msgHeight msg \<noteq> roundHeight (state r) then
            if msgHeight msg > roundHeight (state r) \<and> msgHeight msg \<le> roundHeight (state r) + 10 \<and> length (pendingMessages c) < 50 then
              case bufferMessage msg c of (c1, added) \<Rightarrow>
                if added \<and> msgType msg = PrepareMsg then tryEarlyDivergenceDetect env (msgHeight msg) c1 else (c1, [])
            else (c, [])
          else
            case signatureGate msg c of
              (c1, False) \<Rightarrow> (c1, [])
            | (c1, True) \<Rightarrow>
                (case equivocationGate env msg c1 of
                   (c2, False) \<Rightarrow> (c2, [])
                 | (c2, True) \<Rightarrow> deliver env msg rid r c2))"


section \<open>The rest of a start\<close>

text \<open>One turn of the loops over the buffered messages; at the end, the commit retry.\<close>

definition drainBuffered :: "Env \<Rightarrow> nat option \<Rightarrow> BftMessage list \<Rightarrow> Coordinator \<Rightarrow> Coordinator \<times> Frame list" where
  "drainBuffered env thisRound msgs c =
     (if msgs \<noteq> [] \<and> map_option fst (activeRound c) = thisRound then
        case coordHandleMessage env (hd msgs) c of (c1, fs) \<Rightarrow> (c1, fs @ [StartDrain thisRound (tl msgs)])
      else
        case activeRound c of None \<Rightarrow> (c, [])
        | Some (rid, r) \<Rightarrow>
            ((if thisRound = Some rid \<and> phase (state r) = Commit then startCommitRetry c else c), []))"

definition startTail :: "Env \<Rightarrow> ChainBlock \<Rightarrow> bool \<Rightarrow> Coordinator \<Rightarrow> Coordinator \<times> Frame list" where
  "startTail env block voted c =
     (let c1 = startTimeout c;
          c2 = (if voted then startPrepareRetry c1 else c1);
          buffered = filter (\<lambda>m. msgHeight m = number block) (pendingMessages c2);
          c3 = c2\<lparr>pendingMessages := filter (\<lambda>m. msgHeight m > number block) (pendingMessages c2)\<rparr>;
          prepares = filter (\<lambda>m. msgType m \<noteq> CommitMsg) buffered;
          commits = filter (\<lambda>m. msgType m = CommitMsg) buffered
      in drainBuffered env (map_option fst (activeRound c3)) (prepares @ commits) c3)"

text \<open>The loop that signs and broadcasts, one message for each suspension.\<close>

definition sendPrepares :: "Env \<Rightarrow> ChainBlock \<Rightarrow> BftMessage list \<Rightarrow> bool \<Rightarrow> Coordinator \<Rightarrow> Coordinator \<times> Frame list" where
  "sendPrepares env block msgs voted c =
     (case msgs of [] \<Rightarrow> startTail env block voted c
      | m # ms \<Rightarrow> (broadcast m c, [StartSent block ms]))"

definition startVote :: "Env \<Rightarrow> ChainBlock \<Rightarrow> BftRoundConfig \<Rightarrow> Coordinator \<Rightarrow> Coordinator \<times> Frame list" where
  "startVote env block roundCfg c =
     (case handlePropose (newBftRound (envNow env) (number block) roundCfg) block (proposer block)
             (envRoot env) of (r, outgoing) \<Rightarrow>
      let c1 = c\<lparr>activeRound := Some (nextId c, r), nextId := nextId c + 1\<rparr>;
          c2 = (if outgoing \<noteq> [] then recordOwnPrepare (envIo env) block c1 else c1)
      in sendPrepares env block outgoing (outgoing \<noteq> []) c2)"

definition handleReceivedBlock :: "ChainBlock \<Rightarrow> Coordinator \<Rightarrow> Coordinator \<times> Frame list" where
  "handleReceivedBlock block c =
     (if toLowerCase (proposer block) = localKeyOf c then (c, [])
      else
        let c1 = clearTerminal c
        in case activeRound c1 of None \<Rightarrow> startRound block c1
           | Some (rid, r) \<Rightarrow>
               if number block \<le> roundHeight (state r) then (c1, [])
               else
                 let hasVotes = (length (prepareVotes (state r)) > 1 \<or> length (commitVotes (state r)) > 0)
                 in if (phase (state r) = Commit \<or> phase (state r) = Prepare \<and> hasVotes) \<and> \<not> isSupersededReentry block c1
                    then (c1\<lparr>deferredBlock := Some block\<rparr>, [])
                    else startRound block (clearRound c1))"

definition resumeFrame :: "Env \<Rightarrow> Frame \<Rightarrow> Coordinator \<Rightarrow> Coordinator \<times> Frame list" where
  "resumeFrame env f c =
     (case f of
        StartFloor floor block \<Rightarrow> startCheck env floor block c
      | StartRoot block roundCfg \<Rightarrow> startVote env block roundCfg c
      | StartSent block msgs \<Rightarrow> sendPrepares env block msgs True c
      | StartDrain thisRound msgs \<Rightarrow> drainBuffered env thisRound msgs c
      | SendOuts outs \<Rightarrow> sendOuts env outs c
      | AfterFinalized \<Rightarrow> processDeferredBlock c
      | DeferredFloor floor block \<Rightarrow>
          if number block \<le> computeStalenessFloor env (coordCfg c) floor then (c, []) else startRound block c
      | ConfirmDivergence height d nowMs \<Rightarrow> confirmDivergence env height d nowMs c
      | ConfirmTip height d nowMs \<Rightarrow> (confirmTip env height d nowMs c, []))"


section \<open>Timers and the other entry points\<close>

definition proposerStuck :: "BftRound \<Rightarrow> Coordinator \<Rightarrow> Coordinator" where
  "proposerStuck r c =
     (case proposedBlock (state r) of None \<Rightarrow> c
      | Some b \<Rightarrow>
          let peerPrepares = length (filter (\<lambda>(i, v). i \<noteq> localKeyOf c) (prepareVotes (state r)))
          in if hasStuckHook (coordCfg c) \<and> proposer b \<noteq> [] \<and> toLowerCase (proposer b) \<noteq> localKeyOf c \<and>
                phase (state r) = Prepare \<and> peerPrepares = 0
             then emit (OnProposerStuck (proposer b) (roundHeight (state r))) c else c)"

definition reportDivergence :: "BftRound \<Rightarrow> Coordinator \<Rightarrow> Coordinator" where
  "reportDivergence r c =
     (if \<not> hasDivergedHook (coordCfg c) \<and> \<not> hasPersistentHook (coordCfg c) then c
      else case detectPeerQuorumDivergence c r of None \<Rightarrow> c
      | Some d \<Rightarrow>
          let h = roundHeight (state r);
              c1 = (if hasDivergedHook (coordCfg c) then emit (OnPeerQuorumDiverged h d False) c else c);
              c2 = c1\<lparr>divergenceCount := divergenceCount c1 + 1\<rparr>;
              threshold = (case persistentThreshold (coordCfg c) of Some t \<Rightarrow> t | None \<Rightarrow> 3)
          in if hasPersistentHook (coordCfg c) \<and> divergenceCount c2 \<ge> threshold
             then emit (OnPersistentDivergence h (divergenceCount c2) (peerBlockHash d) (peerStateRoot d)) c2 else c2)"

text \<open>The time-out of a round. Its handler looks at the round that is active when it fires.\<close>

definition timeoutFires :: "nat \<Rightarrow> Coordinator \<Rightarrow> Coordinator" where
  "timeoutFires t c =
     (if t \<notin> set (timers c) then c
      else
        let c0 = c\<lparr>timers := removeAll t (timers c)\<rparr>
        in case activeRound c0 of None \<Rightarrow> c0
           | Some (rid, r) \<Rightarrow>
               if terminal (phase (state r)) then c0
               else
                 let c1 = proposerStuck r (reportDivergence r c0);
                     c2 = reenterLocallyPreparedRound (roundHeight (state r)) (clearRound c1)
                 in (case processDeferredBlock c2 of (c3, fs) \<Rightarrow> spawn fs c3))"

definition watchdogTick :: "Env \<Rightarrow> Coordinator \<Rightarrow> Coordinator" where
  "watchdogTick env c =
     (if \<not> watchdogTimer c then c
      else case activeRound c of None \<Rightarrow> c
      | Some (rid, r) \<Rightarrow>
          let limit = (case livenessTimeoutMs (coordCfg c) of Some t \<Rightarrow> t | None \<Rightarrow> 5 * 60 * 1000)
          in if envNow env - lastFinalizedAtMs c > limit then
               let c1 = (clearRound c)\<lparr>pendingMessages := [], deferredBlock := None, lastFinalizedAtMs := envNow env\<rparr>;
                   c2 = reenterLocallyPreparedRound (roundHeight (state r)) c1
               in (case processDeferredBlock c2 of (c3, fs) \<Rightarrow> spawn fs c3)
             else c)"

definition commitRetryTick :: "Coordinator \<Rightarrow> Coordinator" where
  "commitRetryTick c =
     (if \<not> commitRetryTimer c then c
      else case activeRound c of None \<Rightarrow> c\<lparr>commitRetryTimer := False\<rparr>
      | Some (rid, r) \<Rightarrow>
          if phase (state r) \<noteq> Commit then c\<lparr>commitRetryTimer := False\<rparr>
          else case proposedBlock (state r) of None \<Rightarrow> c
          | Some b \<Rightarrow>
              if hash b = [] then c else broadcast (ownVote c CommitMsg (roundHeight (state r)) (hash b) None) c)"

definition prepareRetryTick :: "Coordinator \<Rightarrow> Coordinator" where
  "prepareRetryTick c =
     (if \<not> prepareRetryTimer c then c
      else case activeRound c of None \<Rightarrow> c\<lparr>prepareRetryTimer := False\<rparr>
      | Some (rid, r) \<Rightarrow>
          if phase (state r) \<noteq> Prepare \<and> phase (state r) \<noteq> Commit then c\<lparr>prepareRetryTimer := False\<rparr>
          else case proposedBlock (state r) of None \<Rightarrow> c
          | Some b \<Rightarrow>
              let h = roundHeight (state r)
              in if hash b = [] \<or> jget (localPreparedAt c) h \<noteq> Some (hash b) then c
                 else
                   let c1 = broadcast (ownVote c PrepareMsg h (hash b) (ownStateRoot c)) c
                   in if phase (state r) = Prepare \<and> jget (localCommittedAt c) h = Some (hash b)
                      then broadcast (ownVote c CommitMsg h (hash b) None) c1 else c1)"

definition lingerTick :: "Coordinator \<Rightarrow> Coordinator" where
  "lingerTick c =
     (case lingerTimer c of None \<Rightarrow> c
      | Some l \<Rightarrow>
          if lingerRemaining l = 0 then c\<lparr>lingerTimer := None\<rparr>
          else
            let c1 = c\<lparr>lingerTimer := Some (l\<lparr>lingerRemaining := lingerRemaining l - 1\<rparr>)\<rparr>;
                c2 = (case lingerPrepare l of None \<Rightarrow> c1 | Some m \<Rightarrow> emit (Broadcast m) c1)
            in broadcast (ownVote c CommitMsg (lingerHeight l) (lingerHash l) None) c2)"

definition stopCoordinator :: "Coordinator \<Rightarrow> Coordinator" where
  "stopCoordinator c =
     (clearRound (c\<lparr>stopped := True, reenteredHeight := None\<rparr>))
       \<lparr>lingerTimer := None, watchdogTimer := False, pendingMessages := [], deferredBlock := None\<rparr>"

definition updateValidators :: "bool \<Rightarrow> Validator list \<Rightarrow> Coordinator \<Rightarrow> Coordinator" where
  "updateValidators io vs c =
     (let oldIds = remdups (map (\<lambda>v. toLowerCase (vid v)) (coordValidators (coordCfg c)));
          newIds = remdups (map (\<lambda>v. toLowerCase (vid v)) vs);
          membershipChanged = (length oldIds \<noteq> length newIds \<or> list_ex (\<lambda>i. i \<notin> set oldIds) newIds \<or>
            list_ex (\<lambda>i. i \<notin> set newIds) oldIds);
          c1 = c\<lparr>coordCfg := (coordCfg c)\<lparr>coordValidators := vs\<rparr>\<rparr>
      in if \<not> membershipChanged then c1
         else
           let c2 = c1\<lparr>localPreparedAt := [], localCommittedAt := [], localPreparedBlock := [],
                 voteLedger := clearAllVotes io (voteLedger c1), reenteredHeight := None, pendingMessages := []\<rparr>
           in (if activeRound c2 = None then c2 else clearRound c2)\<lparr>deferredBlock := None\<rparr>)"

text \<open>
  The replay of the recorded votes after a restart. It runs before the first round, so its awaits are one step; a broadcast
  that fails is only logged.
\<close>

definition replayUnfinalizedVotes :: "Env \<Rightarrow> Coordinator \<Rightarrow> Coordinator" where
  "replayUnfinalizedVotes env c =
     (let floor = computeStalenessFloor env (coordCfg c) (lastFinalizedHeight c);
          commits = filter (\<lambda>(h, bh). \<not> h \<le> floor) (localCommittedAt c);
          prepares = filter (\<lambda>(h, bh). \<not> h \<le> floor \<and> jget (localCommittedAt c) h = None) (localPreparedAt c);
          c1 = foldl (\<lambda>c (h, bh). broadcast (ownVote c CommitMsg h bh None) c) c commits
      in foldl (\<lambda>c (h, bh). broadcast (ownVote c PrepareMsg h bh None) c) c1 prepares)"

record RoundSummary =
  sumActive :: bool
  sumHeight :: "bigint option"
  sumPhase :: "BftPhase option"
  sumPrepares :: nat
  sumCommits :: nat
  sumEquivocations :: nat

definition getRoundState :: "Coordinator \<Rightarrow> RoundSummary" where
  "getRoundState c =
     (case activeRound c of
        Some (rid, r) \<Rightarrow>
          if terminal (phase (state r)) then \<lparr>sumActive = False, sumHeight = None, sumPhase = None, sumPrepares = 0, sumCommits = 0, sumEquivocations = 0\<rparr>
          else \<lparr>sumActive = True, sumHeight = Some (roundHeight (state r)), sumPhase = Some (phase (state r)),
            sumPrepares = length (prepareVotes (state r)), sumCommits = length (commitVotes (state r)),
            sumEquivocations = length (evidence (detector c))\<rparr>
      | None \<Rightarrow> \<lparr>sumActive = False, sumHeight = None, sumPhase = None, sumPrepares = 0, sumCommits = 0, sumEquivocations = 0\<rparr>)"


section \<open>Events\<close>

datatype CoordEvent =
    CallStartRound ChainBlock | CallHandleMessage BftMessage | CallReceivedBlock ChainBlock | Resume nat
  | TimeoutFires nat | WatchdogTick | CommitRetryTick | PrepareRetryTick | LingerTick
  | CallUpdateValidators "Validator list" | CallForceClear | CallReplay | CallStop

definition spawned :: "Coordinator \<times> Frame list \<Rightarrow> Coordinator" where
  "spawned cf = (case cf of (c, fs) \<Rightarrow> spawn fs c)"

definition resumeTask :: "Env \<Rightarrow> nat \<Rightarrow> Coordinator \<Rightarrow> Coordinator" where
  "resumeTask env i c =
     (if i < length (tasks c) then
        case tasks c ! i of [] \<Rightarrow> c\<lparr>tasks := splice_out i (tasks c)\<rparr>
        | f # rest \<Rightarrow>
            (case resumeFrame env f (c\<lparr>tasks := splice_out i (tasks c)\<rparr>) of (c1, fs) \<Rightarrow> spawn (fs @ rest) c1)
      else c)"

fun coordStep :: "Coordinator \<Rightarrow> Env \<times> CoordEvent \<Rightarrow> Coordinator" where
  "coordStep c (env, CallStartRound block) = spawned (startRound block c)"
| "coordStep c (env, CallHandleMessage msg) = spawned (coordHandleMessage env msg c)"
| "coordStep c (env, CallReceivedBlock block) = spawned (handleReceivedBlock block c)"
| "coordStep c (env, Resume i) = resumeTask env i c"
| "coordStep c (env, TimeoutFires t) = timeoutFires t c"
| "coordStep c (env, WatchdogTick) = watchdogTick env c"
| "coordStep c (env, CommitRetryTick) = commitRetryTick c"
| "coordStep c (env, PrepareRetryTick) = prepareRetryTick c"
| "coordStep c (env, LingerTick) = lingerTick c"
| "coordStep c (env, CallUpdateValidators vs) = updateValidators (envIo env) vs c"
| "coordStep c (env, CallForceClear) = forceClearRound c"
| "coordStep c (env, CallReplay) = replayUnfinalizedVotes env c"
| "coordStep c (env, CallStop) = stopCoordinator c"

end
