(* ===== verification/Vote_Safety.thy ===== *)
theory Vote_Safety
  imports Coordinator
begin

text \<open>
  A node votes for at most one block of a height. The invariant relates the messages a coordinator has sent, the votes it
  remembers in memory and in its ledger, its active round, its lingering broadcasts and its suspended calls; every piece of code between two
  suspension points keeps it, and so does a crash. The one way to break it is to start two rounds for one height at once, which the last
  section shows.
\<close>

section \<open>What a node sends\<close>

definition sentBy :: "Effect \<Rightarrow> BftMessage list" where
  "sentBy e = (case e of Broadcast m \<Rightarrow> [m] | _ \<Rightarrow> [])"

definition broadcasts :: "Coordinator \<Rightarrow> BftMessage list" where
  "broadcasts c = concat (map sentBy (effects c))"

definition one_hash :: "BftMessage list \<Rightarrow> bool" where
  "one_hash ms \<longleftrightarrow> (\<forall>m\<in>set ms. \<forall>m'\<in>set ms. msgHeight m = msgHeight m' \<longrightarrow> msgBlockHash m = msgBlockHash m')"

text \<open>The part of the state the votes of a node depend on. Most of the code leaves it alone.\<close>

definition same_core :: "Coordinator \<Rightarrow> Coordinator \<Rightarrow> bool" where
  "same_core c c' \<longleftrightarrow>
     coordCfg c' = coordCfg c \<and> activeRound c' = activeRound c \<and> lastFinalizedHeight c' = lastFinalizedHeight c \<and>
     localPreparedAt c' = localPreparedAt c \<and> localCommittedAt c' = localCommittedAt c \<and> lingerTimer c' = lingerTimer c \<and>
     voteLedger c' = voteLedger c \<and> broadcasts c' = broadcasts c \<and> tasks c' = tasks c"

lemma sentBy_simps [simp]:
  "sentBy (Broadcast m) = [m]" "sentBy (OnFinalized b) = []" "sentBy (OnEquivocation ev) = []"
  "sentBy (OnPeerQuorumDiverged h d x) = []" "sentBy (OnPersistentDivergence h n bh root) = []"
  "sentBy (OnProposerStuck p h) = []" "sentBy (RegossipBlock b) = []"
  by (simp_all add: sentBy_def)

lemma broadcasts_emit [simp]: "broadcasts (emit e c) = broadcasts c @ sentBy e"
  by (simp add: broadcasts_def emit_def)

lemma broadcasts_upd [simp]:
  "broadcasts (c\<lparr>coordCfg := x0\<rparr>) = broadcasts c"   "broadcasts (c\<lparr>activeRound := x1\<rparr>) = broadcasts c"
  "broadcasts (c\<lparr>timeoutTimer := x2\<rparr>) = broadcasts c"   "broadcasts (c\<lparr>timers := x3\<rparr>) = broadcasts c"
  "broadcasts (c\<lparr>commitRetryTimer := x4\<rparr>) = broadcasts c"   "broadcasts (c\<lparr>prepareRetryTimer := x5\<rparr>) = broadcasts c"
  "broadcasts (c\<lparr>reenteredHeight := x6\<rparr>) = broadcasts c"   "broadcasts (c\<lparr>stopped := x7\<rparr>) = broadcasts c"
  "broadcasts (c\<lparr>lingerTimer := x8\<rparr>) = broadcasts c"   "broadcasts (c\<lparr>pendingMessages := x9\<rparr>) = broadcasts c"
  "broadcasts (c\<lparr>deferredBlock := x10\<rparr>) = broadcasts c"   "broadcasts (c\<lparr>lastFinalizedHeight := x11\<rparr>) = broadcasts c"
  "broadcasts (c\<lparr>lastFinalizedAtMs := x12\<rparr>) = broadcasts c"   "broadcasts (c\<lparr>confirmHeight := x13\<rparr>) = broadcasts c"
  "broadcasts (c\<lparr>warnedNoVerifier := x14\<rparr>) = broadcasts c"   "broadcasts (c\<lparr>watchdogTimer := x15\<rparr>) = broadcasts c"
  "broadcasts (c\<lparr>divergenceCount := x16\<rparr>) = broadcasts c"   "broadcasts (c\<lparr>lastFireHeight := x17\<rparr>) = broadcasts c"
  "broadcasts (c\<lparr>lastFireAtMs := x18\<rparr>) = broadcasts c"   "broadcasts (c\<lparr>detector := x19\<rparr>) = broadcasts c"
  "broadcasts (c\<lparr>equivocationsTotal := x20\<rparr>) = broadcasts c"   "broadcasts (c\<lparr>localPreparedAt := x21\<rparr>) = broadcasts c"
  "broadcasts (c\<lparr>localCommittedAt := x22\<rparr>) = broadcasts c"   "broadcasts (c\<lparr>localPreparedBlock := x23\<rparr>) = broadcasts c"
  "broadcasts (c\<lparr>voteLedger := x24\<rparr>) = broadcasts c"   "broadcasts (c\<lparr>nextId := x25\<rparr>) = broadcasts c"
  "broadcasts (c\<lparr>tasks := x26\<rparr>) = broadcasts c"
  by (simp_all add: broadcasts_def)

lemma emit_frame [simp]:
  "coordCfg (emit e c) = coordCfg c" "activeRound (emit e c) = activeRound c" "lastFinalizedHeight (emit e c) = lastFinalizedHeight c"
  "localPreparedAt (emit e c) = localPreparedAt c" "localCommittedAt (emit e c) = localCommittedAt c"
  "lingerTimer (emit e c) = lingerTimer c" "voteLedger (emit e c) = voteLedger c" "tasks (emit e c) = tasks c"
  "deferredBlock (emit e c) = deferredBlock c" "stopped (emit e c) = stopped c" "localPreparedBlock (emit e c) = localPreparedBlock c"
  "timers (emit e c) = timers c" "timeoutTimer (emit e c) = timeoutTimer c" "pendingMessages (emit e c) = pendingMessages c"
  by (simp_all add: emit_def)

lemma signMessage_frame [simp]:
  "msgHeight (signMessage c m) = msgHeight m" "msgBlockHash (signMessage c m) = msgBlockHash m"
  "msgType (signMessage c m) = msgType m" "senderId (signMessage c m) = senderId m"
  by (simp_all add: signMessage_def split: option.split)

lemma ownVote_frame [simp]:
  "msgHeight (ownVote c t h bh root) = h" "msgBlockHash (ownVote c t h bh root) = bh" "msgType (ownVote c t h bh root) = t"
  by (simp_all add: ownVote_def)

named_theorems core

lemma core_refl [core, simp]: "same_core c c"
  by (simp add: same_core_def)

lemma core_trans: "same_core a b \<Longrightarrow> same_core b c \<Longrightarrow> same_core a c"
  by (simp add: same_core_def)

lemma core_emit: "sentBy e = [] \<Longrightarrow> same_core c (emit e c)"
  by (simp add: same_core_def)

lemma core_fireDivergence [core]: "same_core c (fireDivergence env h d now x c)"
  by (simp add: fireDivergence_def same_core_def Let_def)

lemma core_tryEarly [core]: "same_core c (fst (tryEarlyDivergenceDetect env h c))"
  using core_fireDivergence by (simp add: tryEarlyDivergenceDetect_def case_prod_beta same_core_def split: option.split)

lemma core_confirmTip [core]: "same_core c (confirmTip env h d now c)"
  using core_fireDivergence [of "c\<lparr>confirmHeight := None\<rparr>"] by (auto simp: confirmTip_def same_core_def Let_def)

lemma core_confirm [core]: "same_core c (fst (confirmDivergence env h d now c))"
  using core_fireDivergence [of "c\<lparr>confirmHeight := None\<rparr>"]
  by (auto simp: confirmDivergence_def same_core_def Let_def split: option.split)

lemma core_buffer [core]: "same_core c (fst (bufferMessage m c))"
  by (simp add: bufferMessage_def same_core_def)

lemma core_signatureGate [core]: "same_core c (fst (signatureGate m c))"
  by (simp add: signatureGate_def same_core_def split: option.split)

lemma core_equivocationGate [core]: "same_core c (fst (equivocationGate env m c))"
  by (simp add: equivocationGate_def same_core_def Let_def split: option.split prod.split)

lemma core_afterPrepare [core]: "same_core c (fst (afterPrepare env c))"
proof -
  have "same_core c (fst (tryEarlyDivergenceDetect env h (startCommitRetry c)))" for h
    by (rule core_trans [OF _ core_tryEarly]) (simp add: startCommitRetry_def same_core_def)
  then show ?thesis using core_tryEarly by (auto simp: afterPrepare_def Let_def split: option.split prod.split)
qed

lemma core_reenter [core]: "same_core c (reenterLocallyPreparedRound h c)"
  by (simp add: reenterLocallyPreparedRound_def same_core_def Let_def split: option.split)

lemma core_deferred [core]: "same_core c (fst (processDeferredBlock c))"
  by (simp add: processDeferredBlock_def same_core_def split: option.split)

lemma core_startRound [core]: "same_core c (fst (startRound b c))"
  by (simp add: startRound_def)

lemma core_proposerStuck [core]: "same_core c (proposerStuck r c)"
  by (simp add: proposerStuck_def same_core_def Let_def split: option.split)

lemma core_reportDivergence [core]: "same_core c (reportDivergence r c)"
  by (simp add: reportDivergence_def same_core_def Let_def split: option.split)

text \<open>The suspensions that these parts of the code ask for.\<close>

definition plain_frame :: "Frame \<Rightarrow> bool" where
  "plain_frame f = (case f of StartRoot b cfg \<Rightarrow> False | StartSent b ms \<Rightarrow> ms = [] | SendOuts ms \<Rightarrow> ms = [] | _ \<Rightarrow> True)"

lemma plain_frames:
  "list_all plain_frame (snd (tryEarlyDivergenceDetect env h c))" "list_all plain_frame (snd (afterPrepare env c))"
  "list_all plain_frame (snd (processDeferredBlock c))" "list_all plain_frame (snd (startRound b c))"
  "list_all plain_frame (snd (confirmDivergence env h d now c))"
proof -
  show e: "list_all plain_frame (snd (tryEarlyDivergenceDetect env h c))" for h c
    by (simp add: tryEarlyDivergenceDetect_def case_prod_beta plain_frame_def split: option.split)
  show "list_all plain_frame (snd (afterPrepare env c))"
    by (simp add: afterPrepare_def e Let_def split: option.split prod.split)
  show "list_all plain_frame (snd (processDeferredBlock c))" "list_all plain_frame (snd (startRound b c))"
    "list_all plain_frame (snd (confirmDivergence env h d now c))"
    by (simp_all add: processDeferredBlock_def startRound_def confirmDivergence_def plain_frame_def Let_def split: option.split)
qed


section \<open>The invariant of the votes\<close>

text \<open>
  \<open>H\<close> holds what the node sent before it last started, and \<open>T\<close> is the highest height it had finalized by then.
\<close>

definition settled :: "bigint \<Rightarrow> Coordinator \<Rightarrow> bigint" where
  "settled T c = max T (lastFinalizedHeight c)"

definition recorded :: "BftMessage list \<Rightarrow> bigint \<Rightarrow> Coordinator \<Rightarrow> bool" where
  "recorded H T c \<longleftrightarrow> (\<forall>m\<in>set (H @ broadcasts c). settled T c < msgHeight m \<longrightarrow>
     jget (localPreparedAt c) (msgHeight m) = Some (msgBlockHash m))"

definition round_recorded :: "bigint \<Rightarrow> Coordinator \<Rightarrow> bool" where
  "round_recorded T c \<longleftrightarrow> (\<forall>rid r b. activeRound c = Some (rid, r) \<and> proposedBlock (state r) = Some b \<longrightarrow>
     settled T c < roundHeight (state r) \<and> jget (localPreparedAt c) (roundHeight (state r)) = Some (hash b))"

definition linger_agrees :: "BftMessage list \<Rightarrow> bigint \<Rightarrow> Coordinator \<Rightarrow> bool" where
  "linger_agrees H T c \<longleftrightarrow> (\<forall>l. lingerTimer c = Some l \<longrightarrow> lingerHeight l \<le> settled T c \<and>
     (\<forall>m\<in>set (H @ broadcasts c). msgHeight m = lingerHeight l \<longrightarrow> msgBlockHash m = lingerHash l) \<and>
     (\<forall>m. lingerPrepare l = Some m \<longrightarrow> msgHeight m = lingerHeight l \<and> msgBlockHash m = lingerHash l))"

definition records_ok :: "Coordinator \<Rightarrow> bool" where
  "records_ok c \<longleftrightarrow> jmap_ok (localPreparedAt c) \<and> jmap_ok (localCommittedAt c) \<and>
     (\<forall>h bh. jget (localCommittedAt c) h = Some bh \<longrightarrow> jget (localPreparedAt c) h = Some bh) \<and>
     ledger.mirrors (voteLedger c) (jget (localPreparedAt c)) (jget (localCommittedAt c))"

definition self_ok :: "Coordinator \<Rightarrow> bool" where
  "self_ok c \<longleftrightarrow> localKeyOf c \<in> voter_ids (coordValidators (coordCfg c))"

definition vote_inv :: "BftMessage list \<Rightarrow> bigint \<Rightarrow> Coordinator \<Rightarrow> bool" where
  "vote_inv H T c \<longleftrightarrow> one_hash (H @ broadcasts c) \<and> recorded H T c \<and> round_recorded T c \<and> linger_agrees H T c \<and>
     records_ok c \<and> self_ok c"

lemma vote_inv_core: "vote_inv H T c \<Longrightarrow> same_core c c' \<Longrightarrow> vote_inv H T c'"
  by (simp add: vote_inv_def same_core_def recorded_def round_recorded_def linger_agrees_def records_ok_def self_ok_def
      settled_def localKeyOf_def)

lemma vote_inv_clear: "vote_inv H T c \<Longrightarrow> vote_inv H T (clearRound c)"
  by (simp add: vote_inv_def clearRound_def recorded_def round_recorded_def linger_agrees_def records_ok_def self_ok_def
      settled_def localKeyOf_def)

lemma one_hash_snoc:
  "one_hash (ms @ [m]) \<longleftrightarrow> one_hash ms \<and> (\<forall>m'\<in>set ms. msgHeight m' = msgHeight m \<longrightarrow> msgBlockHash m' = msgBlockHash m)"
  unfolding one_hash_def by (simp add: ball_conj_distrib) (auto simp: eq_commute)

text \<open>A vote may be sent for a height that is not settled if it is the recorded one, or for the height that lingers.\<close>

lemma vote_inv_send:
  assumes inv: "vote_inv H T c"
    and m: "settled T c < msgHeight m \<and> jget (localPreparedAt c) (msgHeight m) = Some (msgBlockHash m) \<or>
      (\<exists>l. lingerTimer c = Some l \<and> msgHeight m = lingerHeight l \<and> msgBlockHash m = lingerHash l)"
  shows "vote_inv H T (emit (Broadcast m) c)"
proof -
  have rec: "recorded H T c" and lin: "linger_agrees H T c" and one: "one_hash (H @ broadcasts c)"
    using inv by (simp_all add: vote_inv_def)
  have old: "msgBlockHash m' = msgBlockHash m" if "m' \<in> set (H @ broadcasts c)" "msgHeight m' = msgHeight m" for m'
    using m
  proof
    assume "settled T c < msgHeight m \<and> jget (localPreparedAt c) (msgHeight m) = Some (msgBlockHash m)"
    then show ?thesis using rec that unfolding recorded_def by (metis option.inject)
  next
    assume "\<exists>l. lingerTimer c = Some l \<and> msgHeight m = lingerHeight l \<and> msgBlockHash m = lingerHash l"
    then show ?thesis using lin that unfolding linger_agrees_def by metis
  qed
  have "one_hash (H @ broadcasts (emit (Broadcast m) c))"
    using one old by (simp add: one_hash_snoc append_assoc [symmetric] del: append_assoc)
  moreover have "recorded H T (emit (Broadcast m) c)"
    using rec m lin unfolding recorded_def linger_agrees_def settled_def by fastforce
  moreover have "linger_agrees H T (emit (Broadcast m) c)"
    using lin m unfolding linger_agrees_def settled_def by fastforce
  ultimately show ?thesis
    using inv by (simp add: vote_inv_def round_recorded_def records_ok_def self_ok_def settled_def localKeyOf_def)
qed

lemma vote_inv_own_vote:
  assumes "vote_inv H T c" and "settled T c < h" and "jget (localPreparedAt c) h = Some bh" and "msgHeight m = h" and "msgBlockHash m = bh"
  shows "vote_inv H T (broadcast m c)"
  unfolding broadcast_def using assms by (intro vote_inv_send) simp_all

text \<open>Recording the node's own votes.\<close>

lemma vote_inv_record_commit:
  assumes inv: "vote_inv H T c" and "jget (localPreparedAt c) h = Some bh"
  shows "vote_inv H T (c\<lparr>localCommittedAt := jset h bh (localCommittedAt c),
    voteLedger := recordCommitted True (voteLedger c) h bh\<rparr>)"
  using assms ledger.mirrors_rec_com [of "voteLedger c" "jget (localPreparedAt c)" "jget (localCommittedAt c)" h bh]
  by (auto simp: vote_inv_def recorded_def round_recorded_def linger_agrees_def records_ok_def self_ok_def settled_def localKeyOf_def)

lemma vote_inv_record_prepare:
  assumes inv: "vote_inv H T c"
    and free: "jget (localPreparedAt c) (number b) = None \<or> jget (localPreparedAt c) (number b) = Some (hash b)"
  shows "vote_inv H T (recordOwnPrepare True b c)"
proof -
  let ?P = "jget (localPreparedAt c)"
  have keep: "(?P(number b \<mapsto> hash b)) h = Some bh" if "?P h = Some bh" for h bh
    using that free by auto
  have com: "?P(number b \<mapsto> hash b) = jget (jset (number b) (hash b) (localPreparedAt c))" by simp
  show ?thesis
    using inv keep ledger.mirrors_rec_prep [of "voteLedger c" ?P "jget (localCommittedAt c)" "number b" "hash b"]
    unfolding vote_inv_def recorded_def round_recorded_def linger_agrees_def records_ok_def self_ok_def settled_def localKeyOf_def
      recordOwnPrepare_def com
    by simp
qed


section \<open>Every piece of code keeps the invariant\<close>

definition isSelf :: "BftRoundConfig \<Rightarrow> bool" where
  "isSelf cfg \<longleftrightarrow> toLowerCase (localId cfg) \<in> voter_ids (validators cfg)"

definition frame_ok :: "bigint \<Rightarrow> Coordinator \<Rightarrow> Frame \<Rightarrow> bool" where
  "frame_ok T c f =
     (case f of
        StartRoot b cfg \<Rightarrow> activeRound c = None \<and> settled T c < number b \<and> isSelf cfg \<and>
          (jget (localPreparedAt c) (number b) = None \<or> jget (localPreparedAt c) (number b) = Some (hash b))
      | _ \<Rightarrow> plain_frame f)"

definition quiet :: "Coordinator \<Rightarrow> Coordinator \<Rightarrow> bool" where
  "quiet c c' \<longleftrightarrow> activeRound c' = None \<and> lastFinalizedHeight c' = lastFinalizedHeight c \<and> localPreparedAt c' = localPreparedAt c"

definition sound :: "BftMessage list \<Rightarrow> bigint \<Rightarrow> Coordinator \<Rightarrow> Coordinator \<times> Frame list \<Rightarrow> bool" where
  "sound H T c cf \<longleftrightarrow> vote_inv H T (fst cf) \<and> list_all plain_frame (snd cf) \<and> tasks (fst cf) = tasks c \<and>
     (activeRound c = None \<longrightarrow> quiet c (fst cf))"

lemma plain_frame_ok: "plain_frame f \<Longrightarrow> frame_ok T c f"
  by (simp add: frame_ok_def plain_frame_def split: Frame.splits)

lemma frame_ok_quiet: "frame_ok T c f \<Longrightarrow> quiet c c' \<Longrightarrow> frame_ok T c' f"
  by (simp add: frame_ok_def quiet_def settled_def split: Frame.splits)

lemma sound_core: "vote_inv H T c \<Longrightarrow> same_core c (fst cf) \<Longrightarrow> list_all plain_frame (snd cf) \<Longrightarrow> sound H T c cf"
  using vote_inv_core by (auto simp: sound_def quiet_def same_core_def)

lemma sound_pair: "vote_inv H T c \<Longrightarrow> same_core c c' \<Longrightarrow> list_all plain_frame fs \<Longrightarrow> sound H T c (c', fs)"
  by (rule sound_core) simp_all

lemma sound_after: "same_core c c0 \<Longrightarrow> sound H T c0 cf \<Longrightarrow> sound H T c cf"
  by (simp add: sound_def quiet_def same_core_def)

lemma finalizeRound_sound:
  assumes inv: "vote_inv H T c" and io: "envIo env" and r: "activeRound c = Some (rid, r)" "proposedBlock (state r) = Some b"
    and h: "h = roundHeight (state r)"
  shows "sound H T c (finalizeRound env h b c)"
proof -
  have high: "settled T c < h" and prep: "jget (localPreparedAt c) h = Some (hash b)"
    using inv r h by (auto simp: vote_inv_def round_recorded_def)
  have rec: "\<And>m. m \<in> set (H @ broadcasts c) \<Longrightarrow> h \<le> msgHeight m \<Longrightarrow> jget (localPreparedAt c) (msgHeight m) = Some (msgBlockHash m)"
    using inv high by (auto simp: vote_inv_def recorded_def)
  have same: "\<And>m. m \<in> set (H @ broadcasts c) \<Longrightarrow> msgHeight m = h \<Longrightarrow> msgBlockHash m = hash b"
    using rec prep by (metis option.inject order_refl)
  have ok: "records_ok c" "one_hash (H @ broadcasts c)" "self_ok c" using inv by (simp_all add: vote_inv_def)
  define c' where "c' = fst (finalizeRound env h b c)"
  have c': "broadcasts c' = broadcasts c" "activeRound c' = None" "lastFinalizedHeight c' = h" "tasks c' = tasks c"
      "coordCfg c' = coordCfg c" "voteLedger c' = pruneLedger True (voteLedger c) h"
      "localPreparedAt c' = filter (\<lambda>(k, bh). \<not> k \<le> h) (localPreparedAt c)"
      "localCommittedAt c' = filter (\<lambda>(k, bh). \<not> k \<le> h) (localCommittedAt c)"
      "\<exists>m n. lingerTimer c' = Some \<lparr>lingerRemaining = n, lingerPrepare = m, lingerHeight = h, lingerHash = hash b\<rparr> \<and>
         (\<forall>x. m = Some x \<longrightarrow> msgHeight x = h \<and> msgBlockHash x = hash b)"
    by (simp_all add: c'_def finalizeRound_def pruneLocalVoteLedger_def startLingerBroadcast_def clearRound_def Let_def io)
  have lookups: "jget (localPreparedAt c') = (\<lambda>k. if k \<le> h then None else jget (localPreparedAt c) k)"
      "jget (localCommittedAt c') = (\<lambda>k. if k \<le> h then None else jget (localCommittedAt c) k)"
    using ok(1) by (auto simp: c' records_ok_def jget_filter fun_eq_iff split: option.split)
  have top: "settled T c' = h" using high by (simp add: settled_def c')
  have "records_ok c'"
    using ok(1) ledger.mirrors_forget [of "voteLedger c" "jget (localPreparedAt c)" "jget (localCommittedAt c)" h]
    unfolding records_ok_def lookups c'(6) by (auto simp: c'(7,8) split: if_splits)
  moreover have "recorded H T c'" unfolding recorded_def top lookups c'(1) using rec by auto
  moreover have "linger_agrees H T c'" unfolding linger_agrees_def top c'(1) using c'(9) same by auto
  moreover have "round_recorded T c'" "self_ok c'" using ok(3) by (simp_all add: round_recorded_def self_ok_def localKeyOf_def c')
  ultimately have "vote_inv H T c'" using ok(2) by (simp add: vote_inv_def c'(1))
  moreover have "list_all plain_frame (snd (finalizeRound env h b c))" by (simp add: finalizeRound_def Let_def plain_frame_def)
  ultimately show ?thesis using c'(4) r(1) by (simp add: sound_def c'_def)
qed

lemma sendOuts_sound:
  assumes inv: "vote_inv H T c" and io: "envIo env"
    and outs: "length outs \<le> 1" "\<forall>m\<in>set outs. msgType m = CommitMsg \<and> settled T c < msgHeight m \<and>
      jget (localPreparedAt c) (msgHeight m) = Some (msgBlockHash m) \<and> activeRound c \<noteq> None"
  shows "sound H T c (sendOuts env outs c)"
proof (cases outs)
  case Nil
  then show ?thesis using inv by (auto intro!: sound_core core plain_frames)
next
  case (Cons m ms)
  then have [simp]: "ms = []" and m: "msgType m = CommitMsg" "settled T c < msgHeight m"
    "jget (localPreparedAt c) (msgHeight m) = Some (msgBlockHash m)" "activeRound c \<noteq> None" using outs by auto
  show ?thesis
  proof (cases "case jget (localCommittedAt c) (msgHeight m) of None \<Rightarrow> False | Some h \<Rightarrow> h \<noteq> msgBlockHash m")
    case True
    then show ?thesis using Cons m inv by (auto intro!: sound_core core plain_frames)
  next
    case False
    let ?c = "c\<lparr>localCommittedAt := jset (msgHeight m) (msgBlockHash m) (localCommittedAt c),
      voteLedger := recordCommitted True (voteLedger c) (msgHeight m) (msgBlockHash m)\<rparr>"
    have "vote_inv H T (broadcast m ?c)"
      using vote_inv_record_commit [OF inv m(3)] m by (intro vote_inv_own_vote) (simp_all add: settled_def)
    then show ?thesis using Cons m False io
      by (auto simp: sound_def broadcast_def plain_frame_def Let_def)
  qed
qed


lemma vote_inv_round:
  assumes "vote_inv H T c" and "activeRound c = Some (rid, r)"
    and "proposedBlock (state r') = proposedBlock (state r)" and "roundHeight (state r') = roundHeight (state r)"
  shows "vote_inv H T (c\<lparr>activeRound := Some (rid', r')\<rparr>)"
  using assms by (simp add: vote_inv_def recorded_def round_recorded_def linger_agrees_def records_ok_def self_ok_def settled_def localKeyOf_def)

lemma handlePrepare_votes:
  assumes "handlePrepare r sender bh root = (r', outs)"
  shows "proposedBlock (state r') = proposedBlock (state r)" and "roundHeight (state r') = roundHeight (state r)"
    and "length outs \<le> 1" and "\<forall>m\<in>set outs. msgType m = CommitMsg \<and> msgHeight m = roundHeight (state r) \<and>
      (\<exists>b. proposedBlock (state r) = Some b \<and> msgBlockHash m = hash b)"
  using assms by (cases rule: handlePrepare_cases [of r sender bh root]; auto)+

lemma handleCommit_votes:
  assumes "handleCommit r sender bh root = (r', fin)"
  shows "proposedBlock (state r') = proposedBlock (state r)" and "roundHeight (state r') = roundHeight (state r)"
  using assms by (cases rule: handleCommit_cases [of r sender bh root]; auto)+

lemma sound_active: "activeRound c \<noteq> None \<Longrightarrow> tasks c' = tasks c \<Longrightarrow> activeRound c' \<noteq> None \<Longrightarrow> sound H T c' cf \<Longrightarrow> sound H T c cf"
  by (auto simp: sound_def)

lemma deliver_sound:
  assumes inv: "vote_inv H T c" and io: "envIo env" and r: "activeRound c = Some (rid, r)"
    and h: "msgHeight msg = roundHeight (state r)"
  shows "sound H T c (deliver env msg rid r c)"
proof (cases "msgType msg")
  case ProposeMsg
  then show ?thesis using inv by (auto simp: deliver_def intro!: sound_pair)
next
  case PrepareMsg
  obtain r1 outs where eq: "handlePrepare r (senderId msg) (msgBlockHash msg) (msgStateRoot msg) = (r1, outs)" by fastforce
  note v = handlePrepare_votes [OF eq]
  let ?c = "c\<lparr>activeRound := Some (rid, r1)\<rparr>"
  have inv1: "vote_inv H T ?c" using inv r v(1,2) by (rule vote_inv_round)
  have "sound H T ?c (sendOuts env outs ?c)"
  proof (rule sendOuts_sound [OF inv1 io v(3)])
    show "\<forall>m\<in>set outs. msgType m = CommitMsg \<and> settled T ?c < msgHeight m \<and>
        jget (localPreparedAt ?c) (msgHeight m) = Some (msgBlockHash m) \<and> activeRound ?c \<noteq> None"
      using v(4) inv r by (fastforce simp: vote_inv_def round_recorded_def settled_def)
  qed
  moreover have "sound H T ?c (finalizeRound env (msgHeight msg) b ?c)" if "proposedBlock (state r1) = Some b" for b
    using that v(2) h by (intro finalizeRound_sound [OF inv1 io, of rid r1]) simp_all
  ultimately have "sound H T ?c (deliver env msg rid r c)"
    using PrepareMsg by (auto simp: deliver_def eq Let_def split: option.split)
  then show ?thesis by (rule sound_active [rotated 3]) (simp_all add: r)
next
  case CommitMsg
  obtain r1 fin where eq: "handleCommit r (senderId msg) (msgBlockHash msg) (msgStateRoot msg) = (r1, fin)" by fastforce
  note v = handleCommit_votes [OF eq]
  let ?c = "c\<lparr>activeRound := Some (rid, r1)\<rparr>"
  have inv1: "vote_inv H T ?c" using inv r v(1,2) by (rule vote_inv_round)
  have "sound H T ?c (finalizeRound env (msgHeight msg) b ?c)" if "proposedBlock (state r1) = Some b" for b
    using that v(2) h by (intro finalizeRound_sound [OF inv1 io, of rid r1]) simp_all
  then have "sound H T ?c (deliver env msg rid r c)"
    using CommitMsg inv1 by (auto simp: deliver_def eq Let_def intro: sound_pair split: option.split)
  then show ?thesis by (rule sound_active [rotated 3]) (simp_all add: r)
qed

lemma coordHandleMessage_sound:
  assumes inv: "vote_inv H T c" and io: "envIo env"
  shows "sound H T c (coordHandleMessage env msg c)"
proof -
  let ?b = "fst (bufferMessage msg c)"
  have early: "sound H T c (tryEarlyDivergenceDetect env (msgHeight msg) ?b)" 
    by (rule sound_after [OF core_buffer [of c msg]]) (intro sound_core vote_inv_core [OF inv core_buffer] core plain_frames)
  have buf: "sound H T c (?b, [])" by (intro sound_pair inv core) simp
  show ?thesis
  proof (cases "activeRound c")
    case None
    then show ?thesis using early buf inv by (auto simp: coordHandleMessage_def Let_def intro!: sound_pair)
  next
    case (Some ar)
    obtain rid r where ar: "ar = (rid, r)" by (cases ar)
    obtain c1 ok1 where g1: "signatureGate msg c = (c1, ok1)" by fastforce
    obtain c2 ok2 where g2: "equivocationGate env msg c1 = (c2, ok2)" by fastforce
    have s1: "same_core c c1" using core_signatureGate [of c msg] g1 by simp
    have s2: "same_core c c2" using core_trans [OF s1, of c2] core_equivocationGate [of c1 env msg] g2 by simp
    have "sound H T c (deliver env msg rid r c2)" if "msgHeight msg = roundHeight (state r)"
      using s2 Some ar that
      by (intro sound_after [OF s2] deliver_sound [OF vote_inv_core [OF inv s2] io]) (auto simp: same_core_def)
    moreover have "sound H T c (c1, [])" "sound H T c (c2, [])" "sound H T c (c, [])"
      using inv s1 s2 by (auto intro!: sound_pair)
    ultimately show ?thesis
      using early buf Some ar g1 g2 by (auto simp: coordHandleMessage_def case_prod_beta split: bool.split)
  qed
qed

lemma drainBuffered_sound:
  assumes "vote_inv H T c" and "envIo env"
  shows "sound H T c (drainBuffered env rd msgs c)"
proof (cases "msgs \<noteq> [] \<and> map_option fst (activeRound c) = rd")
  case True
  then show ?thesis using coordHandleMessage_sound [OF assms, of "hd msgs"]
    by (simp add: drainBuffered_def sound_def plain_frame_def case_prod_beta)
next
  case False
  have "same_core c (startCommitRetry c)" by (simp add: startCommitRetry_def same_core_def)
  with False assms show ?thesis by (auto simp: drainBuffered_def intro!: sound_pair split: option.split)
qed

lemma startTail_sound:
  assumes inv: "vote_inv H T c" and io: "envIo env"
  shows "sound H T c (startTail env b voted c)"
proof -
  define c3 where "c3 = (let c1 = startTimeout c; c2 = (if voted then startPrepareRetry c1 else c1)
     in c2\<lparr>pendingMessages := filter (\<lambda>m. msgHeight m > number b) (pendingMessages c2)\<rparr>)"
  have same: "same_core c c3" by (simp add: c3_def startTimeout_def startPrepareRetry_def same_core_def Let_def)
  have "\<exists>rd msgs. startTail env b voted c = drainBuffered env rd msgs c3"
    unfolding startTail_def c3_def Let_def by blast
  then show ?thesis
    using sound_after [OF same drainBuffered_sound [OF vote_inv_core [OF inv same] io]] by auto
qed


definition is_root :: "Frame \<Rightarrow> bool" where
  "is_root f = (case f of StartRoot b cfg \<Rightarrow> True | _ \<Rightarrow> False)"

definition frames_ok :: "bigint \<Rightarrow> Coordinator \<Rightarrow> Frame list \<Rightarrow> bool" where
  "frames_ok T c fs \<longleftrightarrow> (\<forall>f\<in>set fs. frame_ok T c f) \<and> length (filter is_root fs) \<le> 1"

definition coord_inv :: "BftMessage list \<Rightarrow> bigint \<Rightarrow> Coordinator \<Rightarrow> bool" where
  "coord_inv H T c \<longleftrightarrow> vote_inv H T c \<and> frames_ok T c (concat (tasks c))"

lemma frame_ok_plain: "frame_ok T c f \<Longrightarrow> \<not> is_root f \<Longrightarrow> plain_frame f"
  by (simp add: frame_ok_def is_root_def split: Frame.splits)

lemma plain_not_root: "plain_frame f \<Longrightarrow> \<not> is_root f"
  by (simp add: plain_frame_def is_root_def split: Frame.splits)

lemma plain_no_roots: "list_all plain_frame fs \<Longrightarrow> filter is_root fs = []"
  using plain_not_root by (auto simp: list_all_iff filter_empty_conv)

lemma frame_ok_root: "frame_ok T c f \<Longrightarrow> is_root f \<Longrightarrow> activeRound c = None"
  by (simp add: frame_ok_def is_root_def split: Frame.splits)

lemma vote_inv_tasks [simp]: "vote_inv H T (c\<lparr>tasks := ts\<rparr>) = vote_inv H T c"
  by (simp add: vote_inv_def recorded_def round_recorded_def linger_agrees_def records_ok_def self_ok_def settled_def localKeyOf_def)

lemma frame_ok_tasks [simp]: "frame_ok T (c\<lparr>tasks := ts\<rparr>) = frame_ok T c"
  by (simp add: frame_ok_def fun_eq_iff settled_def split: Frame.splits)

lemma coord_inv_spawn:
  assumes "vote_inv H T c" and "frames_ok T c (fs @ concat (tasks c))"
  shows "coord_inv H T (spawn fs c)"
  using assms by (auto simp: coord_inv_def frames_ok_def spawn_def)

lemma sound_spawn:
  assumes s: "sound H T c (c1, fs)" and rest: "frames_ok T c (rest @ concat (tasks c))"
  shows "coord_inv H T (spawn (fs @ rest) c1)"
proof (rule coord_inv_spawn)
  show "vote_inv H T c1" using s by (simp add: sound_def)
  have plain: "list_all plain_frame fs" "tasks c1 = tasks c" using s by (simp_all add: sound_def)
  have "frame_ok T c1 f" if "f \<in> set (rest @ concat (tasks c))" for f
  proof (cases "is_root f")
    case True
    with rest that have "activeRound c = None" unfolding frames_ok_def by (metis frame_ok_root)
    then have "quiet c c1" using s by (simp add: sound_def)
    with rest that show ?thesis unfolding frames_ok_def by (metis frame_ok_quiet)
  next
    case False
    with rest that show ?thesis unfolding frames_ok_def by (metis frame_ok_plain plain_frame_ok)
  qed
  then show "frames_ok T c1 ((fs @ rest) @ concat (tasks c1))"
    using rest plain plain_no_roots [OF plain(1)] plain_frame_ok by (auto simp: frames_ok_def list_all_iff)
qed

lemma sound_spawned: "coord_inv H T c \<Longrightarrow> sound H T c cf \<Longrightarrow> coord_inv H T (spawned cf)"
  using sound_spawn [of H T c "fst cf" "snd cf" "[]"] by (simp add: coord_inv_def spawned_def case_prod_beta)

lemma sound_state: "coord_inv H T c \<Longrightarrow> sound H T c (c', []) \<Longrightarrow> coord_inv H T c'"
  using sound_spawned [of H T c "(c', [])"] by (simp add: spawned_def spawn_def)

section \<open>Starting a round\<close>

lemma vote_inv_new_round:
  assumes "vote_inv H T c"
    and "\<And>b. proposedBlock (state r) = Some b \<Longrightarrow>
      settled T c < roundHeight (state r) \<and> jget (localPreparedAt c) (roundHeight (state r)) = Some (hash b)"
  shows "vote_inv H T (c\<lparr>activeRound := Some (rid, r), nextId := n\<rparr>)"
  using assms by (simp add: vote_inv_def recorded_def round_recorded_def linger_agrees_def records_ok_def self_ok_def settled_def localKeyOf_def)

lemma startVote_ok:
  assumes inv: "vote_inv H T c" and io: "envIo env" and root: "frame_ok T c (StartRoot b cfg)"
  shows "vote_inv H T (fst (startVote env b cfg c)) \<and> list_all plain_frame (snd (startVote env b cfg c)) \<and>
    tasks (fst (startVote env b cfg c)) = tasks c"
proof -
  let ?r = "newBftRound (envNow env) (number b) cfg"
  have self: "isValidator ?r" using root by (simp add: frame_ok_def isValidator_localKey localKey_def newBftRound_def isSelf_def)
  have high: "settled T c < number b"
    and free: "jget (localPreparedAt c) (number b) = None \<or> jget (localPreparedAt c) (number b) = Some (hash b)"
    using root by (simp_all add: frame_ok_def)
  show ?thesis
  proof (cases rule: handlePropose_cases [of ?r b "proposer b" "envRoot env"])
    case ignored
    let ?c = "c\<lparr>activeRound := Some (nextId c, ?r), nextId := nextId c + 1\<rparr>"
    have "vote_inv H T ?c" by (intro vote_inv_new_round inv) (simp add: newBftRound_def)
    from startTail_sound [OF this io, of b False] show ?thesis
      by (simp add: startVote_def ignored sendPrepares_def sound_def)
  next
    case (accepted P)
    let ?p = "handlePropose ?r b (proposer b) (envRoot env)"
    define c2 where "c2 = recordOwnPrepare True b (c\<lparr>activeRound := Some (nextId c, fst ?p), nextId := nextId c + 1\<rparr>)"
    have eq: "c2 = (recordOwnPrepare True b c)\<lparr>activeRound := Some (nextId c, fst ?p), nextId := nextId c + 1\<rparr>"
      by (simp add: c2_def recordOwnPrepare_def)
    have "vote_inv H T c2" unfolding eq
      using high accepted(1) by (intro vote_inv_new_round vote_inv_record_prepare inv free)
        (simp add: recordOwnPrepare_def settled_def newBftRound_def)
    moreover obtain m where m: "snd ?p = [m]" "msgHeight m = number b" "msgBlockHash m = hash b"
      using accepted(2) self by (simp add: newBftRound_def)
    ultimately have "vote_inv H T (broadcast m c2)"
      using high by (intro vote_inv_own_vote) (simp_all add: c2_def recordOwnPrepare_def settled_def)
    moreover have "startVote env b cfg c = (broadcast m c2, [StartSent b []])"
      using m(1) io by (simp add: startVote_def case_prod_beta sendPrepares_def c2_def)
    ultimately show ?thesis by (simp add: plain_frame_def c2_def broadcast_def recordOwnPrepare_def)
  qed
qed

lemma floor_covers: "floor \<le> computeStalenessFloor env cfg floor"
  by (simp add: computeStalenessFloor_def split: option.split)

lemma clearTerminal_inv: "vote_inv H T c \<Longrightarrow> vote_inv H T (clearTerminal c)"
  using vote_inv_clear by (simp add: clearTerminal_def split: option.split prod.split)

lemma clearTerminal_frame [simp]:
  "tasks (clearTerminal c) = tasks c" "lastFinalizedHeight (clearTerminal c) = lastFinalizedHeight c"
  "localPreparedAt (clearTerminal c) = localPreparedAt c" "coordCfg (clearTerminal c) = coordCfg c"
  "activeRound c = None \<Longrightarrow> clearTerminal c = c"
  by (simp_all add: clearTerminal_def clearRound_def split: option.split prod.split)

lemma startCheck_ok:
  assumes inv: "vote_inv H T c" and tip: "settled T c \<le> computeStalenessFloor env (coordCfg c) floor"
  shows "vote_inv H T (fst (startCheck env floor b c)) \<and>
    frames_ok T (fst (startCheck env floor b c)) (snd (startCheck env floor b c)) \<and>
    tasks (fst (startCheck env floor b c)) = tasks c \<and> (activeRound c = None \<longrightarrow> quiet c (fst (startCheck env floor b c)))"
proof -
  have upd: "vote_inv H T (x\<lparr>deferredBlock := d\<rparr>)" if "vote_inv H T x" for x d
    by (rule vote_inv_core [OF that]) (simp add: same_core_def)
  let ?c1 = "clearTerminal c"
  have inv1: "vote_inv H T ?c1" and self: "self_ok c" using clearTerminal_inv [OF inv] inv by (simp_all add: vote_inv_def)
  have q: "activeRound c = None \<longrightarrow> quiet c ?c1" "quiet c ((clearRound ?c1)\<lparr>deferredBlock := None\<rparr>)"
    by (simp_all add: quiet_def clearRound_def)
  have nil: "frames_ok T x []" for x by (simp add: frames_ok_def)
  have root: "frames_ok T ((clearRound ?c1)\<lparr>deferredBlock := None\<rparr>) [StartRoot b (roundConfig ((clearRound ?c1)\<lparr>deferredBlock := None\<rparr>))]"
    if "\<not> number b \<le> computeStalenessFloor env (coordCfg c) floor"
      "\<not> (case jget (localPreparedAt ?c1) (number b) of None \<Rightarrow> False | Some h \<Rightarrow> h \<noteq> hash b)"
    using that tip self
    by (auto simp: frames_ok_def frame_ok_def clearRound_def settled_def isSelf_def roundConfig_def self_ok_def localKeyOf_def
        split: option.splits)
  show ?thesis
    using inv inv1 upd [OF inv1] upd [OF vote_inv_clear [OF inv1]] q nil root
    by (auto simp: startCheck_def Let_def quiet_def clearRound_def)
qed


section \<open>Every event keeps the invariant\<close>

lemma sound_clear:
  assumes "vote_inv H T c" and "activeRound c \<noteq> None" and "same_core (clearRound c) c'" and "list_all plain_frame fs"
  shows "sound H T c (c', fs)"
  using assms(2,4) vote_inv_core [OF vote_inv_clear [OF assms(1)] assms(3)] assms(3)
  by (auto simp: sound_def same_core_def clearRound_def)

lemma handleReceivedBlock_sound:
  assumes inv: "vote_inv H T c"
  shows "sound H T c (handleReceivedBlock b c)"
proof (cases "activeRound c")
  case None
  then show ?thesis using inv
    by (auto simp: handleReceivedBlock_def intro!: sound_pair sound_core core plain_frames)
next
  case (Some ar)
  obtain rid r where ar: "ar = (rid, r)" by (cases ar)
  have frames: "list_all plain_frame (snd (startRound b x))" "fst (startRound b x) = x" for x
    by (simp_all add: plain_frames) (simp add: startRound_def)
  have clear: "sound H T c (startRound b (clearRound c))" 
    using sound_clear [OF inv, of "clearRound c" "snd (startRound b (clearRound c))"] Some frames
    by (metis core_refl option.distinct(1) prod.collapse)
  show ?thesis
  proof (cases "terminal (phase (state r))")
    case True
    then have "clearTerminal c = clearRound c" "activeRound (clearRound c) = None" 
      using Some ar by (simp_all add: clearTerminal_def clearRound_def)
    then show ?thesis using clear inv by (auto simp: handleReceivedBlock_def Let_def intro!: sound_pair)
  next
    case False
    then have [simp]: "clearTerminal c = c" using Some ar by (simp add: clearTerminal_def)
    have "sound H T c (c\<lparr>deferredBlock := Some b\<rparr>, [])" by (intro sound_pair inv) (simp_all add: same_core_def)
    then show ?thesis using clear inv Some ar by (auto simp: handleReceivedBlock_def Let_def intro!: sound_pair)
  qed
qed

lemma timeoutFires_inv:
  assumes inv: "coord_inv H T c"
  shows "coord_inv H T (timeoutFires t c)"
proof -
  define c0 where "c0 = c\<lparr>timers := removeAll t (timers c)\<rparr>"
  have same0: "same_core c c0" by (simp add: c0_def same_core_def)
  have vi: "vote_inv H T c" using inv by (simp add: coord_inv_def)
  have idle: "coord_inv H T c0" using sound_state [OF inv sound_pair [OF vi same0]] by simp
  have "coord_inv H T (spawned (processDeferredBlock (reenterLocallyPreparedRound h (clearRound (proposerStuck r (reportDivergence r c0))))))"
    if "activeRound c \<noteq> None" for r h
  proof -
    have s: "same_core c (proposerStuck r (reportDivergence r c0))"
      using core_trans [OF same0 core_trans [OF core_reportDivergence core_proposerStuck]] .
    have "same_core (clearRound c) (clearRound (proposerStuck r (reportDivergence r c0)))"
      using s by (simp add: same_core_def clearRound_def)
    from core_trans [OF core_trans [OF this core_reenter [of _ h]] core_deferred]
    have "sound H T c (fst (processDeferredBlock (reenterLocallyPreparedRound h (clearRound (proposerStuck r (reportDivergence r c0))))),
        snd (processDeferredBlock (reenterLocallyPreparedRound h (clearRound (proposerStuck r (reportDivergence r c0))))))"
      by (intro sound_clear vi that plain_frames)
    then show ?thesis using sound_spawned [OF inv] by simp
  qed
  then show ?thesis using idle inv
    by (auto simp: timeoutFires_def Let_def c0_def [symmetric] spawned_def case_prod_beta split: option.split)
      (simp add: c0_def)
qed

lemma watchdogTick_inv:
  assumes inv: "coord_inv H T c"
  shows "coord_inv H T (watchdogTick env c)"
proof -
  have vi: "vote_inv H T c" using inv by (simp add: coord_inv_def)
  let ?c1 = "(clearRound c)\<lparr>pendingMessages := [], deferredBlock := None, lastFinalizedAtMs := envNow env\<rparr>"
  have "coord_inv H T (spawned (processDeferredBlock (reenterLocallyPreparedRound h ?c1)))" if "activeRound c \<noteq> None" for h
  proof -
    have "same_core (clearRound c) ?c1" by (simp add: same_core_def)
    from core_trans [OF core_trans [OF this core_reenter [of _ h]] core_deferred]
    have "sound H T c (fst (processDeferredBlock (reenterLocallyPreparedRound h ?c1)), snd (processDeferredBlock (reenterLocallyPreparedRound h ?c1)))"
      by (intro sound_clear vi that plain_frames)
    then show ?thesis using sound_spawned [OF inv] by simp
  qed
  then show ?thesis using inv
    by (auto simp: watchdogTick_def Let_def spawned_def case_prod_beta split: option.split)
qed

text \<open>What keeps the other fields that frames look at keeps the frames.\<close>

definition same_start :: "Coordinator \<Rightarrow> Coordinator \<Rightarrow> bool" where
  "same_start c c' \<longleftrightarrow> (activeRound c' = activeRound c \<or> activeRound c' = None) \<and> lastFinalizedHeight c' = lastFinalizedHeight c \<and>
     localPreparedAt c' = localPreparedAt c \<and> tasks c' = tasks c"

lemma coord_inv_same_start:
  assumes "coord_inv H T c" and "vote_inv H T c'" and "same_start c c'"
  shows "coord_inv H T c'"
proof -
  have "frame_ok T c' f" if "frame_ok T c f" for f
    using that assms(3) by (auto simp: frame_ok_def same_start_def settled_def split: Frame.splits)
  then show ?thesis using assms by (auto simp: coord_inv_def frames_ok_def same_start_def)
qed

lemma broadcast_frame [simp]:
  "coordCfg (broadcast m c) = coordCfg c" "activeRound (broadcast m c) = activeRound c"
  "lastFinalizedHeight (broadcast m c) = lastFinalizedHeight c" "localPreparedAt (broadcast m c) = localPreparedAt c"
  "tasks (broadcast m c) = tasks c" "localCommittedAt (broadcast m c) = localCommittedAt c" "lingerTimer (broadcast m c) = lingerTimer c"
  by (simp_all add: broadcast_def)

lemma commitRetryTick_inv:
  assumes inv: "coord_inv H T c"
  shows "coord_inv H T (commitRetryTick c)"
proof (rule coord_inv_same_start [OF inv])
  have vi: "vote_inv H T c" using inv by (simp add: coord_inv_def)
  have off: "vote_inv H T (c\<lparr>commitRetryTimer := False\<rparr>)" by (rule vote_inv_core [OF vi]) (simp add: same_core_def)
  have "vote_inv H T (broadcast (ownVote c CommitMsg (roundHeight (state r)) (hash b) None) c)"
    if "activeRound c = Some (rid, r)" "proposedBlock (state r) = Some b" for rid r b
    using vi that by (intro vote_inv_own_vote) (auto simp: vote_inv_def round_recorded_def)
  then show "vote_inv H T (commitRetryTick c)" using vi off
    by (auto simp: commitRetryTick_def split: option.split)
  show "same_start c (commitRetryTick c)"
    by (simp add: commitRetryTick_def same_start_def split: option.split prod.split)
qed

lemma prepareRetryTick_inv:
  assumes inv: "coord_inv H T c"
  shows "coord_inv H T (prepareRetryTick c)"
proof (rule coord_inv_same_start [OF inv])
  have vi: "vote_inv H T c" using inv by (simp add: coord_inv_def)
  have off: "vote_inv H T (c\<lparr>prepareRetryTimer := False\<rparr>)" by (rule vote_inv_core [OF vi]) (simp add: same_core_def)
  have send: "vote_inv H T (broadcast (ownVote x t (roundHeight (state r)) (hash b) root) c')"
    if "vote_inv H T c'" "activeRound c' = Some (rid, r)" "proposedBlock (state r) = Some b" for x c' rid r b t root
    using that by (intro vote_inv_own_vote) (auto simp: vote_inv_def round_recorded_def)
  show "vote_inv H T (prepareRetryTick c)"
    using vi off by (auto simp: prepareRetryTick_def Let_def intro!: send split: option.split)
  show "same_start c (prepareRetryTick c)"
    by (simp add: prepareRetryTick_def same_start_def Let_def split: option.split prod.split)
qed

lemma lingerTick_inv:
  assumes inv: "coord_inv H T c"
  shows "coord_inv H T (lingerTick c)"
proof (rule coord_inv_same_start [OF inv])
  have vi: "vote_inv H T c" using inv by (simp add: coord_inv_def)
  have upd: "vote_inv H T (c\<lparr>lingerTimer := t\<rparr>)"
    if "\<forall>l. t = Some l \<longrightarrow> (\<exists>l0. lingerTimer c = Some l0 \<and> lingerHeight l = lingerHeight l0 \<and> lingerHash l = lingerHash l0 \<and>
      lingerPrepare l = lingerPrepare l0)" for t
    using vi that unfolding vote_inv_def recorded_def round_recorded_def linger_agrees_def records_ok_def self_ok_def settled_def localKeyOf_def
    by fastforce
  show "vote_inv H T (lingerTick c)"
  proof (cases "lingerTimer c")
    case None
    then show ?thesis using vi by (simp add: lingerTick_def)
  next
    case (Some l)
    define c1 where "c1 = c\<lparr>lingerTimer := Some (l\<lparr>lingerRemaining := lingerRemaining l - 1\<rparr>)\<rparr>"
    have i1: "vote_inv H T c1" unfolding c1_def using Some by (intro upd) auto
    define c2 where "c2 = (case lingerPrepare l of None \<Rightarrow> c1 | Some m \<Rightarrow> emit (Broadcast m) c1)"
    have lin: "lingerTimer c1 = Some (l\<lparr>lingerRemaining := lingerRemaining l - 1\<rparr>)" by (simp add: c1_def)
    have "vote_inv H T c2"
    proof (cases "lingerPrepare l")
      case (Some m)
      have "msgHeight m = lingerHeight l \<and> msgBlockHash m = lingerHash l"
        using vi Some \<open>lingerTimer c = Some l\<close> by (auto simp: vote_inv_def linger_agrees_def)
      then show ?thesis using i1 Some lin by (auto simp: c2_def intro!: vote_inv_send)
    qed (simp add: c2_def i1)
    moreover have "lingerTimer c2 = lingerTimer c1" by (simp add: c2_def split: option.split)
    ultimately have "vote_inv H T (broadcast (ownVote c CommitMsg (lingerHeight l) (lingerHash l) None) c2)"
      unfolding broadcast_def using lin by (intro vote_inv_send) auto
    moreover have "lingerTick c = (if lingerRemaining l = 0 then c\<lparr>lingerTimer := None\<rparr>
        else broadcast (ownVote c CommitMsg (lingerHeight l) (lingerHash l) None) c2)"
      unfolding lingerTick_def Some c2_def c1_def by (simp only: option.case Let_def)
    ultimately show ?thesis using upd [of None] by simp
  qed
  show "same_start c (lingerTick c)"
    by (simp add: lingerTick_def same_start_def Let_def split: option.split)
qed


lemma stopCoordinator_inv:
  assumes inv: "coord_inv H T c"
  shows "coord_inv H T (stopCoordinator c)"
proof (rule coord_inv_same_start [OF inv])
  show "vote_inv H T (stopCoordinator c)" using inv
    by (simp add: coord_inv_def stopCoordinator_def clearRound_def vote_inv_def recorded_def round_recorded_def linger_agrees_def
        records_ok_def self_ok_def settled_def localKeyOf_def)
  show "same_start c (stopCoordinator c)" by (simp add: same_start_def stopCoordinator_def clearRound_def)
qed

lemma forceClearRound_inv:
  assumes inv: "coord_inv H T c"
  shows "coord_inv H T (forceClearRound c)"
proof (rule coord_inv_same_start [OF inv])
  show "vote_inv H T (forceClearRound c)" using inv vote_inv_clear by (simp add: coord_inv_def forceClearRound_def)
  show "same_start c (forceClearRound c)" by (simp add: same_start_def forceClearRound_def clearRound_def)
qed

lemma updateValidators_reweighs:
  assumes "voter_ids vs = voter_ids (coordValidators (coordCfg c))"
  shows "updateValidators io vs c = c\<lparr>coordCfg := (coordCfg c)\<lparr>coordValidators := vs\<rparr>\<rparr>"
proof -
  let ?ids = "\<lambda>ws. remdups (map (\<lambda>v. toLowerCase (vid v)) ws)"
  have "set (?ids vs) = set (?ids (coordValidators (coordCfg c)))" using assms by (simp add: voter_ids_def)
  moreover from this have "length (?ids (coordValidators (coordCfg c))) = length (?ids vs)"
    by (metis distinct_card distinct_remdups)
  ultimately show ?thesis by (simp add: updateValidators_def Let_def list_ex_iff)
qed

lemma updateValidators_inv:
  assumes inv: "coord_inv H T c" and ids: "voter_ids vs = voter_ids (coordValidators (coordCfg c))"
  shows "coord_inv H T (updateValidators io vs c)"
proof (rule coord_inv_same_start [OF inv])
  show "vote_inv H T (updateValidators io vs c)" using inv ids unfolding updateValidators_reweighs [OF ids]
    by (simp add: coord_inv_def vote_inv_def recorded_def round_recorded_def linger_agrees_def records_ok_def self_ok_def settled_def
        localKeyOf_def)
  show "same_start c (updateValidators io vs c)" by (simp add: same_start_def updateValidators_reweighs [OF ids])
qed

lemma resend_inv:
  assumes "vote_inv H T c" and "\<forall>(h, bh)\<in>set xs. settled T c < h \<and> jget (localPreparedAt c) h = Some bh"
  shows "vote_inv H T (foldl (\<lambda>c (h, bh). broadcast (ownVote c t h bh None) c) c xs) \<and>
    same_start c (foldl (\<lambda>c (h, bh). broadcast (ownVote c t h bh None) c) c xs)"
  using assms
proof (induction xs arbitrary: c)
  case Nil
  then show ?case by (simp add: same_start_def)
next
  case (Cons x xs)
  obtain h bh where x: "x = (h, bh)" by (cases x)
  let ?c = "broadcast (ownVote c t h bh None) c"
  have "vote_inv H T ?c" using Cons.prems x by (intro vote_inv_own_vote) auto
  then show ?case using Cons.IH [of ?c] Cons.prems(2) x by (simp add: same_start_def settled_def)
qed

lemma replay_inv:
  assumes inv: "coord_inv H T c" and tip: "T \<le> computeStalenessFloor env (coordCfg c) (lastFinalizedHeight c)"
  shows "coord_inv H T (replayUnfinalizedVotes env c)"
proof -
  let ?floor = "computeStalenessFloor env (coordCfg c) (lastFinalizedHeight c)"
  let ?commits = "filter (\<lambda>(h, bh). \<not> h \<le> ?floor) (localCommittedAt c)"
  let ?prepares = "filter (\<lambda>(h, bh). \<not> h \<le> ?floor \<and> jget (localCommittedAt c) h = None) (localPreparedAt c)"
  have vi: "vote_inv H T c" and ok: "records_ok c" using inv by (simp_all add: coord_inv_def vote_inv_def)
  have low: "settled T c \<le> ?floor" using tip floor_covers [of "lastFinalizedHeight c" env "coordCfg c"] by (simp add: settled_def)
  have "\<forall>(h, bh)\<in>set ?commits. settled T c < h \<and> jget (localPreparedAt c) h = Some bh"
    using low ok by (auto simp: records_ok_def jget_iff)
  note sent1 = resend_inv [OF vi this, of CommitMsg]
  define c1 where "c1 = foldl (\<lambda>c (h, bh). broadcast (ownVote c CommitMsg h bh None) c) c ?commits"
  have c1: "vote_inv H T c1" "same_start c c1" using sent1 by (simp_all add: c1_def)
  have eqs: "settled T c1 = settled T c" "localPreparedAt c1 = localPreparedAt c" using c1(2) by (simp_all add: same_start_def settled_def)
  have "\<forall>(h, bh)\<in>set ?prepares. settled T c1 < h \<and> jget (localPreparedAt c1) h = Some bh"
    unfolding eqs using low ok by (auto simp: records_ok_def jget_iff)
  note c2 = resend_inv [OF c1(1) this, of PrepareMsg]
  show ?thesis unfolding replayUnfinalizedVotes_def Let_def c1_def [symmetric]
    using c1(2) c2 by (intro coord_inv_same_start [OF inv]) (auto simp: same_start_def)
qed

text \<open>Resuming a suspended call.\<close>

lemma concat_splice_out:
  assumes "i < length ts" and "ts ! i = fs"
  shows "set (concat ts) = set fs \<union> set (concat (splice_out i ts))"
    and "length (filter P (concat ts)) = length (filter P fs) + length (filter P (concat (splice_out i ts)))"
proof -
  have "ts = take i ts @ fs # drop (Suc i) ts" using assms by (metis id_take_nth_drop)
  then have "concat ts = concat (take i ts) @ fs @ concat (drop (Suc i) ts)" by (metis concat.simps(2) concat_append)
  then show "set (concat ts) = set fs \<union> set (concat (splice_out i ts))"
    "length (filter P (concat ts)) = length (filter P fs) + length (filter P (concat (splice_out i ts)))"
    by (auto simp: splice_out_def)
qed

text \<open>
  A start may pass its check only while no other start waits for its state root, and only with a floor that
  covers what the node has finalized.
\<close>

definition starts_apart :: "bigint \<Rightarrow> Env \<Rightarrow> nat \<Rightarrow> Coordinator \<Rightarrow> bool" where
  "starts_apart T env i c =
     (if i < length (tasks c) then
        case tasks c ! i of
          StartFloor floor b # rest \<Rightarrow>
            settled T c \<le> computeStalenessFloor env (coordCfg c) floor \<and> list_all (\<lambda>f. \<not> is_root f) (concat (tasks c))
        | _ \<Rightarrow> True
      else True)"

lemma resumeFrame_sound:
  assumes "vote_inv H T c" and "envIo env" and "plain_frame f" and "\<forall>floor b. f \<noteq> StartFloor floor b"
  shows "sound H T c (resumeFrame env f c)"
proof (cases f)
  case (DeferredFloor floor b)
  then show ?thesis using assms by (auto simp: resumeFrame_def intro!: sound_pair sound_core core plain_frames)
next
  case (StartSent b ms)
  then show ?thesis using assms startTail_sound [of H T c env b True] by (simp add: resumeFrame_def sendPrepares_def plain_frame_def)
next
  case (SendOuts ms)
  then show ?thesis using assms sendOuts_sound [of H T c env "[]"] by (simp add: resumeFrame_def plain_frame_def)
qed (use assms in \<open>auto simp: resumeFrame_def plain_frame_def intro!: sound_pair sound_core core plain_frames drainBuffered_sound\<close>)

lemma frames_ok_plain: "frames_ok T c fs \<Longrightarrow> \<forall>f\<in>set fs. \<not> is_root f \<Longrightarrow> list_all plain_frame fs"
  unfolding frames_ok_def list_all_iff using frame_ok_plain by metis

lemma plain_frames_ok: "list_all plain_frame fs \<Longrightarrow> frames_ok T c fs"
  using plain_no_roots [of fs] by (simp add: frames_ok_def list_all_iff plain_frame_ok)

lemma coord_inv_spawn_rest:
  assumes "vote_inv H T c" and "frames_ok T c fs" and "list_all plain_frame (rest @ concat (tasks c))"
  shows "coord_inv H T (spawn (fs @ rest) c)"
proof (rule coord_inv_spawn [OF assms(1)])
  show "frames_ok T c ((fs @ rest) @ concat (tasks c))"
    using assms(2) plain_frames_ok [OF assms(3)] plain_no_roots [OF assms(3)] unfolding frames_ok_def append_assoc
    by (simp only: filter_append [of _ fs] set_append [of fs] append_Nil2 ball_Un) blast
qed

lemma resumeTask_inv:
  assumes inv: "coord_inv H T c" and io: "envIo env" and apart: "starts_apart T env i c"
  shows "coord_inv H T (resumeTask env i c)"
proof (cases "i < length (tasks c)")
  case False
  then show ?thesis using inv by (simp add: resumeTask_def)
next
  case i: True
  let ?c = "c\<lparr>tasks := splice_out i (tasks c)\<rparr>"
  have vi: "vote_inv H T ?c" using inv by (simp add: coord_inv_def)
  note parts = concat_splice_out [OF i refl]
  have all: "frames_ok T ?c (tasks c ! i @ concat (splice_out i (tasks c)))"
    using inv by (simp only: coord_inv_def frames_ok_def parts(1) parts(2) [of is_root] set_append filter_append length_append frame_ok_tasks simp_thms) blast
  show ?thesis
  proof (cases "tasks c ! i")
    case Nil
    then show ?thesis using i vi all by (simp add: resumeTask_def coord_inv_def)
  next
    case (Cons f rest)
    let ?others = "rest @ concat (splice_out i (tasks c))"
    have oks: "frame_ok T ?c f" "frames_ok T ?c ?others" using all Cons by (auto simp: frames_ok_def split: if_splits)
    have eq: "resumeTask env i c = spawn (snd (resumeFrame env f ?c) @ rest) (fst (resumeFrame env f ?c))"
      using i Cons by (simp add: resumeTask_def case_prod_beta)
    consider (check) floor b where "f = StartFloor floor b" | (vote) b cfg where "f = StartRoot b cfg"
      | (other) "plain_frame f" "\<forall>floor b. f \<noteq> StartFloor floor b"
      using frame_ok_plain [OF oks(1)] by (cases f) (auto simp: is_root_def)
    then show ?thesis
    proof cases
      case check
      have none: "\<forall>g\<in>set ?others. \<not> is_root g" using apart i Cons check parts(1) by (auto simp: starts_apart_def list_all_iff)
      note plain = frames_ok_plain [OF oks(2) none]
      have ok: "vote_inv H T (fst (startCheck env floor b ?c)) \<and>
          frames_ok T (fst (startCheck env floor b ?c)) (snd (startCheck env floor b ?c)) \<and>
          tasks (fst (startCheck env floor b ?c)) = splice_out i (tasks c)"
        using startCheck_ok [OF vi, of env floor b] apart i Cons check by (simp add: starts_apart_def settled_def)
      show ?thesis unfolding eq using ok plain check by (intro coord_inv_spawn_rest) (simp_all add: resumeFrame_def)
    next
      case vote
      have "filter is_root ?others = []" using all Cons vote by (simp add: frames_ok_def is_root_def)
      then have none: "\<forall>g\<in>set ?others. \<not> is_root g" by (auto simp: filter_empty_conv)
      note plain = frames_ok_plain [OF oks(2) none]
      note ok = startVote_ok [OF vi io oks(1) [unfolded vote]]
      show ?thesis unfolding eq using ok plain vote by (intro coord_inv_spawn_rest plain_frames_ok) (simp_all add: resumeFrame_def)
    next
      case other
      show ?thesis unfolding eq using sound_spawn [of H T ?c "fst (resumeFrame env f ?c)" "snd (resumeFrame env f ?c)" rest]
          resumeFrame_sound [OF vi io other] oks(2) by simp
    qed
  qed
qed


section \<open>A node never votes for two blocks of one height\<close>

definition allowed :: "bigint \<Rightarrow> Coordinator \<Rightarrow> Env \<times> CoordEvent \<Rightarrow> bool" where
  "allowed T c e =
     (case e of (env, ev) \<Rightarrow>
        envIo env \<and>
        (case ev of Resume i \<Rightarrow> starts_apart T env i c
         | CallReplay \<Rightarrow> T \<le> computeStalenessFloor env (coordCfg c) (lastFinalizedHeight c)
         | CallUpdateValidators vs \<Rightarrow> voter_ids vs = voter_ids (coordValidators (coordCfg c))
         | _ \<Rightarrow> True))"

text \<open>
  The lives of a node: it boots with an empty ledger file, events happen, and it may crash at any moment and start again from the
  ledger file, having lost everything else.
\<close>

inductive lives :: "CoordConfig \<Rightarrow> bigint \<Rightarrow> BftMessage list \<Rightarrow> Coordinator \<Rightarrow> bool" for cfg where
  boot: "lives cfg 0 [] (newCoordinator now cfg (newVoteLedger True NoFile))"
| event: "lives cfg T H c \<Longrightarrow> allowed T c e \<Longrightarrow> lives cfg T H (coordStep c e)"
| crash: "lives cfg T H c \<Longrightarrow> lives cfg (settled T c) (H @ broadcasts c) (newCoordinator now (coordCfg c) (restart (voteLedger c)))"

lemma coordStep_inv:
  assumes inv: "coord_inv H T c" and ok: "allowed T c e"
  shows "coord_inv H T (coordStep c e)"
proof -
  obtain env ev where e: "e = (env, ev)" by (cases e)
  have vi: "vote_inv H T c" using inv by (simp add: coord_inv_def)
  have io: "envIo env" using ok e by (simp add: allowed_def)
  show ?thesis
  proof (cases ev)
    case (CallStartRound b)
    then show ?thesis using e vi by (auto intro!: sound_spawned [OF inv] sound_core core plain_frames)
  next
    case (Resume i)
    then show ?thesis using e ok resumeTask_inv [OF inv io, of i] by (simp add: allowed_def)
  next
    case CallReplay
    then show ?thesis using e ok replay_inv [OF inv] by (simp add: allowed_def)
  next
    case (CallUpdateValidators vs)
    then show ?thesis using e ok updateValidators_inv [OF inv] by (simp add: allowed_def)
  qed (use e inv in \<open>auto intro!: sound_spawned [OF inv] coordHandleMessage_sound [OF vi io] handleReceivedBlock_sound [OF vi]
        timeoutFires_inv watchdogTick_inv commitRetryTick_inv prepareRetryTick_inv lingerTick_inv forceClearRound_inv
        stopCoordinator_inv\<close>)
qed

lemma newCoordinator_inv:
  assumes ok: "ledger_durable l" "\<And>h bh. getCommitted l h = Some bh \<Longrightarrow> getPrepared l h = Some bh"
    and self: "toLowerCase (coordId cfg) \<in> voter_ids (coordValidators cfg)"
    and H: "one_hash H" "\<And>m. m \<in> set H \<Longrightarrow> T < msgHeight m \<Longrightarrow> getPrepared l (msgHeight m) = Some (msgBlockHash m)"
  shows "coord_inv H T (newCoordinator now cfg l)"
proof -
  have "vote_inv H T (newCoordinator now cfg l)"
    using ok self H
    by (auto simp: vote_inv_def newCoordinator_def broadcasts_def recorded_def round_recorded_def linger_agrees_def records_ok_def
        self_ok_def settled_def localKeyOf_def snapshotPrepared_def snapshotCommitted_def ledger_durable_def ledger_ok_def
        ledger.mirrors_def getPrepared_def getCommitted_def fun_eq_iff)
  then show ?thesis by (simp add: coord_inv_def frames_ok_def newCoordinator_def)
qed

lemma lives_inv:
  assumes "lives cfg T H c" and self: "toLowerCase (coordId cfg) \<in> voter_ids (coordValidators cfg)"
  shows "coord_inv H T c"
  using assms(1)
proof induction
  case (boot now)
  show ?case
    using new_ledger_durable self
    by (intro newCoordinator_inv) (simp_all add: one_hash_def newVoteLedger_def loadLedger_def getCommitted_def)
next
  case (event T H c e)
  then show ?case by (blast intro: coordStep_inv)
next
  case (crash T H c now)
  then have vi: "vote_inv H T c" by (simp add: coord_inv_def)
  then have mir: "ledger.mirrors (restart (voteLedger c)) (jget (localPreparedAt c)) (jget (localCommittedAt c))"
    by (auto simp: vote_inv_def records_ok_def intro: ledger.mirrors_reopen)
  show ?case
    using vi mir by (intro newCoordinator_inv)
      (auto simp: ledger.mirrors_def vote_inv_def records_ok_def self_ok_def localKeyOf_def recorded_def)
qed

text \<open>
  (C2) Whatever messages, blocks, timers, restarts and stake changes come in whatever order, a validator never sends votes for two
  different blocks of the same height, neither prepares nor commits, not even across crashes: the block hash of every vote it sent
  before a crash binds it afterwards. This needs that writes to the ledger succeed, that the set of validators stays the same, that the
  staleness floor a start or a replay works with covers what the node has finalized, before or after a restart, and that a start does not
  pass its check while another waits for its state root.
\<close>

theorem no_self_equivocation:
  assumes "lives cfg T H c" and "toLowerCase (coordId cfg) \<in> voter_ids (coordValidators cfg)"
    and "m \<in> set (H @ broadcasts c)" and "m' \<in> set (H @ broadcasts c)" and "msgHeight m = msgHeight m'"
  shows "msgBlockHash m = msgBlockHash m'"
proof -
  have "one_hash (H @ broadcasts c)" using lives_inv [OF assms(1,2)] by (simp add: coord_inv_def vote_inv_def)
  then show ?thesis using assms(3-5) unfolding one_hash_def by blast
qed

fun allowed_run :: "bigint \<Rightarrow> Coordinator \<Rightarrow> (Env \<times> CoordEvent) list \<Rightarrow> bool" where
  "allowed_run T c [] = True"
| "allowed_run T c (e # es) = (allowed T c e \<and> allowed_run T (coordStep c e) es)"

lemma lives_run: "lives cfg T H c \<Longrightarrow> allowed_run T c es \<Longrightarrow> lives cfg T H (foldl coordStep c es)"
  by (induction es arbitrary: c) (auto intro: lives.event)

definition demo_coord_cfg :: CoordConfig where
  "demo_coord_cfg = \<lparr>coordId = ''b'', coordValidators = demo_validators, coordPrepareTimeout = None, coordCommitTimeout = None,
     livenessTimeoutMs = None, signer = None, verifier = None, coordRelaxed = False, persistentThreshold = None, hasRegossip = True,
     hasEquivocationHook = True, hasDivergedHook = True, hasPersistentHook = True, hasChainHeight = True, hasLocalBlock = True,
     hasStuckHook = True\<rparr>"

definition demo_env :: Env where
  "demo_env = \<lparr>envNow = 0, envTip = Some 0, envRoot = None, envLocalBlock = None, envAccepted = True, envIo = True\<rparr>"

definition demo_rival :: ChainBlock where
  "demo_rival = demo_block\<lparr>hash := ''0x02''\<rparr>"

definition demo_start :: Coordinator where
  "demo_start = newCoordinator 0 demo_coord_cfg (newVoteLedger True NoFile)"

definition demo_life1 :: Coordinator where
  "demo_life1 = foldl coordStep demo_start [(demo_env, CallStartRound demo_block), (demo_env, Resume 0), (demo_env, Resume 0)]"

definition demo_restart :: Coordinator where
  "demo_restart = newCoordinator 0 (coordCfg demo_life1) (restart (voteLedger demo_life1))"

definition demo_life2 :: Coordinator where
  "demo_life2 = foldl coordStep demo_restart [(demo_env, CallReplay), (demo_env, CallStartRound demo_rival), (demo_env, Resume 0),
     (demo_env, CallStartRound demo_block), (demo_env, Resume 0), (demo_env, Resume 0)]"

lemma demo_runs:
  "allowed_run 0 demo_start [(demo_env, CallStartRound demo_block), (demo_env, Resume 0), (demo_env, Resume 0)]"
  "allowed_run 0 demo_restart [(demo_env, CallReplay), (demo_env, CallStartRound demo_rival), (demo_env, Resume 0),
     (demo_env, CallStartRound demo_block), (demo_env, Resume 0), (demo_env, Resume 0)]"
  "settled 0 demo_life1 = 0" "toLowerCase (coordId demo_coord_cfg) \<in> voter_ids (coordValidators demo_coord_cfg)"
  "length (broadcasts demo_life1) = 1" "length (broadcasts demo_life2) = 2"
  "msgHeight (hd (broadcasts demo_life1)) = msgHeight (last (broadcasts demo_life2))"
  by code_simp+

lemma demo_lives: "lives demo_coord_cfg 0 [] demo_life1" "lives demo_coord_cfg 0 (broadcasts demo_life1) demo_life2"
proof -
  show "lives demo_coord_cfg 0 [] demo_life1"
    unfolding demo_life1_def by (rule lives_run [OF _ demo_runs(1)]) (simp add: demo_start_def lives.boot)
  from lives.crash [OF this, of 0] have "lives demo_coord_cfg 0 (broadcasts demo_life1) demo_restart"
    by (simp add: demo_runs(3) demo_restart_def)
  then show "lives demo_coord_cfg 0 (broadcasts demo_life1) demo_life2"
    unfolding demo_life2_def by (rule lives_run [OF _ demo_runs(2)])
qed

theorem no_self_equivocation_witness:
  "length (broadcasts demo_life1) = 1 \<and> length (broadcasts demo_life2) = 2 \<and>
   msgBlockHash (hd (broadcasts demo_life1)) = msgBlockHash (last (broadcasts demo_life2))"
proof -
  have "broadcasts demo_life1 \<noteq> []" "broadcasts demo_life2 \<noteq> []" using demo_runs(5,6) by force+
  then have "msgBlockHash (hd (broadcasts demo_life1)) = msgBlockHash (last (broadcasts demo_life2))"
    by (intro no_self_equivocation [OF demo_lives(2) demo_runs(4) _ _ demo_runs(7)]) auto
  then show ?thesis using demo_runs(5,6) by simp
qed


section \<open>Starts that overlap\<close>

definition idle_for :: "Env \<Rightarrow> bigint \<Rightarrow> Coordinator \<Rightarrow> bool" where
  "idle_for env h c \<longleftrightarrow> activeRound c = None \<and> \<not> stopped c \<and> tasks c = [] \<and> jget (localPreparedAt c) h = None \<and>
     computeStalenessFloor env (coordCfg c) (lastFinalizedHeight c) < h \<and> self_ok c"

definition knownProposer :: "Coordinator \<Rightarrow> ChainBlock \<Rightarrow> bool" where
  "knownProposer c b \<longleftrightarrow> toLowerCase (proposer b) \<in> voter_ids (coordValidators (coordCfg c))"

definition ownPrepare :: "Coordinator \<Rightarrow> Env \<Rightarrow> ChainBlock \<Rightarrow> BftMessage" where
  "ownPrepare c env b = signMessage c (ownVote c PrepareMsg (number b) (hash b) (envRoot env))"

lemma startCheck_idle:
  assumes "activeRound c = None" and "computeStalenessFloor env (coordCfg c) floor < number b" and "jget (localPreparedAt c) (number b) = None"
  shows "startCheck env floor b c = ((clearRound c)\<lparr>deferredBlock := None\<rparr>, [StartRoot b (roundConfig c)])"
  using assms by (simp add: startCheck_def Let_def roundConfig_def clearRound_def)

lemma startVote_sends:
  assumes "self_ok c" and "knownProposer c b" and "cfg = roundConfig c"
  shows "broadcasts (fst (startVote env b cfg c)) = broadcasts c @ [ownPrepare c env b] \<and>
    snd (startVote env b cfg c) = [StartSent b []] \<and> tasks (fst (startVote env b cfg c)) = tasks c \<and>
    coordCfg (fst (startVote env b cfg c)) = coordCfg c"
proof -
  let ?r = "newBftRound (envNow env) (number b) cfg"
  have "isKnownValidator ?r (proposer b)" "isValidator ?r"
    using assms by (simp_all add: knownProposer_def self_ok_def isKnownValidator_iff isValidator_def newBftRound_def roundConfig_def
        localKeyOf_def)
  then obtain r where "handlePropose ?r b (proposer b) (envRoot env) =
      (r, [ownVote c PrepareMsg (number b) (hash b) (envRoot env)])"
    using assms(3) by (simp add: handlePropose_def Let_def newBftRound_def ownVote_def roundConfig_def)
  then show ?thesis
    by (simp add: startVote_def sendPrepares_def broadcast_def ownPrepare_def recordOwnPrepare_def signMessage_def Let_def
        split: option.split)
qed

lemma resume_check:
  assumes "tasks c = [StartFloor floor b] # ts" and "activeRound c = None" and "computeStalenessFloor env (coordCfg c) floor < number b"
    and "jget (localPreparedAt c) (number b) = None"
  shows "tasks (coordStep c (env, Resume 0)) = ts @ [[StartRoot b (roundConfig c)]] \<and> activeRound (coordStep c (env, Resume 0)) = None \<and>
    localPreparedAt (coordStep c (env, Resume 0)) = localPreparedAt c \<and> coordCfg (coordStep c (env, Resume 0)) = coordCfg c \<and>
    lastFinalizedHeight (coordStep c (env, Resume 0)) = lastFinalizedHeight c \<and> broadcasts (coordStep c (env, Resume 0)) = broadcasts c"
proof -
  let ?c = "c\<lparr>tasks := ts\<rparr>"
  have "startCheck env floor b ?c = ((clearRound ?c)\<lparr>deferredBlock := None\<rparr>, [StartRoot b (roundConfig ?c)])"
    using assms by (intro startCheck_idle) simp_all
  then have "coordStep c (env, Resume 0) = spawn [StartRoot b (roundConfig ?c)] ((clearRound ?c)\<lparr>deferredBlock := None\<rparr>)"
    using assms(1) by (simp add: resumeTask_def resumeFrame_def splice_out_def)
  then show ?thesis by (simp add: spawn_def clearRound_def roundConfig_def)
qed

lemma resume_vote:
  assumes "tasks c = [StartRoot b (roundConfig c)] # ts" and "self_ok c" and "knownProposer c b"
  shows "broadcasts (coordStep c (env, Resume 0)) = broadcasts c @ [ownPrepare c env b] \<and>
    tasks (coordStep c (env, Resume 0)) = ts @ [[StartSent b []]] \<and> coordCfg (coordStep c (env, Resume 0)) = coordCfg c"
proof -
  let ?c = "c\<lparr>tasks := ts\<rparr>"
  have "self_ok ?c" "knownProposer ?c b" "roundConfig c = roundConfig ?c" "ownPrepare ?c env b = ownPrepare c env b"
    using assms(2,3) by (simp_all add: self_ok_def knownProposer_def roundConfig_def localKeyOf_def ownPrepare_def ownVote_def signMessage_def)
  moreover have "coordStep c (env, Resume 0) =
      spawn (snd (startVote env b (roundConfig c) ?c)) (fst (startVote env b (roundConfig c) ?c))"
    using assms(1) by (simp add: resumeTask_def resumeFrame_def splice_out_def case_prod_beta)
  ultimately show ?thesis using startVote_sends [of ?c b "roundConfig c" env] by (simp add: spawn_def)
qed

lemma cfg_cong:
  assumes "coordCfg c' = coordCfg c"
  shows "roundConfig c' = roundConfig c" and "self_ok c' = self_ok c" and "knownProposer c' b = knownProposer c b"
    and "ownPrepare c' env b = ownPrepare c env b"
  using assms by (simp_all add: roundConfig_def self_ok_def knownProposer_def localKeyOf_def ownPrepare_def ownVote_def signMessage_def
      split: option.split)

text \<open>
  Two calls of \<open>startRound\<close> for different blocks of one height that overlap make the node vote for both: the check of the
  recorded vote comes before the wait for the state root and the record after it, so both calls pass the check.
\<close>

lemma overlap_sends_both:
  assumes idle: "idle_for env (number b) c" and "number b' = number b" and "knownProposer c b" and "knownProposer c b'"
  shows "broadcasts (foldl coordStep c [(env, CallStartRound b), (env, CallStartRound b'), (env, Resume 0), (env, Resume 0),
           (env, Resume 0), (env, Resume 0)]) = broadcasts c @ [ownPrepare c env b, ownPrepare c env b']"
proof -
  define c1 c2 c3 c4 where "c1 = coordStep (coordStep c (env, CallStartRound b)) (env, CallStartRound b')"
    and "c2 = coordStep c1 (env, Resume 0)" and "c3 = coordStep c2 (env, Resume 0)" and "c4 = coordStep c3 (env, Resume 0)"
  note defs = this
  have c1: "c1 = c\<lparr>tasks := [[StartFloor (lastFinalizedHeight c) b], [StartFloor (lastFinalizedHeight c) b']]\<rparr>"
    using idle by (simp add: defs(1) idle_for_def startRound_def spawned_def spawn_def)
  have c2: "tasks c2 = [[StartFloor (lastFinalizedHeight c) b'], [StartRoot b (roundConfig c1)]]" "activeRound c2 = None" "localPreparedAt c2 = localPreparedAt c"
      "coordCfg c2 = coordCfg c" "lastFinalizedHeight c2 = lastFinalizedHeight c" "broadcasts c2 = broadcasts c"
    using resume_check [of c1 "lastFinalizedHeight c" b "[[StartFloor (lastFinalizedHeight c) b']]" env] idle by (simp_all add: defs(2) c1 idle_for_def)
  have c3: "tasks c3 = [[StartRoot b (roundConfig c)], [StartRoot b' (roundConfig c)]]" "coordCfg c3 = coordCfg c" "broadcasts c3 = broadcasts c"
    using resume_check [of c2 "lastFinalizedHeight c" b' "[[StartRoot b (roundConfig c1)]]" env] idle c2 assms(2) cfg_cong(1) [of c1 c] cfg_cong(1) [of c2 c]
    by (simp_all add: defs(3) idle_for_def c1)
  have s3: "self_ok c3" "knownProposer c3 b" "roundConfig c3 = roundConfig c" "ownPrepare c3 env b = ownPrepare c env b"
    using idle assms(3) cfg_cong [OF c3(2)] by (simp_all add: idle_for_def)
  have c4: "broadcasts c4 = broadcasts c @ [ownPrepare c env b]" "tasks c4 = [[StartRoot b' (roundConfig c)], [StartSent b []]]"
      "coordCfg c4 = coordCfg c"
    using resume_vote [of c3 b "[[StartRoot b' (roundConfig c)]]" env] s3 c3 by (simp_all add: defs(4))
  have s4: "self_ok c4" "knownProposer c4 b'" "roundConfig c4 = roundConfig c" "ownPrepare c4 env b' = ownPrepare c env b'"
    using idle assms(4) cfg_cong [OF c4(3)] by (simp_all add: idle_for_def)
  have "broadcasts (coordStep c4 (env, Resume 0)) = broadcasts c @ [ownPrepare c env b, ownPrepare c env b']"
    using resume_vote [of c4 b' "[[StartSent b []]]" env] s4 c4 by simp
  then show ?thesis by (simp add: defs del: coordStep.simps)
qed

end
