(* ===== verification/Peer_Watch.thy ===== *)
theory Peer_Watch
  imports Vote_Safety
begin

text \<open>
  The two parts of the coordinator that listen to peers: the buffer of messages that come before their round, and the search for a
  state root that a quorum of peers agrees on and this node does not have.
\<close>

section \<open>The buffer of early messages\<close>

definition buffer_ok :: "BftMessage list \<Rightarrow> bool" where
  "buffer_ok ms \<longleftrightarrow> length ms \<le> 50 \<and> distinct (map (\<lambda>m. (senderId m, msgType m, msgHeight m)) ms)"

lemma buffer_ok_filter: "buffer_ok ms \<Longrightarrow> buffer_ok (filter P ms)"
  by (auto simp: buffer_ok_def distinct_map_filter intro: order_trans [OF length_filter_le])

lemma bufferMessage_ok:
  "buffer_ok (pendingMessages c) \<Longrightarrow> length (pendingMessages c) < 50 \<Longrightarrow> buffer_ok (pendingMessages (fst (bufferMessage m c)))"
  by (auto simp: bufferMessage_def buffer_ok_def list_ex_iff)

named_theorems buffer_frame

lemma pending_clearRound [buffer_frame]: "pendingMessages (clearRound c) = pendingMessages c"
  by (simp add: clearRound_def)

lemma pending_broadcast [buffer_frame]: "pendingMessages (broadcast m c) = pendingMessages c"
  by (simp add: broadcast_def)

lemma pending_fire [buffer_frame]: "pendingMessages (fireDivergence env h d now x c) = pendingMessages c"
  by (simp add: fireDivergence_def Let_def)

lemma pending_tryEarly [buffer_frame]: "pendingMessages (fst (tryEarlyDivergenceDetect env h c)) = pendingMessages c"
  by (simp add: tryEarlyDivergenceDetect_def case_prod_beta buffer_frame split: option.split)

lemma pending_confirm [buffer_frame]:
  "pendingMessages (fst (confirmDivergence env h d now c)) = pendingMessages c" "pendingMessages (confirmTip env h d now c) = pendingMessages c"
  by (simp_all add: confirmDivergence_def confirmTip_def Let_def buffer_frame split: option.split)

lemma pending_afterPrepare [buffer_frame]: "pendingMessages (fst (afterPrepare env c)) = pendingMessages c"
  by (simp add: afterPrepare_def startCommitRetry_def Let_def buffer_frame split: option.split prod.split)

lemma pending_sendOuts [buffer_frame]: "pendingMessages (fst (sendOuts env outs c)) = pendingMessages c"
  by (induction env outs c rule: sendOuts.induct) (auto simp: buffer_frame Let_def split: option.split)

lemma pending_finalize [buffer_frame]: "pendingMessages (fst (finalizeRound env h b c)) = pendingMessages c"
  by (simp add: finalizeRound_def pruneLocalVoteLedger_def startLingerBroadcast_def buffer_frame Let_def)

lemma pending_gates [buffer_frame]:
  "pendingMessages (fst (signatureGate m c)) = pendingMessages c" "pendingMessages (fst (equivocationGate env m c)) = pendingMessages c"
  by (simp_all add: signatureGate_def equivocationGate_def Let_def split: option.split prod.split)

lemma pending_deliver [buffer_frame]: "pendingMessages (fst (deliver env m rid r c)) = pendingMessages c"
  by (simp add: deliver_def Let_def case_prod_beta buffer_frame split: BftMessageType.split option.split)

lemma pending_clearTerminal [buffer_frame]: "pendingMessages (clearTerminal c) = pendingMessages c"
  by (simp add: clearTerminal_def buffer_frame split: option.split prod.split)

lemma pending_starts [buffer_frame]:
  "pendingMessages (fst (startRound b c)) = pendingMessages c" "pendingMessages (fst (startCheck env floor b c)) = pendingMessages c"
  "pendingMessages (fst (processDeferredBlock c)) = pendingMessages c" "pendingMessages (reenterLocallyPreparedRound h c) = pendingMessages c"
  "pendingMessages (fst (handleReceivedBlock b c)) = pendingMessages c"
  by (simp_all add: startRound_def startCheck_def processDeferredBlock_def reenterLocallyPreparedRound_def handleReceivedBlock_def
      Let_def buffer_frame split: option.split prod.split)

lemma coordHandleMessage_buffer:
  assumes "buffer_ok (pendingMessages c)"
  shows "buffer_ok (pendingMessages (fst (coordHandleMessage env m c)))"
proof -
  obtain c1 ok1 where g1: "signatureGate m c = (c1, ok1)" by fastforce
  obtain c2 ok2 where g2: "equivocationGate env m c1 = (c2, ok2)" by fastforce
  have "pendingMessages c1 = pendingMessages c" "pendingMessages c2 = pendingMessages c"
    using pending_gates(1) [of m c] pending_gates(2) [of env m c1] g1 g2 by simp_all
  then show ?thesis using assms g1 g2
    by (auto simp: coordHandleMessage_def case_prod_beta buffer_frame Let_def bufferMessage_ok split: option.split bool.split)
qed

lemma drainBuffered_buffer:
  "buffer_ok (pendingMessages c) \<Longrightarrow> buffer_ok (pendingMessages (fst (drainBuffered env rd ms c)))"
  using coordHandleMessage_buffer by (auto simp: drainBuffered_def case_prod_beta startCommitRetry_def split: option.split)

lemma startTail_buffer:
  "buffer_ok (pendingMessages c) \<Longrightarrow> buffer_ok (pendingMessages (fst (startTail env b voted c)))"
  unfolding startTail_def Let_def
  by (rule drainBuffered_buffer) (simp add: buffer_ok_filter startTimeout_def startPrepareRetry_def)

lemma sendPrepares_buffer:
  "buffer_ok (pendingMessages c) \<Longrightarrow> buffer_ok (pendingMessages (fst (sendPrepares env b ms voted c)))"
  using startTail_buffer by (simp add: sendPrepares_def buffer_frame split: list.split)

lemma startVote_buffer:
  "buffer_ok (pendingMessages c) \<Longrightarrow> buffer_ok (pendingMessages (fst (startVote env b cfg c)))"
  unfolding startVote_def case_prod_beta Let_def by (rule sendPrepares_buffer) (simp add: recordOwnPrepare_def)

lemma resumeFrame_buffer:
  "buffer_ok (pendingMessages c) \<Longrightarrow> buffer_ok (pendingMessages (fst (resumeFrame env f c)))"
  using startVote_buffer sendPrepares_buffer drainBuffered_buffer by (simp add: resumeFrame_def buffer_frame split: Frame.split)

lemma pending_spawn [buffer_frame]: "pendingMessages (spawn fs c) = pendingMessages c"
  by (simp add: spawn_def)

lemma resumeTask_buffer:
  "buffer_ok (pendingMessages c) \<Longrightarrow> buffer_ok (pendingMessages (resumeTask env i c))"
  using resumeFrame_buffer [of "c\<lparr>tasks := splice_out i (tasks c)\<rparr>" env]
  by (simp add: resumeTask_def case_prod_beta buffer_frame split: list.split)

lemma pending_replay [buffer_frame]: "pendingMessages (replayUnfinalizedVotes env c) = pendingMessages c"
proof -
  have "pendingMessages (foldl (\<lambda>c (h, bh). broadcast (ownVote c t h bh None) c) x xs) = pendingMessages x" for t x xs
    by (induction xs arbitrary: x) (auto simp: buffer_frame)
  then show ?thesis by (simp add: replayUnfinalizedVotes_def Let_def)
qed

lemma pending_timeout [buffer_frame]: "pendingMessages (timeoutFires t c) = pendingMessages c"
proof -
  have "pendingMessages (proposerStuck r x) = pendingMessages x" "pendingMessages (reportDivergence r x) = pendingMessages x" for r x
    by (simp_all add: proposerStuck_def reportDivergence_def Let_def split: option.split)
  then show ?thesis by (simp add: timeoutFires_def case_prod_beta buffer_frame Let_def split: option.split prod.split)
qed

lemma pending_ticks [buffer_frame]:
  "pendingMessages (commitRetryTick c) = pendingMessages c" "pendingMessages (prepareRetryTick c) = pendingMessages c"
  "pendingMessages (lingerTick c) = pendingMessages c" "pendingMessages (forceClearRound c) = pendingMessages c"
  by (simp_all add: commitRetryTick_def prepareRetryTick_def lingerTick_def forceClearRound_def buffer_frame Let_def
      split: option.split prod.split)

lemma resets_buffer:
  assumes "buffer_ok (pendingMessages c)"
  shows "buffer_ok (pendingMessages (watchdogTick env c))" "buffer_ok (pendingMessages (stopCoordinator c))"
    "buffer_ok (pendingMessages (updateValidators io vs c))"
  using assms by (auto simp: watchdogTick_def stopCoordinator_def updateValidators_def Let_def case_prod_beta buffer_frame
      buffer_ok_def split: option.split)

lemma coordStep_buffer: "buffer_ok (pendingMessages c) \<Longrightarrow> buffer_ok (pendingMessages (coordStep c e))"
  by (cases "(c, e)" rule: coordStep.cases)
    (auto simp: spawned_def case_prod_beta buffer_frame coordHandleMessage_buffer resumeTask_buffer resets_buffer)

text \<open>
  (C18) Whatever happens, the buffer of messages for heights without a round holds at most 50 messages, and at most one of each
  sender, type and height.
\<close>

theorem pending_buffer_bounded:
  "length (pendingMessages (foldl coordStep (newCoordinator now cfg l) es)) \<le> 50 \<and>
   distinct (map (\<lambda>m. (senderId m, msgType m, msgHeight m)) (pendingMessages (foldl coordStep (newCoordinator now cfg l) es)))"
proof -
  have "buffer_ok (pendingMessages c) \<Longrightarrow> buffer_ok (pendingMessages (foldl coordStep c es))" for c
    by (induction es arbitrary: c) (simp_all add: coordStep_buffer del: coordStep.simps)
  then show ?thesis by (simp add: buffer_ok_def newCoordinator_def)
qed


section \<open>What a reported divergence rests on\<close>

definition pairKey :: "hex \<Rightarrow> hex \<Rightarrow> string" where
  "pairKey h r = h @ '':'' @ r"

definition backers :: "hex \<Rightarrow> hex \<Rightarrow> OtherVote list \<Rightarrow> string set" where
  "backers h r ovs = {toLowerCase (ovId v) |v. v \<in> set ovs \<and> ovHash v = h \<and> ovRoot v = Some r}"

lemma pairKey_inject:
  assumes "CHR '':'' \<notin> set h" and "CHR '':'' \<notin> set h'" and "pairKey h r = pairKey h' r'"
  shows "h = h' \<and> r = r'"
proof -
  have "takeWhile (\<lambda>x. x \<noteq> CHR '':'') (pairKey h r) = h" "takeWhile (\<lambda>x. x \<noteq> CHR '':'') (pairKey h' r') = h'"
    using assms(1,2) unfolding pairKey_def by (subst takeWhile_append2; auto)+
  then show ?thesis using assms(3) by (auto simp: pairKey_def)
qed

lemma stakeById_stakeOf: "get_or 0 (stakeById vs) i = stakeOf vs i"
  by (simp add: stakeById_def stakeOf_def stakeMap_def)

text \<open>Each entry of the table sums the stakes of distinct counted voters for its pair.\<close>

definition pairs_ok :: "Validator list \<Rightarrow> OtherVote list \<Rightarrow> (string, PairStake) jsmap \<times> string list \<Rightarrow> bool" where
  "pairs_ok vs ovs acc \<longleftrightarrow> (\<forall>key e. jget (fst acc) key = Some e \<longrightarrow> key = pairKey (psHash e) (psRoot e) \<and> CHR '':'' \<notin> set (psHash e) \<and>
     (\<exists>Q. Q \<subseteq> set (snd acc) \<inter> backers (psHash e) (psRoot e) ovs \<and> psStake e = sum (stakeOf vs) Q))"

lemma backers_mono: "set ovs \<subseteq> set ovs' \<Longrightarrow> backers h r ovs \<subseteq> backers h r ovs'"
  by (auto simp: backers_def)

lemma pairs_ok_mono:
  assumes "pairs_ok vs ovs (p, k)" and "set ovs \<subseteq> set ovs'" and "set k \<subseteq> set k'"
  shows "pairs_ok vs ovs' (p, k')"
proof -
  have "set k \<inter> backers h r ovs \<subseteq> set k' \<inter> backers h r ovs'" for h r
    using assms(3) backers_mono [OF assms(2)] by (rule Int_mono)
  then show ?thesis using assms(1) unfolding pairs_ok_def fst_conv snd_conv by (meson order_trans)
qed

lemma countPair_ok:
  assumes ok: "pairs_ok vs ovs acc" and hex: "CHR '':'' \<notin> set (ovHash v)"
  shows "pairs_ok vs (ovs @ [v]) (countPair (stakeById vs) acc v)"
proof -
  obtain pairs counted where acc: "acc = (pairs, counted)" by (cases acc)
  let ?i = "toLowerCase (ovId v)"
  have grow: "pairs_ok vs (ovs @ [v]) (pairs, counted')" if "set counted \<subseteq> set counted'" for counted'
    using ok that by (auto simp: acc intro: pairs_ok_mono [of vs ovs pairs counted])
  show ?thesis
  proof (cases "truthy (ovRoot v) \<and> ?i \<notin> set counted \<and> stakeOf vs ?i \<noteq> 0")
    case False
    then show ?thesis using grow [of counted] grow [of "set_add ?i counted"]
      by (auto simp: countPair_def acc stakeById_stakeOf Let_def)
  next
    case True
    then obtain root where root: "ovRoot v = Some root" by (auto simp: truthy_def split: option.splits)
    let ?key = "pairKey (ovHash v) root"
    define e' where "e' = (case jget pairs ?key of Some e \<Rightarrow> e\<lparr>psStake := psStake e + stakeOf vs ?i\<rparr>
      | None \<Rightarrow> \<lparr>psHash = ovHash v, psRoot = root, psStake = stakeOf vs ?i\<rparr>)"
    have eq: "countPair (stakeById vs) acc v = (jset ?key e' pairs, set_add ?i counted)"
      using True root by (auto simp: countPair_def acc stakeById_stakeOf Let_def e'_def pairKey_def split: option.split)
    have me: "?i \<in> backers (ovHash v) root (ovs @ [v])" using root by (auto simp: backers_def)
    have new: "psHash e' = ovHash v \<and> psRoot e' = root \<and>
        (\<exists>Q. Q \<subseteq> set (set_add ?i counted) \<inter> backers (psHash e') (psRoot e') (ovs @ [v]) \<and> psStake e' = sum (stakeOf vs) Q)"
    proof (cases "jget pairs ?key")
      case None
      then show ?thesis using me by (intro conjI exI [of _ "{?i}"]) (auto simp: e'_def)
    next
      case (Some e)
      from ok Some obtain Q where Q: "?key = pairKey (psHash e) (psRoot e)" "CHR '':'' \<notin> set (psHash e)"
        "Q \<subseteq> set counted \<inter> backers (psHash e) (psRoot e) ovs" "psStake e = sum (stakeOf vs) Q"
        unfolding pairs_ok_def acc fst_conv snd_conv by blast
      have same: "psHash e = ovHash v \<and> psRoot e = root" using pairKey_inject [OF hex Q(2) Q(1)] by simp
      have "finite Q" using Q(3) by (meson Int_lower1 List.finite_set finite_subset order_trans)
      moreover have "?i \<notin> Q" using Q(3) True by blast
      ultimately have "sum (stakeOf vs) (insert ?i Q) = psStake e + stakeOf vs ?i" using Q(4) by simp
      moreover have "insert ?i Q \<subseteq> set (set_add ?i counted) \<inter> backers (ovHash v) root (ovs @ [v])"
        using Q(3) me same backers_mono [of ovs "ovs @ [v]" "ovHash v" root] by auto
      ultimately show ?thesis using same Some by (intro conjI exI [of _ "insert ?i Q"]) (auto simp: e'_def)
    qed
    show ?thesis unfolding eq
    proof (unfold pairs_ok_def, intro allI impI)
      fix key e
      assume "jget (fst (jset ?key e' pairs, set_add ?i counted)) key = Some e"
      then have "key = ?key \<and> e = e' \<or> jget pairs key = Some e" by (auto split: if_splits)
      then show "key = pairKey (psHash e) (psRoot e) \<and> CHR '':'' \<notin> set (psHash e) \<and>
          (\<exists>Q. Q \<subseteq> set (snd (jset ?key e' pairs, set_add ?i counted)) \<inter> backers (psHash e) (psRoot e) (ovs @ [v]) \<and>
             psStake e = sum (stakeOf vs) Q)"
      proof
        assume "key = ?key \<and> e = e'"
        then show ?thesis using new hex unfolding snd_conv by metis
      next
        assume "jget pairs key = Some e"
        moreover have "pairs_ok vs (ovs @ [v]) (pairs, set_add ?i counted)" by (rule grow) auto
        ultimately show ?thesis unfolding pairs_ok_def fst_conv snd_conv by blast
      qed
    qed
  qed
qed

lemma countPairs_ok:
  assumes "\<forall>v\<in>set ovs. CHR '':'' \<notin> set (ovHash v)"
  shows "pairs_ok vs ovs (foldl (countPair (stakeById vs)) ([], []) ovs) \<and> 
    jmap_ok (fst (foldl (countPair (stakeById vs)) ([], []) ovs))"
  using assms
proof (induction ovs rule: rev_induct)
  case Nil
  show ?case by (simp add: pairs_ok_def)
next
  case (snoc v ovs)
  obtain p k where pk: "foldl (countPair (stakeById vs)) ([], []) ovs = (p, k)" by fastforce
  have "jmap_ok (fst (countPair (stakeById vs) (p, k) v))" if "jmap_ok p"
    using that by (auto simp: countPair_def Let_def split: option.split)
  then show ?case using snoc pk countPair_ok [of vs ovs "(p, k)" v] by simp
qed

lemma betterPair_fold:
  assumes "foldl (betterPair t) b es = Some e"
  shows "b = Some e \<or> e \<in> set es \<and> t \<le> psStake e"
  using assms by (induction es arbitrary: b) (auto simp: betterPair_def split: if_splits)

text \<open>
  (C17) A divergence is reported only if distinct other validators whose stake is at least two thirds of the whole, rounded
  down, voted for exactly the reported block and state root, and this node's own root, if it has one, is a different one.
\<close>

theorem divergence_has_peer_quorum:
  assumes "computePeerQuorumDivergence vs ovs localRoot = Some d" and hex: "\<forall>v\<in>set ovs. CHR '':'' \<notin> set (ovHash v)"
  shows "\<exists>Q. Q \<subseteq> backers (peerBlockHash d) (peerStateRoot d) ovs \<and> (totalStake vs * 2) sdiv 3 \<le> sum (stakeOf vs) Q \<and>
    divLocalRoot d = localRoot \<and> (truthy localRoot \<longrightarrow> localRoot \<noteq> Some (peerStateRoot d))"
proof -
  let ?acc = "foldl (countPair (stakeById vs)) ([], []) ovs"
  have total: "foldl (\<lambda>t v. t + stake v) 0 vs = totalStake vs" by (simp add: totalStake_def foldl_add_sum_list)
  obtain best where best: "foldl (betterPair ((totalStake vs * 2) sdiv 3)) None (map snd (fst ?acc)) = Some best"
    and d: "d = \<lparr>peerBlockHash = psHash best, peerStateRoot = psRoot best, divLocalRoot = localRoot\<rparr>"
      "\<not> (truthy localRoot \<and> localRoot = Some (psRoot best))"
    using assms(1) unfolding computePeerQuorumDivergence_def Let_def total by (auto split: option.splits if_splits)
  from betterPair_fold [OF best] obtain key where "(key, best) \<in> set (fst ?acc)" and two: "(totalStake vs * 2) sdiv 3 \<le> psStake best"
    by auto
  then have "jget (fst ?acc) key = Some best" using countPairs_ok [OF hex, of vs] by (simp add: jget_iff)
  then obtain Q where "Q \<subseteq> backers (psHash best) (psRoot best) ovs" "psStake best = sum (stakeOf vs) Q"
    using countPairs_ok [OF hex, of vs] unfolding pairs_ok_def by blast
  then show ?thesis using two d by auto
qed

theorem divergence_has_peer_quorum_witness:
  "\<exists>Q. Q \<subseteq> backers ''0x01'' ''0xaa'' (map (\<lambda>i. \<lparr>ovId = i, ovHash = ''0x01'', ovRoot = Some ''0xaa''\<rparr>) [''a'', ''B'', ''c'']) \<and>
     2 \<le> sum (stakeOf demo_validators) Q"
proof -
  let ?ovs = "map (\<lambda>i. \<lparr>ovId = i, ovHash = ''0x01'', ovRoot = Some ''0xaa''\<rparr>) [''a'', ''B'', ''c'']"
  have "computePeerQuorumDivergence demo_validators ?ovs (Some ''0xbb'') =
      Some \<lparr>peerBlockHash = ''0x01'', peerStateRoot = ''0xaa'', divLocalRoot = Some ''0xbb''\<rparr>"
    by code_simp
  from divergence_has_peer_quorum [OF this] have "\<exists>Q. Q \<subseteq> backers ''0x01'' ''0xaa'' ?ovs \<and>
      (totalStake demo_validators * 2) sdiv 3 \<le> sum (stakeOf demo_validators) Q" by auto
  moreover have "(totalStake demo_validators * 2) sdiv 3 = 2" by code_simp
  ultimately show ?thesis by simp
qed

end
