(* ===== verification/Validator_Schedule.thy ===== *)
theory Validator_Schedule
  imports Pali_Prelude
begin

text \<open>
  The height-segmented validator sets: \<^verbatim>\<open>node/src/validator-set-schedule.ts\<close>. As in the vote ledger the
  file is part of the state, and whether a best-effort write succeeds is the argument \<open>io\<close>.
\<close>

record ValidatorSetEra =
  fromHeight :: bigint
  eraValidators :: "string list"

record PersistedEra =
  pFromHeight :: string
  pValidators :: "string list"

datatype ScheduleFile = NoSchedule | CorruptSchedule | SavedSchedule "PersistedEra list"

record ValidatorSetSchedule =
  eraList :: "ValidatorSetEra list"
  scheduleHasPath :: bool
  scheduleFile :: ScheduleFile

definition newSchedule :: "bool \<Rightarrow> ScheduleFile \<Rightarrow> ValidatorSetSchedule" where
  "newSchedule path file = \<lparr>eraList = [], scheduleHasPath = path, scheduleFile = file\<rparr>"

definition loadSchedule :: "ScheduleFile \<Rightarrow> ValidatorSetSchedule" where
  "loadSchedule file =
     (case file of
        SavedSchedule raw \<Rightarrow>
          (newSchedule True file)\<lparr>eraList := sort_key fromHeight
            (map (\<lambda>e. \<lparr>fromHeight = read_int (pFromHeight e), eraValidators = map toLowerCase (pValidators e)\<rparr>) raw)\<rparr>
      | _ \<Rightarrow> newSchedule True file)"

definition scheduleSize :: "ValidatorSetSchedule \<Rightarrow> nat" where
  "scheduleSize s = length (eraList s)"

definition eras :: "ValidatorSetSchedule \<Rightarrow> ValidatorSetEra list" where
  "eras s = map (\<lambda>e. \<lparr>fromHeight = fromHeight e, eraValidators = eraValidators e\<rparr>) (eraList s)"

fun sameMembers :: "string list \<Rightarrow> string list \<Rightarrow> bool" where
  "sameMembers [] [] = True"
| "sameMembers (a # as) (b # bs) = (a = b \<and> sameMembers as bs)"
| "sameMembers _ _ = False"

definition persistSchedule :: "bool \<Rightarrow> ValidatorSetSchedule \<Rightarrow> ValidatorSetSchedule" where
  "persistSchedule io s =
     (if \<not> scheduleHasPath s then s
      else if io then s\<lparr>scheduleFile := SavedSchedule
        (map (\<lambda>e. \<lparr>pFromHeight = show_int (fromHeight e), pValidators = eraValidators e\<rparr>) (eraList s))\<rparr>
      else s)"

definition normalizeMembers :: "string list \<Rightarrow> string list" where
  "normalizeMembers vs = sort (foldl (\<lambda>s v. set_add v s) [] (map toLowerCase vs))"

definition recordEra :: "bool \<Rightarrow> ValidatorSetSchedule \<Rightarrow> bigint \<Rightarrow> string list \<Rightarrow> ValidatorSetSchedule \<times> bool" where
  "recordEra io s from vs =
     (let normalized = normalizeMembers vs
      in if length normalized = 0 then (s, False)
         else if eraList s \<noteq> [] \<and> sameMembers (eraValidators (last (eraList s))) normalized then (s, False)
         else
           let next = filter (\<lambda>e. fromHeight e \<noteq> from) (eraList s) @ [\<lparr>fromHeight = from, eraValidators = normalized\<rparr>]
           in (persistSchedule io (s\<lparr>eraList := sort_key fromHeight next\<rparr>), True))"

text \<open>The index loop with its break, and the union over the covering era and its two neighbours.\<close>

fun eraScan :: "bigint \<Rightarrow> nat \<Rightarrow> nat \<Rightarrow> ValidatorSetEra list \<Rightarrow> nat" where
  "eraScan height i idx [] = idx"
| "eraScan height i idx (e # es) = (if fromHeight e \<le> height then eraScan height (i + 1) i es else idx)"

definition allowedAt :: "ValidatorSetSchedule \<Rightarrow> bigint \<Rightarrow> string list option" where
  "allowedAt s height =
     (let es = eraList s
      in if length es = 0 then None
         else if height < fromHeight (es ! 0) then None
         else
           let idx = eraScan height 0 0 es;
               near = (if idx = 0 then [] else [es ! (idx - 1)]) @ [es ! idx] @
                 (if idx + 1 < length es then [es ! (idx + 1)] else [])
           in Some (foldl (\<lambda>allowed v. set_add v allowed) [] (concat (map eraValidators near))))"


section \<open>Eras in order\<close>

definition schedule_ok :: "ValidatorSetSchedule \<Rightarrow> bool" where
  "schedule_ok s \<longleftrightarrow>
     sorted (map fromHeight (eraList s)) \<and> distinct (map fromHeight (eraList s)) \<and>
     (\<forall>e\<in>set (eraList s). eraValidators e \<noteq> [] \<and> sorted (eraValidators e) \<and> distinct (eraValidators e) \<and>
        (\<forall>v\<in>set (eraValidators e). toLowerCase v = v))"

lemma sameMembers_eq: "sameMembers xs ys \<longleftrightarrow> xs = ys"
  by (induction xs ys rule: sameMembers.induct) auto

lemma foldl_set_add:
  "distinct acc \<Longrightarrow> distinct (foldl (\<lambda>s v. set_add v s) acc vs) \<and> set (foldl (\<lambda>s v. set_add v s) acc vs) = set acc \<union> set vs"
  by (induction vs arbitrary: acc) auto

lemma normalizeMembers_set:
  "set (normalizeMembers vs) = toLowerCase ` set vs" "distinct (normalizeMembers vs)" "sorted (normalizeMembers vs)"
  using foldl_set_add [of "[]" "map toLowerCase vs"] by (simp_all add: normalizeMembers_def)

lemma map_sort_key: "map f (sort_key f xs) = sort (map f xs)"
  by (rule properties_for_sort [symmetric]) simp_all

lemma recordEra_ok:
  assumes "schedule_ok s"
  shows "schedule_ok (fst (recordEra io s from vs))"
proof -
  have "schedule_ok (s\<lparr>eraList := sort_key fromHeight (filter (\<lambda>e. fromHeight e \<noteq> from) (eraList s) @
      [\<lparr>fromHeight = from, eraValidators = normalizeMembers vs\<rparr>])\<rparr>)" if "normalizeMembers vs \<noteq> []"
    using assms that normalizeMembers_set [of vs]
    by (auto simp: schedule_ok_def map_sort_key distinct_map_filter)
  moreover have "schedule_ok (persistSchedule io s') = schedule_ok s'" for s'
    by (simp add: persistSchedule_def schedule_ok_def)
  ultimately show ?thesis using assms by (simp add: recordEra_def Let_def)
qed

text \<open>The scan stops at the last era that starts at or below the height.\<close>

lemma eraScan_take:
  "eraScan height i idx es =
     (let n = length (takeWhile (\<lambda>e. fromHeight e \<le> height) es) in if n = 0 then idx else i + n - 1)"
  by (induction es arbitrary: i idx) (auto simp: Let_def)

lemma eraScan_covering:
  assumes "sorted (map fromHeight es)" and "es \<noteq> []" and "fromHeight (es ! 0) \<le> height"
  shows "eraScan height 0 0 es < length es \<and> fromHeight (es ! eraScan height 0 0 es) \<le> height \<and>
    (\<forall>j. eraScan height 0 0 es < j \<and> j < length es \<longrightarrow> height < fromHeight (es ! j))"
proof -
  let ?P = "\<lambda>e. fromHeight e \<le> height"
  let ?n = "length (takeWhile ?P es)"
  have pos: "0 < ?n" using assms(2,3) by (cases es) auto
  have le: "?n \<le> length es" by (rule length_takeWhile_le)
  have scan: "eraScan height 0 0 es = ?n - 1" using pos by (auto simp: eraScan_take Let_def)
  have "?P (es ! (?n - 1))" using pos set_takeWhileD [OF nth_mem [of "?n - 1" "takeWhile ?P es"]]
    by (simp add: takeWhile_nth)
  moreover have "height < fromHeight (es ! j)" if "?n - 1 < j" "j < length es" for j
  proof -
    have n: "?n < length es" "?n \<le> j" using that pos by auto
    then have "\<not> ?P (es ! ?n)" by (intro nth_length_takeWhile) auto
    moreover have "fromHeight (es ! ?n) \<le> fromHeight (es ! j)"
      using sorted_nth_mono [OF assms(1), of ?n j] n that(2) by simp
    ultimately show ?thesis by simp
  qed
  moreover have "?n - 1 < length es" using pos le by linarith
  ultimately show ?thesis unfolding scan by blast
qed

lemma allowedAt_near:
  assumes "eraList s \<noteq> []" and "fromHeight (eraList s ! 0) \<le> height" and "eraScan height 0 0 (eraList s) < length (eraList s)"
  defines "i \<equiv> eraScan height 0 0 (eraList s)"
  shows "\<exists>A. allowedAt s height = Some A \<and>
    set A = (\<Union>j\<in>{j. j < length (eraList s) \<and> i \<le> j + 1 \<and> j \<le> i + 1}. set (eraValidators (eraList s ! j)))"
proof -
  let ?es = "eraList s"
  let ?near = "(if i = 0 then [] else [?es ! (i - 1)]) @ [?es ! i] @ (if i + 1 < length ?es then [?es ! (i + 1)] else [])"
  have near: "{j. j < length ?es \<and> i \<le> j + 1 \<and> j \<le> i + 1} =
      (if i = 0 then {} else {i - 1}) \<union> {i} \<union> (if i + 1 < length ?es then {i + 1} else {})"
    using assms(3) unfolding i_def [symmetric] by auto
  have "allowedAt s height = Some (foldl (\<lambda>allowed v. set_add v allowed) [] (concat (map eraValidators ?near)))"
    using assms(1,2) by (simp add: allowedAt_def Let_def i_def)
  moreover have "set (foldl (\<lambda>allowed v. set_add v allowed) [] (concat (map eraValidators ?near))) =
      (\<Union>j\<in>(if i = 0 then {} else {i - 1}) \<union> {i} \<union> (if i + 1 < length ?es then {i + 1} else {}). set (eraValidators (?es ! j)))"
    using foldl_set_add [of "[]" "concat (map eraValidators ?near)"] by (auto split: if_splits)
  ultimately show ?thesis unfolding near by blast
qed

lemma eraScan_snoc:
  "height < fromHeight e \<Longrightarrow> eraScan height 0 0 (es @ [e]) = eraScan height 0 0 es"
  "\<forall>x\<in>set (es @ [e]). fromHeight x \<le> height \<Longrightarrow> eraScan height 0 0 (es @ [e]) = length es"
  by (simp_all add: eraScan_take takeWhile_tail Let_def)

lemma recordEra_snoc:
  assumes "schedule_ok s" and "\<forall>e\<in>set (eraList s). fromHeight e < from" and "recordEra io s from vs = (s', True)"
  shows "eraList s' = eraList s @ [\<lparr>fromHeight = from, eraValidators = normalizeMembers vs\<rparr>]"
proof -
  have "filter (\<lambda>e. fromHeight e \<noteq> from) (eraList s) = eraList s" using assms(2) by (auto intro: filter_True)
  moreover have "sorted (map fromHeight (eraList s @ [\<lparr>fromHeight = from, eraValidators = normalizeMembers vs\<rparr>]))"
    using assms(1,2) by (auto simp: schedule_ok_def sorted_append less_imp_le)
  moreover have "eraList (persistSchedule io x) = eraList x" for x by (simp add: persistSchedule_def)
  ultimately show ?thesis
    using assms(3) by (auto simp: recordEra_def Let_def sort_key_id_if_sorted split: if_splits)
qed


section \<open>Properties\<close>

text \<open>
  (C28) Membership by height. In a schedule in order, membership is unknown exactly below the first
  era and for an empty schedule; otherwise the set allowed at a height is the union of the era that
  covers it, which is the last one that starts at or below the height, and of the eras next to it.
\<close>

theorem allowedAt_eras:
  assumes "schedule_ok s"
  shows "(allowedAt s height = None \<longleftrightarrow> (\<forall>e\<in>set (eraList s). height < fromHeight e)) \<and>
    (\<forall>A. allowedAt s height = Some A \<longrightarrow>
       (\<exists>i < length (eraList s).
          fromHeight (eraList s ! i) \<le> height \<and> (\<forall>j. i < j \<and> j < length (eraList s) \<longrightarrow> height < fromHeight (eraList s ! j)) \<and>
          set A = (\<Union>j\<in>{j. j < length (eraList s) \<and> i \<le> j + 1 \<and> j \<le> i + 1}. set (eraValidators (eraList s ! j)))))"
proof (cases "eraList s = [] \<or> height < fromHeight (eraList s ! 0)")
  case True
  then have "\<forall>e\<in>set (eraList s). height < fromHeight e"
    using assms by (cases "eraList s") (auto simp: schedule_ok_def)
  then show ?thesis using True by (auto simp: allowedAt_def Let_def)
next
  case False
  let ?es = "eraList s" and ?i = "eraScan height 0 0 (eraList s)"
  have cov: "?i < length ?es" "fromHeight (?es ! ?i) \<le> height"
    "\<forall>j. ?i < j \<and> j < length ?es \<longrightarrow> height < fromHeight (?es ! j)"
    using eraScan_covering [of ?es height] False assms by (auto simp: schedule_ok_def)
  have "fromHeight (?es ! 0) \<le> height" "?es \<noteq> []" using False by auto
  from allowedAt_near [OF this(2,1) cov(1)] obtain A where "allowedAt s height = Some A"
    "set A = (\<Union>j\<in>{j. j < length ?es \<and> ?i \<le> j + 1 \<and> j \<le> ?i + 1}. set (eraValidators (?es ! j)))" by blast
  moreover have "\<not> (\<forall>e\<in>set ?es. height < fromHeight e)" using cov(1,2) nth_mem [OF cov(1)] by (auto simp: not_less)
  ultimately show ?thesis using cov by auto
qed

theorem allowedAt_eras_witness:
  "let s = fst (recordEra True (fst (recordEra True (newSchedule True NoSchedule) 0 [''0xA'', ''0xb''])) 100 [''0xC''])
   in schedule_ok s \<and> allowedAt s 99 = Some [''0xa'', ''0xb'', ''0xc''] \<and>
      (\<exists>i < length (eraList s). fromHeight (eraList s ! i) \<le> 99)"
proof -
  let ?s = "fst (recordEra True (fst (recordEra True (newSchedule True NoSchedule) 0 [''0xA'', ''0xb''])) 100 [''0xC''])"
  have "schedule_ok (newSchedule True NoSchedule)" by (simp add: schedule_ok_def newSchedule_def)
  then have ok: "schedule_ok ?s" by (intro recordEra_ok)
  moreover have "allowedAt ?s 99 = Some [''0xa'', ''0xb'', ''0xc'']" by code_simp
  ultimately show ?thesis unfolding Let_def using allowedAt_eras [OF ok, of 99] by blast
qed

text \<open>
  The schedule file round-trips. After a successful write of a schedule in order, loading the file gives the
  same eras, so a restarted node allows the same members at every height.
\<close>

lemma schedule_reloads:
  assumes "schedule_ok s" and "scheduleHasPath s"
  shows "eraList (loadSchedule (scheduleFile (persistSchedule True s))) = eraList s \<and>
    allowedAt (loadSchedule (scheduleFile (persistSchedule True s))) = allowedAt s"
proof -
  let ?f = "\<lambda>e :: PersistedEra. \<lparr>fromHeight = read_int (pFromHeight e), eraValidators = map toLowerCase (pValidators e)\<rparr>"
  let ?g = "\<lambda>e :: ValidatorSetEra. \<lparr>pFromHeight = show_int (fromHeight e), pValidators = eraValidators e\<rparr>"
  have "map toLowerCase (eraValidators e) = eraValidators e" if "e \<in> set (eraList s)" for e
    using assms(1) that by (auto simp: schedule_ok_def intro: map_idI)
  then have "map (?f \<circ> ?g) (eraList s) = eraList s" by (intro map_idI) simp
  then have "eraList (loadSchedule (scheduleFile (persistSchedule True s))) = sort_key fromHeight (eraList s)"
    using assms(2) by (simp add: loadSchedule_def persistSchedule_def)
  also have "\<dots> = eraList s" using assms(1) by (simp add: schedule_ok_def sort_key_id_if_sorted)
  finally show ?thesis by (simp add: allowedAt_def fun_eq_iff)
qed

text \<open>
  (C29) Rotations keep history valid. Recording a new set above all recorded eras never forbids a proposer
  that was allowed at a height below it, and its members are allowed from its height on.
\<close>

theorem recordEra_keeps_history:
  assumes "schedule_ok s" and "\<forall>e\<in>set (eraList s). fromHeight e < from" and "recordEra io s from vs = (s', True)"
  shows "(height < from \<and> allowedAt s height = Some A \<longrightarrow> (\<exists>A'. allowedAt s' height = Some A' \<and> set A \<subseteq> set A')) \<and>
    (from \<le> height \<longrightarrow> (\<exists>A'. allowedAt s' height = Some A' \<and> toLowerCase ` set vs \<subseteq> set A'))"
proof (intro conjI impI)
  let ?es = "eraList s" and ?e = "\<lparr>fromHeight = from, eraValidators = normalizeMembers vs\<rparr>"
  have es': "eraList s' = ?es @ [?e]" using assms by (rule recordEra_snoc)
  {
    assume h: "height < from \<and> allowedAt s height = Some A"
    let ?i = "eraScan height 0 0 ?es"
    have ne: "?es \<noteq> []" "fromHeight (?es ! 0) \<le> height" using h by (auto simp: allowedAt_def Let_def split: if_splits)
    then have lt: "?i < length ?es" using eraScan_covering [of ?es height] assms(1) by (simp add: schedule_ok_def)
    have A: "set A = (\<Union>j\<in>{j. j < length ?es \<and> ?i \<le> j + 1 \<and> j \<le> ?i + 1}. set (eraValidators (?es ! j)))"
      using allowedAt_near [OF ne lt] h by auto
    have scan: "eraScan height 0 0 (eraList s') = ?i" using h eraScan_snoc(1) [of height ?e ?es] by (simp add: es')
    have "eraList s' \<noteq> []" "fromHeight (eraList s' ! 0) \<le> height" "eraScan height 0 0 (eraList s') < length (eraList s')"
      using ne lt by (simp_all add: es' scan [unfolded es'] nth_append)
    from allowedAt_near [OF this] obtain A' where A': "allowedAt s' height = Some A'"
      "set A' = (\<Union>j\<in>{j. j < length (eraList s') \<and> ?i \<le> j + 1 \<and> j \<le> ?i + 1}. set (eraValidators (eraList s' ! j)))"
      unfolding scan by blast
    have "set A \<subseteq> set A'" unfolding A A'(2) by (auto simp: es' nth_append intro!: less_SucI)
    with A'(1) show "\<exists>A'. allowedAt s' height = Some A' \<and> set A \<subseteq> set A'" by blast
  next
    assume h: "from \<le> height"
    have scan: "eraScan height 0 0 (eraList s') = length ?es"
      unfolding es' using h assms(2) by (intro eraScan_snoc(2)) auto
    have low: "fromHeight (eraList s' ! 0) \<le> height" using h assms(2) by (cases ?es) (auto simp: es')
    have "eraList s' \<noteq> []" "eraScan height 0 0 (eraList s') < length (eraList s')"
      unfolding scan by (simp_all add: es')
    note this(1) low this(2)
    from allowedAt_near [OF this] obtain A' where A': "allowedAt s' height = Some A'"
      "set A' = (\<Union>j\<in>{j. j < length (eraList s') \<and> length ?es \<le> j + 1 \<and> j \<le> length ?es + 1}. set (eraValidators (eraList s' ! j)))"
      unfolding scan by blast
    have "length ?es \<in> {j. j < length (eraList s') \<and> length ?es \<le> j + 1 \<and> j \<le> length ?es + 1}" by (simp add: es')
    then have "set (eraValidators (eraList s' ! length ?es)) \<subseteq> set A'" unfolding A'(2) by (rule UN_upper)
    with A'(1) show "\<exists>A'. allowedAt s' height = Some A' \<and> toLowerCase ` set vs \<subseteq> set A'"
      by (auto simp: es' normalizeMembers_set)
  }
qed

theorem recordEra_keeps_history_witness:
  "let s = fst (recordEra True (newSchedule True NoSchedule) 0 [''0xA'', ''0xb'']);
       s' = fst (recordEra True s 100 [''0xC''])
   in \<exists>A'. allowedAt s' 40 = Some A' \<and> set [''0xa'', ''0xb''] \<subseteq> set A'"
proof -
  let ?s = "fst (recordEra True (newSchedule True NoSchedule) 0 [''0xA'', ''0xb''])"
  let ?s' = "fst (recordEra True ?s 100 [''0xC''])"
  have "schedule_ok (newSchedule True NoSchedule)" by (simp add: schedule_ok_def newSchedule_def)
  then have ok: "schedule_ok ?s" by (intro recordEra_ok)
  have r: "\<forall>e\<in>set (eraList ?s). fromHeight e < 100" "snd (recordEra True ?s 100 [''0xC''])"
    and A: "allowedAt ?s 40 = Some [''0xa'', ''0xb'']" by code_simp+
  from r(2) have "recordEra True ?s 100 [''0xC''] = (?s', True)" by (metis prod.collapse)
  from recordEra_keeps_history [OF ok r(1) this, THEN conjunct1, THEN mp, OF conjI, OF _ A]
  show ?thesis unfolding Let_def by simp
qed

end
