(* ===== verification/Wire_Protocol.thy ===== *)
theory Wire_Protocol
  imports Pali_Prelude "HOL-Library.Word"
begin

text \<open>
  The binary wire protocol: \<^verbatim>\<open>node/src/wire-protocol.ts\<close>. A \<^verbatim>\<open>Uint8Array\<close> is a list of bytes; the decoder's
  buffer keeps its capacity, its stale bytes included, and the count of used bytes beside it.
\<close>

type_synonym byte = "8 word"

definition WIRE_MAGIC :: nat where "WIRE_MAGIC = 0xC0C1"
definition HEADER_SIZE :: nat where "HEADER_SIZE = 7"
definition MAX_PAYLOAD_SIZE :: nat where "MAX_PAYLOAD_SIZE = 16 * 1024 * 1024"

datatype MessageType = Handshake | HandshakeAck | Block | Transaction | BlockRequest | BlockResponse
  | ProviderAdvertise | Snapshot | SnapshotRequest | BftPrepare | BftCommit | FindNode | FindNodeResponse
  | Ping | Pong

fun messageCode :: "MessageType \<Rightarrow> byte" where
  "messageCode Handshake = 0x01"
| "messageCode HandshakeAck = 0x02"
| "messageCode Block = 0x10"
| "messageCode Transaction = 0x11"
| "messageCode BlockRequest = 0x12"
| "messageCode BlockResponse = 0x13"
| "messageCode ProviderAdvertise = 0x14"
| "messageCode Snapshot = 0x20"
| "messageCode SnapshotRequest = 0x21"
| "messageCode BftPrepare = 0x30"
| "messageCode BftCommit = 0x31"
| "messageCode FindNode = 0x40"
| "messageCode FindNodeResponse = 0x41"
| "messageCode Ping = 0xF0"
| "messageCode Pong = 0xF1"

definition VALID_MESSAGE_TYPES :: "MessageType list" where
  "VALID_MESSAGE_TYPES = [Handshake, HandshakeAck, Block, Transaction, BlockRequest, BlockResponse, ProviderAdvertise,
     Snapshot, SnapshotRequest, BftPrepare, BftCommit, FindNode, FindNodeResponse, Ping, Pong]"

definition messageOfCode :: "byte \<Rightarrow> MessageType option" where
  "messageOfCode c = find (\<lambda>t. messageCode t = c) VALID_MESSAGE_TYPES"

datatype FramePriority = LOW | NORMAL | HIGH | CRITICAL

fun priorityValue :: "FramePriority \<Rightarrow> nat" where
  "priorityValue LOW = 0"
| "priorityValue NORMAL = 1"
| "priorityValue HIGH = 2"
| "priorityValue CRITICAL = 3"

fun defaultPriority :: "MessageType \<Rightarrow> FramePriority option" where
  "defaultPriority BftPrepare = Some CRITICAL"
| "defaultPriority BftCommit = Some CRITICAL"
| "defaultPriority Block = Some HIGH"
| "defaultPriority BlockRequest = Some HIGH"
| "defaultPriority BlockResponse = Some HIGH"
| "defaultPriority ProviderAdvertise = Some LOW"
| "defaultPriority Transaction = Some NORMAL"
| "defaultPriority FindNode = Some LOW"
| "defaultPriority FindNodeResponse = Some LOW"
| "defaultPriority Ping = Some LOW"
| "defaultPriority Pong = Some LOW"
| "defaultPriority _ = None"

definition getFramePriority :: "MessageType \<Rightarrow> FramePriority" where
  "getFramePriority t = (case defaultPriority t of None \<Rightarrow> NORMAL | Some p \<Rightarrow> p)"

record WireFrame =
  frameType :: MessageType
  payload :: "byte list"

definition sortByPriority :: "WireFrame list \<Rightarrow> WireFrame list" where
  "sortByPriority frames = sort_key (\<lambda>f. Down (priorityValue (getFramePriority (frameType f)))) frames"

definition buildWireHandshakeMessage :: "string \<Rightarrow> nat \<Rightarrow> string \<Rightarrow> string" where
  "buildWireHandshakeMessage nodeId chainId nonce =
     ''wire:handshake:'' @ show_nat chainId @ '':'' @ nodeId @ '':'' @ nonce"

datatype WireError = PayloadTooLarge nat | InvalidMagic nat | UnknownType byte | PayloadSizeExceeds nat
  | BufferOverflow nat nat | InvalidJson MessageType

text \<open>Big-endian integers, as \<^verbatim>\<open>DataView\<close> reads and writes them.\<close>

definition setUint16 :: "nat \<Rightarrow> byte list" where
  "setUint16 n = [word_of_nat (n div 256), word_of_nat n]"

definition setUint32 :: "nat \<Rightarrow> byte list" where
  "setUint32 n = [word_of_nat (n div 256 ^ 3), word_of_nat (n div 256 ^ 2), word_of_nat (n div 256), word_of_nat n]"

definition getUint16 :: "byte list \<Rightarrow> nat \<Rightarrow> nat" where
  "getUint16 bs i = 256 * unat (bs ! i) + unat (bs ! (i + 1))"

definition getUint32 :: "byte list \<Rightarrow> nat \<Rightarrow> nat" where
  "getUint32 bs i = 256 ^ 3 * unat (bs ! i) + 256 ^ 2 * unat (bs ! (i + 1)) + 256 * unat (bs ! (i + 2)) + unat (bs ! (i + 3))"

definition encodeFrame :: "WireFrame \<Rightarrow> WireError + byte list" where
  "encodeFrame frame =
     (let payloadLen = length (payload frame)
      in if payloadLen > MAX_PAYLOAD_SIZE then Inl (PayloadTooLarge payloadLen)
         else Inr (setUint16 WIRE_MAGIC @ [messageCode (frameType frame)] @ setUint32 payloadLen @ payload frame))"

definition decodeFrame :: "byte list \<Rightarrow> WireError + (WireFrame \<times> nat) option" where
  "decodeFrame buf =
     (if length buf < HEADER_SIZE then Inr None
      else
        let magic = getUint16 buf 0
        in if magic \<noteq> WIRE_MAGIC then Inl (InvalidMagic magic)
           else case messageOfCode (buf ! 2) of None \<Rightarrow> Inl (UnknownType (buf ! 2))
           | Some t \<Rightarrow>
               let payloadLen = getUint32 buf 3
               in if payloadLen > MAX_PAYLOAD_SIZE then Inl (PayloadSizeExceeds payloadLen)
                  else
                    let totalLen = HEADER_SIZE + payloadLen
                    in if length buf < totalLen then Inr None
                       else Inr (Some (\<lparr>frameType = t, payload = take payloadLen (drop HEADER_SIZE buf)\<rparr>, totalLen)))"

lemma decodeFrame_consumes: "decodeFrame bs = Inr (Some (f, n)) \<Longrightarrow> 0 < n \<and> n \<le> length bs"
  by (auto simp: decodeFrame_def HEADER_SIZE_def Let_def split: if_splits option.splits)

text \<open>
  The loop of \<^verbatim>\<open>feed\<close> on the bytes from the current offset to the end of the used part: the error if it
  stopped on one, the frames decoded, and the bytes not consumed.
\<close>

function decodeLoop :: "byte list \<Rightarrow> WireFrame list \<Rightarrow> WireError option \<times> WireFrame list \<times> byte list" where
  "decodeLoop bs frames =
     (if length bs < HEADER_SIZE then (None, frames, bs)
      else case decodeFrame bs of
        Inl e \<Rightarrow> (Some e, frames, bs)
      | Inr None \<Rightarrow> (None, frames, bs)
      | Inr (Some (f, n)) \<Rightarrow> decodeLoop (drop n bs) (frames @ [f]))"
  by pat_completeness auto

termination
  by (relation "measure (\<lambda>(bs, frames). length bs)") (auto dest: decodeFrame_consumes simp: HEADER_SIZE_def)

declare decodeLoop.simps [simp del]

record FrameDecoder =
  buffer :: "byte list"
  used :: nat
  maxBufferSize :: nat

definition newFrameDecoder :: "nat \<Rightarrow> FrameDecoder" where
  "newFrameDecoder m = \<lparr>buffer = [], used = 0, maxBufferSize = m\<rparr>"

definition DEFAULT_MAX_BUFFER :: nat where
  "DEFAULT_MAX_BUFFER = 32 * 1024 * 1024"

text \<open>\<^verbatim>\<open>buf.set(data, at)\<close> and \<^verbatim>\<open>buf.copyWithin(0, from, to)\<close>.\<close>

definition buf_set :: "byte list \<Rightarrow> byte list \<Rightarrow> nat \<Rightarrow> byte list" where
  "buf_set buf data at = take at buf @ data @ drop (at + length data) buf"

definition copyWithin0 :: "byte list \<Rightarrow> nat \<Rightarrow> nat \<Rightarrow> byte list" where
  "copyWithin0 buf from to = take (to - from) (drop from buf) @ drop (to - from) buf"

definition growBuffer :: "FrameDecoder \<Rightarrow> nat \<Rightarrow> byte list" where
  "growBuffer d needed =
     (if needed > length (buffer d) then
        let newCap = min (max needed (max (length (buffer d) * 2) 4096)) (maxBufferSize d)
        in buf_set (replicate newCap 0) (take (used d) (buffer d)) 0
      else buffer d)"

definition SHRINK_THRESHOLD :: nat where
  "SHRINK_THRESHOLD = 65536"

definition shrinkBuffer :: "FrameDecoder \<Rightarrow> FrameDecoder" where
  "shrinkBuffer d =
     (if length (buffer d) > SHRINK_THRESHOLD \<and> 4 * used d < length (buffer d) then
        let shrunkCap = max (used d * 2) SHRINK_THRESHOLD
        in if shrunkCap < length (buffer d)
           then d\<lparr>buffer := buf_set (replicate shrunkCap 0) (take (used d) (buffer d)) 0\<rparr> else d
      else d)"

definition compact :: "FrameDecoder \<Rightarrow> nat \<Rightarrow> FrameDecoder" where
  "compact d offset =
     (if offset > 0 then d\<lparr>buffer := copyWithin0 (buffer d) offset (used d), used := used d - offset\<rparr> else d)"

definition feed :: "FrameDecoder \<Rightarrow> byte list \<Rightarrow> (WireError, FrameDecoder, WireFrame list) outcome" where
  "feed d data =
     (let needed = used d + length data
      in if needed > maxBufferSize d then (d\<lparr>buffer := [], used := 0\<rparr>, Inl (BufferOverflow needed (maxBufferSize d)))
         else
           let d1 = d\<lparr>buffer := buf_set (growBuffer d needed) data (used d), used := needed\<rparr>;
               (err, frames, rest) = decodeLoop (take (used d1) (buffer d1)) [];
               offset = used d1 - length rest;
               d2 = compact d1 offset
           in case err of Some e \<Rightarrow> (d2, Inl e) | None \<Rightarrow> (shrinkBuffer d2, Inr frames))"

definition bufferedBytes :: "FrameDecoder \<Rightarrow> nat" where
  "bufferedBytes d = used d"

definition resetDecoder :: "FrameDecoder \<Rightarrow> FrameDecoder" where
  "resetDecoder d = d\<lparr>buffer := [], used := 0\<rparr>"

text \<open>The JSON helpers, over the UTF-8 bytes that the platform's JSON functions write and parse.\<close>

definition encodeJsonPayload :: "('a \<Rightarrow> byte list) \<Rightarrow> MessageType \<Rightarrow> 'a \<Rightarrow> WireError + byte list" where
  "encodeJsonPayload stringify t obj = encodeFrame \<lparr>frameType = t, payload = stringify obj\<rparr>"

definition decodeJsonPayload :: "(byte list \<Rightarrow> 'a option) \<Rightarrow> WireFrame \<Rightarrow> WireError + 'a" where
  "decodeJsonPayload parse frame =
     (case parse (payload frame) of None \<Rightarrow> Inl (InvalidJson (frameType frame)) | Some v \<Rightarrow> Inr v)"


section \<open>One frame\<close>

lemma messageOfCode_code [simp]: "messageOfCode (messageCode t) = Some t"
  by (cases t) (simp_all add: messageOfCode_def VALID_MESSAGE_TYPES_def)

lemma unat_byte [simp]: "unat (word_of_nat n :: byte) = n mod 256"
  by (simp add: unat_of_nat)

lemma getUint32_set:
  assumes "n < 2 ^ 32"
  shows "getUint32 (pre @ setUint32 n @ rest) (length pre) = n"
proof -
  have 3: "n div 16777216 mod 256 = n div 16777216" using assms by (intro mod_less) (simp add: less_mult_imp_div_less)
  have 2: "n div 65536 = 256 * (n div 16777216) + n div 65536 mod 256"
    using div_mult2_eq [of n 65536 256] mult_div_mod_eq [of 256 "n div 65536"] by simp
  have 1: "n div 256 = 256 * (n div 65536) + n div 256 mod 256"
    using div_mult2_eq [of n 256 256] mult_div_mod_eq [of 256 "n div 256"] by simp
  have 0: "n = 256 * (n div 256) + n mod 256" by simp
  have digits: "n = 16777216 * (n div 16777216 mod 256) + 65536 * (n div 65536 mod 256) + 256 * (n div 256 mod 256) + n mod 256"
    using 0 1 2 3 by linarith
  show ?thesis
    by (subst (2) digits) (simp add: getUint32_def setUint32_def nth_append)
qed


lemma getUint32_header:
  assumes "n < 2 ^ 32"
  shows "getUint32 (a # b # c # setUint32 n @ rest) 3 = n"
  using getUint32_set [OF assms, of "[a, b, c]" rest] by (simp add: numeral_3_eq_3)

definition encodedBytes :: "WireFrame \<Rightarrow> byte list" where
  "encodedBytes f = (case encodeFrame f of Inl e \<Rightarrow> [] | Inr bs \<Rightarrow> bs)"

definition fits :: "WireFrame \<Rightarrow> bool" where
  "fits f \<longleftrightarrow> length (payload f) \<le> MAX_PAYLOAD_SIZE"

lemma encodedBytes_fits:
  "fits f \<Longrightarrow> encodedBytes f =
     0xC0 # 0xC1 # messageCode (frameType f) # setUint32 (length (payload f)) @ payload f"
  by (simp add: encodedBytes_def encodeFrame_def fits_def setUint16_def WIRE_MAGIC_def)

lemma length_setUint32 [simp]: "length (setUint32 n) = 4"
  by (simp add: setUint32_def)

lemma length_encodedBytes: "fits f \<Longrightarrow> length (encodedBytes f) = HEADER_SIZE + length (payload f)"
  by (simp add: encodedBytes_fits HEADER_SIZE_def)

lemma decode_encoded:
  assumes "fits f"
  shows "decodeFrame (encodedBytes f @ rest) = Inr (Some (f, length (encodedBytes f)))"
proof -
  let ?n = "length (payload f)"
  have n: "?n \<le> MAX_PAYLOAD_SIZE" using assms by (simp add: fits_def)
  then have "?n < 2 ^ 32" by (simp add: MAX_PAYLOAD_SIZE_def)
  have magic: "getUint16 (0xC0 # 0xC1 # bs) 0 = WIRE_MAGIC" for bs by (simp add: getUint16_def WIRE_MAGIC_def)
  have drop: "drop HEADER_SIZE (0xC0 # 0xC1 # messageCode (frameType f) # setUint32 ?n @ payload f @ rest) = payload f @ rest"
    by (simp add: HEADER_SIZE_def setUint32_def)
  show ?thesis
    unfolding encodedBytes_fits [OF assms] decodeFrame_def append_Cons append_assoc magic Let_def
      getUint32_header [OF \<open>?n < 2 ^ 32\<close>] drop
    using n by (simp add: HEADER_SIZE_def)
qed

lemma decodeFrame_prefix:
  assumes "HEADER_SIZE \<le> length bs"
  shows "getUint16 (bs @ cs) 0 = getUint16 bs 0" "(bs @ cs) ! 2 = bs ! 2" "getUint32 (bs @ cs) 3 = getUint32 bs 3"
  using assms by (auto simp: getUint16_def getUint32_def nth_append HEADER_SIZE_def)

lemma decode_frame_stable:
  assumes "decodeFrame bs = Inr (Some (f, n))"
  shows "decodeFrame (bs @ cs) = Inr (Some (f, n))"
proof -
  have len: "HEADER_SIZE \<le> length bs" using assms by (auto simp: decodeFrame_def split: if_splits)
  show ?thesis
    using assms len unfolding decodeFrame_def Let_def decodeFrame_prefix [OF len]
    by (auto split: if_splits option.splits)
qed

lemma decode_error_stable:
  assumes "decodeFrame bs = Inl e"
  shows "decodeFrame (bs @ cs) = Inl e"
proof -
  have len: "HEADER_SIZE \<le> length bs" using assms by (auto simp: decodeFrame_def split: if_splits)
  show ?thesis
    using assms len unfolding decodeFrame_def Let_def decodeFrame_prefix [OF len]
    by (auto split: if_splits option.splits)
qed

lemma decode_incomplete: "decodeFrame bs = Inr None \<Longrightarrow> length bs < HEADER_SIZE + MAX_PAYLOAD_SIZE"
  by (auto simp: decodeFrame_def Let_def split: if_splits option.splits)


section \<open>Streams of frames\<close>

text \<open>
  What a stream decoder relies on in a codec: a valid item decodes from the front of whatever follows it,
  the verdict on a prefix is the verdict on every extension, and a decoded item takes bytes.
\<close>

locale prefix_codec =
  fixes valid :: "'f \<Rightarrow> bool" and enc :: "'f \<Rightarrow> 'b list" and dec :: "'b list \<Rightarrow> 'e + ('f \<times> nat) option"
  assumes dec_enc: "valid f \<Longrightarrow> dec (enc f @ rest) = Inr (Some (f, length (enc f)))"
    and dec_stable: "dec bs = Inr (Some (f, n)) \<Longrightarrow> dec (bs @ cs) = Inr (Some (f, n))"
    and dec_error: "dec bs = Inl e \<Longrightarrow> dec (bs @ cs) = Inl e"
    and dec_consumes: "dec bs = Inr (Some (f, n)) \<Longrightarrow> 0 < n \<and> n \<le> length bs"
    and dec_Nil: "dec [] = Inr None"
begin

inductive parses :: "'b list \<Rightarrow> 'f list \<Rightarrow> 'b list \<Rightarrow> bool" where
  stop: "dec bs = Inr None \<Longrightarrow> parses bs [] bs"
| item: "dec bs = Inr (Some (f, n)) \<Longrightarrow> parses (drop n bs) fs rest \<Longrightarrow> parses bs (f # fs) rest"

inductive_cases parsesE: "parses bs fs rest"

lemma parses_encoded: "\<forall>f\<in>set fs. valid f \<Longrightarrow> parses (concat (map enc fs)) fs []"
proof (induction fs)
  case Nil
  show ?case using dec_Nil by (auto intro: parses.stop)
next
  case (Cons f fs)
  then show ?case using dec_enc [of f "concat (map enc fs)"] by (auto intro!: parses.item)
qed

lemma parses_det: "parses bs fs rest \<Longrightarrow> parses bs fs' rest' \<Longrightarrow> fs' = fs \<and> rest' = rest"
proof (induction arbitrary: fs' rest' rule: parses.induct)
  case (stop bs)
  then show ?case by (auto elim: parsesE)
next
  case (item bs f n fs rest)
  from item.prems item.hyps(1) obtain gs where "fs' = f # gs" "parses (drop n bs) gs rest'"
    by (auto elim: parsesE)
  with item.IH show ?case by blast
qed

lemma parses_split:
  assumes "parses (bs @ cs) hs r"
  obtains fs rest gs where "parses bs fs rest" "parses (rest @ cs) gs r" "hs = fs @ gs"
proof -
  have "\<exists>fs rest gs. parses bs fs rest \<and> parses (rest @ cs) gs r \<and> hs = fs @ gs"
    using assms
  proof (induction "length bs" arbitrary: bs hs rule: less_induct)
    case less
    show ?case
    proof (cases "dec bs")
      case (Inl e)
      then show ?thesis using less.prems dec_error [OF Inl, of cs] by (auto elim: parsesE)
    next
      case (Inr res)
      show ?thesis
      proof (cases res)
        case None
        then have "parses bs [] bs" using Inr by (simp add: parses.stop)
        with less.prems show ?thesis by (metis append_Nil)
      next
        case (Some fn)
        obtain f n where fn: "fn = (f, n)" by fastforce
        have d: "dec bs = Inr (Some (f, n))" using Inr Some fn by simp
        from less.prems dec_stable [OF d, of cs] obtain hs' where hs: "hs = f # hs'" "parses (drop n (bs @ cs)) hs' r"
          by (auto elim: parsesE)
        have "drop n (bs @ cs) = drop n bs @ cs" "length (drop n bs) < length bs" using dec_consumes [OF d] by auto
        with less.hyps [of "drop n bs" hs'] hs(2) obtain fs rest gs where
          "parses (drop n bs) fs rest" "parses (rest @ cs) gs r" "hs' = fs @ gs" by auto
        then show ?thesis using parses.item [OF d] hs(1) by (metis append_Cons)
      qed
    qed
  qed
  with that show ?thesis by blast
qed

lemma parses_rest: "parses bs fs rest \<Longrightarrow> dec rest = Inr None"
  by (induction rule: parses.induct) auto

end

interpretation wire: prefix_codec fits encodedBytes decodeFrame
  by unfold_locales
    (use decode_encoded decode_frame_stable decode_error_stable decodeFrame_consumes in
      \<open>auto simp: decodeFrame_def HEADER_SIZE_def\<close>)

lemma decodeLoop_parses: "wire.parses bs fs rest \<Longrightarrow> decodeLoop bs acc = (None, acc @ fs, rest)"
proof (induction arbitrary: acc rule: wire.parses.induct)
  case (stop bs)
  then show ?case by (subst decodeLoop.simps) simp
next
  case (item bs f n fs rest)
  have "\<not> length bs < HEADER_SIZE" using item.hyps(1) by (auto simp: decodeFrame_def)
  then show ?case using item by (subst decodeLoop.simps) simp
qed

lemma decodeLoop_rest: "decodeLoop bs acc = (err, fs, rest) \<Longrightarrow> \<exists>k \<le> length bs. rest = drop k bs"
proof (induction bs acc rule: decodeLoop.induct)
  case (1 bs frames)
  show ?case
  proof (cases "length bs < HEADER_SIZE \<or> (\<forall>fn. decodeFrame bs \<noteq> Inr (Some fn))")
    case True
    then have "rest = drop 0 bs" using "1.prems"
      by (subst (asm) decodeLoop.simps) (auto split: sum.splits option.splits if_splits)
    then show ?thesis by blast
  next
    case False
    then obtain f n where d: "decodeFrame bs = Inr (Some (f, n))" "\<not> length bs < HEADER_SIZE" by auto
    have "decodeLoop (drop n bs) (frames @ [f]) = (err, fs, rest)" using "1.prems" d by (subst (asm) decodeLoop.simps) simp
    with "1.IH" [OF d(2,1) refl refl] obtain k where "k \<le> length (drop n bs)" "rest = drop k (drop n bs)" by auto
    then show ?thesis using decodeFrame_consumes [OF d(1)] by (intro exI [of _ "k + n"]) auto
  qed
qed


section \<open>The buffer\<close>

definition pending :: "FrameDecoder \<Rightarrow> byte list" where
  "pending d = take (used d) (buffer d)"

definition decoder_ok :: "FrameDecoder \<Rightarrow> bool" where
  "decoder_ok d \<longleftrightarrow> used d \<le> length (buffer d) \<and> length (buffer d) \<le> maxBufferSize d"

lemma grow_ok:
  assumes "decoder_ok d" and "used d \<le> needed" and "needed \<le> maxBufferSize d"
  shows "take (used d) (growBuffer d needed) = pending d" "needed \<le> length (growBuffer d needed)"
    "length (growBuffer d needed) \<le> maxBufferSize d"
proof (atomize(full), cases "needed > length (buffer d)")
  case True
  define cap where "cap = min (max needed (max (length (buffer d) * 2) 4096)) (maxBufferSize d)"
  have cap: "needed \<le> cap" "cap \<le> maxBufferSize d" using assms(3) by (auto simp: cap_def)
  have "growBuffer d needed = pending d @ drop (used d) (replicate cap 0)"
    using True assms(1) by (simp add: growBuffer_def cap_def [symmetric] buf_set_def pending_def decoder_ok_def min_absorb2)
  moreover have "length (pending d) = used d" using assms(1) by (simp add: pending_def decoder_ok_def)
  ultimately show "take (used d) (growBuffer d needed) = pending d \<and> needed \<le> length (growBuffer d needed) \<and>
      length (growBuffer d needed) \<le> maxBufferSize d"
    using cap assms(2) by simp
next
  case False
  then show "take (used d) (growBuffer d needed) = pending d \<and> needed \<le> length (growBuffer d needed) \<and>
      length (growBuffer d needed) \<le> maxBufferSize d"
    using assms(1) by (simp add: growBuffer_def pending_def decoder_ok_def)
qed

lemma compact_ok:
  assumes "decoder_ok d" and "k \<le> used d"
  shows "decoder_ok (compact d k) \<and> pending (compact d k) = drop k (pending d) \<and> maxBufferSize (compact d k) = maxBufferSize d"
  using assms by (auto simp: compact_def decoder_ok_def pending_def copyWithin0_def drop_take min_def)

lemma shrink_ok:
  assumes "decoder_ok d"
  shows "decoder_ok (shrinkBuffer d) \<and> pending (shrinkBuffer d) = pending d \<and> maxBufferSize (shrinkBuffer d) = maxBufferSize d"
  using assms
  by (auto simp: shrinkBuffer_def decoder_ok_def pending_def buf_set_def Let_def min_def max_def)

text \<open>The decoder on its buffer is the decoder on the bytes it has not consumed.\<close>

lemma feed_pending:
  assumes "decoder_ok d" and "used d + length data \<le> maxBufferSize d"
    and "decodeLoop (pending d @ data) [] = (err, fs, rest)"
  shows "\<exists>d'. feed d data = (d', case err of Some e \<Rightarrow> Inl e | None \<Rightarrow> Inr fs) \<and> decoder_ok d' \<and> pending d' = rest \<and>
    maxBufferSize d' = maxBufferSize d"
proof -
  let ?needed = "used d + length data"
  define d1 where "d1 = d\<lparr>buffer := buf_set (growBuffer d ?needed) data (used d), used := ?needed\<rparr>"
  note g = grow_ok [OF assms(1) le_add1 assms(2)]
  have "buffer d1 = pending d @ data @ drop ?needed (growBuffer d ?needed)" using g(1) by (simp add: d1_def buf_set_def)
  moreover have len: "length (pending d) = used d" using assms(1) by (simp add: pending_def decoder_ok_def)
  ultimately have p1: "take (used d1) (buffer d1) = pending d @ data" and ok1: "decoder_ok d1"
    using g(2,3) by (simp_all add: d1_def decoder_ok_def)
  obtain k where k: "k \<le> length (pending d @ data)" "rest = drop k (pending d @ data)"
    using decodeLoop_rest [OF assms(3)] by blast
  have off: "used d1 - length rest = k" "k \<le> used d1" using k len by (simp_all add: d1_def)
  note c = compact_ok [OF ok1 off(2)]
  have pc: "pending (compact d1 k) = rest" using c p1 k(2) by (simp add: pending_def [of d1])
  have feed: "feed d data = (case err of Some e \<Rightarrow> (compact d1 k, Inl e) | None \<Rightarrow> (shrinkBuffer (compact d1 k), Inr fs))"
    using assms(2) unfolding feed_def Let_def d1_def [symmetric] p1 assms(3) prod.case off(1) by simp
  have max1: "maxBufferSize d1 = maxBufferSize d" by (simp add: d1_def)
  show ?thesis
    using feed c pc shrink_ok [of "compact d1 k"] max1 by (cases err) auto
qed

lemma new_decoder [simp]: "decoder_ok (newFrameDecoder m)" "pending (newFrameDecoder m) = []" "maxBufferSize (newFrameDecoder m) = m"
  by (simp_all add: newFrameDecoder_def decoder_ok_def pending_def)

text \<open>Successive chunks, each handed to the decoder as it arrives; the first error ends the connection.\<close>

fun feedAll :: "FrameDecoder \<Rightarrow> byte list list \<Rightarrow> (WireError, FrameDecoder, WireFrame list) outcome" where
  "feedAll d [] = (d, Inr [])"
| "feedAll d (c # cs) =
     (case feed d c of (d1, Inl e) \<Rightarrow> (d1, Inl e)
      | (d1, Inr fs) \<Rightarrow>
          (case feedAll d1 cs of (d2, Inl e) \<Rightarrow> (d2, Inl e) | (d2, Inr gs) \<Rightarrow> (d2, Inr (fs @ gs))))"

lemma feedAll_parses:
  assumes "decoder_ok d" and "decodeFrame (pending d) = Inr None"
    and "wire.parses (pending d @ concat chunks) fs rest"
    and "\<forall>c\<in>set chunks. length c + HEADER_SIZE + MAX_PAYLOAD_SIZE \<le> maxBufferSize d"
  shows "\<exists>d'. feedAll d chunks = (d', Inr fs) \<and> decoder_ok d' \<and> pending d' = rest"
  using assms
proof (induction chunks arbitrary: d fs)
  case Nil
  then have "fs = []" "rest = pending d" using wire.parses_det [OF wire.parses.stop] by auto
  then show ?case using Nil.prems(1) by simp
next
  case (Cons c cs)
  obtain fs1 rest1 fs2 where p: "wire.parses (pending d @ c) fs1 rest1" "wire.parses (rest1 @ concat cs) fs2 rest" "fs = fs1 @ fs2"
    using wire.parses_split [of "pending d @ c" "concat cs" fs rest] Cons.prems(3) by auto
  have "length (pending d) = used d" using Cons.prems(1) by (simp add: pending_def decoder_ok_def)
  then have "used d + length c \<le> maxBufferSize d" using decode_incomplete [OF Cons.prems(2)] Cons.prems(4) by simp
  from feed_pending [OF Cons.prems(1) this decodeLoop_parses [OF p(1)]]
  obtain d1 where d1: "feed d c = (d1, Inr fs1)" "decoder_ok d1" "pending d1 = rest1" "maxBufferSize d1 = maxBufferSize d"
    by auto
  have "decodeFrame (pending d1) = Inr None" using wire.parses_rest [OF p(1)] d1(3) by simp
  then obtain d2 where "feedAll d1 cs = (d2, Inr fs2)" "decoder_ok d2" "pending d2 = rest"
    using Cons.IH [OF d1(2) _ _ _, of fs2] p(2) d1(3,4) Cons.prems(4) by auto
  then show ?case using d1(1) p(3) by simp
qed


section \<open>What the wire protocol guarantees\<close>

text \<open>
  (C24) Nothing is lost or reordered on a connection: frames that respect the payload limit, encoded one after the
  other and cut into chunks anywhere the network likes, come out of a fresh decoder exactly as they went in, and
  no byte is left over. The chunks only have to leave room for one incomplete frame in the buffer; the stream as a whole
  may be of any length.
\<close>
theorem stream_roundtrip:
  assumes "\<forall>f\<in>set fs. length (payload f) \<le> MAX_PAYLOAD_SIZE"
    and "concat chunks = concat (map encodedBytes fs)"
    and "\<forall>c\<in>set chunks. length c + HEADER_SIZE + MAX_PAYLOAD_SIZE \<le> m"
  shows "\<exists>d. feedAll (newFrameDecoder m) chunks = (d, Inr fs) \<and> bufferedBytes d = 0"
proof -
  let ?d = "newFrameDecoder m"
  have "wire.parses (pending ?d @ concat chunks) fs []"
    using wire.parses_encoded [of fs] assms(1,2) by (simp add: fits_def)
  then obtain d where "feedAll ?d chunks = (d, Inr fs)" "decoder_ok d" "pending d = []"
    using feedAll_parses [OF new_decoder(1), of m chunks fs "[]"] assms(3) wire.dec_Nil by auto
  then show ?thesis by (auto simp: bufferedBytes_def pending_def decoder_ok_def)
qed

theorem stream_roundtrip_witness:
  "\<exists>d. feedAll (newFrameDecoder DEFAULT_MAX_BUFFER)
      [[0xC0, 0xC1, 0xF0, 0, 0], [0, 2, 7, 8, 0xC0], [0xC1, 0xF1, 0, 0, 0, 0]] =
      (d, Inr [\<lparr>frameType = Ping, payload = [7, 8]\<rparr>, \<lparr>frameType = Pong, payload = []\<rparr>]) \<and> bufferedBytes d = 0"
  by (rule stream_roundtrip)
    (simp_all add: encodedBytes_fits fits_def setUint32_def HEADER_SIZE_def MAX_PAYLOAD_SIZE_def DEFAULT_MAX_BUFFER_def)

text \<open>
  (C25) The growing, compacting and shrinking buffer is invisible: a decoder holding some unconsumed bytes answers a
  chunk with the frames (or the error) that decoding those bytes followed by the chunk gives, and holds what that
  decoding leaves, in a buffer that never exceeds its bound. A chunk that does not fit is refused and
  empties the buffer.
\<close>
theorem feed_refines_decodeLoop:
  assumes "decoder_ok d" and "feed d data = (d', res)"
  shows "decoder_ok d' \<and> maxBufferSize d' = maxBufferSize d \<and>
    (if length (pending d @ data) > maxBufferSize d
     then res = Inl (BufferOverflow (length (pending d @ data)) (maxBufferSize d)) \<and> pending d' = []
     else case decodeLoop (pending d @ data) [] of
        (Some e, fs, rest) \<Rightarrow> res = Inl e \<and> pending d' = rest
      | (None, fs, rest) \<Rightarrow> res = Inr fs \<and> pending d' = rest)"
proof -
  have len: "length (pending d) = used d" using assms(1) by (simp add: pending_def decoder_ok_def)
  obtain err fs rest where loop: "decodeLoop (pending d @ data) [] = (err, fs, rest)" by (metis prod_cases3)
  show ?thesis
  proof (cases "used d + length data \<le> maxBufferSize d")
    case True
    show ?thesis using feed_pending [OF assms(1) True loop] assms(2) loop len True by (cases err) auto
  next
    case False
    then have "d' = d\<lparr>buffer := [], used := 0\<rparr>" "res = Inl (BufferOverflow (used d + length data) (maxBufferSize d))"
      using assms(2) by (auto simp: feed_def Let_def)
    then show ?thesis using False len by (simp add: decoder_ok_def pending_def)
  qed
qed

definition garbled :: "byte list" where
  "garbled = [0xFF, 0xFF, 0xF0, 0, 0, 0, 0]"

lemma decode_garbled: "decodeFrame garbled = Inl (InvalidMagic 0xFFFF)"
  by (simp add: garbled_def decodeFrame_def HEADER_SIZE_def getUint16_def WIRE_MAGIC_def)

lemma decodeLoop_garbled: "decodeLoop garbled [] = (Some (InvalidMagic 0xFFFF), [], garbled)"
  by (subst decodeLoop.simps) (simp add: decode_garbled, simp add: garbled_def HEADER_SIZE_def)

lemma length_garbled [simp]: "length garbled = 7"
  by (simp add: garbled_def)

theorem feed_refines_decodeLoop_witness:
  "decoder_ok (newFrameDecoder 64) \<and> pending (fst (feed (newFrameDecoder 64) garbled)) = garbled"
  using feed_refines_decodeLoop [OF new_decoder(1) surjective_pairing, of 64 garbled] by (simp add: decodeLoop_garbled)

text \<open>The answers of a decoder to one chunk after another, when the caller goes on after an error.\<close>

fun feedEach :: "FrameDecoder \<Rightarrow> byte list list \<Rightarrow> FrameDecoder \<times> (WireError + WireFrame list) list" where
  "feedEach d [] = (d, [])"
| "feedEach d (c # cs) = (case feed d c of (d1, r) \<Rightarrow> case feedEach d1 cs of (d2, rs) \<Rightarrow> (d2, r # rs))"

lemma decodeLoop_bad:
  assumes "decodeFrame bad = Inl e"
  shows "decodeLoop (bad @ cs) acc = (Some e, acc, bad @ cs)"
proof -
  have "\<not> length (bad @ cs) < HEADER_SIZE" using assms by (auto simp: decodeFrame_def)
  then show ?thesis using decode_error_stable [OF assms] by (subst decodeLoop.simps) simp
qed

lemma decodeLoop_frames_bad:
  assumes "decodeFrame bad = Inl e" and "\<forall>f\<in>set fs. length (payload f) \<le> MAX_PAYLOAD_SIZE"
  shows "\<exists>acc'. decodeLoop (concat (map encodedBytes fs) @ bad) acc = (Some e, acc', bad)"
  using assms(2)
proof (induction fs arbitrary: acc)
  case Nil
  then show ?case using decodeLoop_bad [OF assms(1), of "[]"] by simp
next
  case (Cons f fs)
  let ?rest = "concat (map encodedBytes fs) @ bad"
  have "decodeFrame (encodedBytes f @ ?rest) = Inr (Some (f, length (encodedBytes f)))"
    using decode_encoded Cons.prems by (simp add: fits_def)
  moreover have "\<not> length (encodedBytes f @ ?rest) < HEADER_SIZE"
    using Cons.prems by (simp add: length_encodedBytes fits_def)
  ultimately have "decodeLoop (encodedBytes f @ ?rest) acc = decodeLoop ?rest (acc @ [f])"
    by (subst decodeLoop.simps) simp
  then show ?case using Cons by simp
qed

lemma poisoned_feedEach:
  assumes "decodeFrame bad = Inl e" and "decoder_ok d" and "pending d = bad @ xs"
    and "length (bad @ xs @ concat cs) \<le> maxBufferSize d"
  shows "\<exists>d'. feedEach d cs = (d', replicate (length cs) (Inl e)) \<and> pending d' = bad @ xs @ concat cs"
  using assms(2-4)
proof (induction cs arbitrary: d xs)
  case (Cons c cs)
  have "used d = length (pending d)" using Cons.prems(1) by (simp add: pending_def decoder_ok_def)
  then have "used d = length (bad @ xs)" by (simp add: Cons.prems(2))
  then obtain d1 where d1: "feed d c = (d1, Inl e)" "decoder_ok d1" "pending d1 = bad @ xs @ c" "maxBufferSize d1 = maxBufferSize d"
    using feed_pending [OF Cons.prems(1), of c] decodeLoop_bad [OF assms(1), of "xs @ c" "[]"] Cons.prems(2,3) by fastforce
  from Cons.IH [OF d1(2,3)] show ?case
    using d1 Cons.prems(3) by auto
qed simp

text \<open>
  (C40) An ill-formed header poisons a connection and takes the frames before it along. When the unconsumed bytes and a new chunk make any
  number of complete frames followed by bytes that no header starts with, \<^verbatim>\<open>feed\<close> throws and returns none of those frames; and as
  long as the bytes kept since fit into the buffer, every later chunk throws the same error, however many there are. (A chunk that does
  not fit empties the buffer, and decoding resumes wherever the stream then is.)
\<close>
theorem malformed_header_poisons_stream:
  assumes "decoder_ok d" and "pending d @ chunk = concat (map encodedBytes fs) @ bad"
    and "\<forall>f\<in>set fs. length (payload f) \<le> MAX_PAYLOAD_SIZE" and "decodeFrame bad = Inl e"
    and "length (pending d @ chunk) \<le> maxBufferSize d" and "length (bad @ concat later) \<le> maxBufferSize d"
  shows "\<exists>d'. feedEach d (chunk # later) = (d', replicate (Suc (length later)) (Inl e)) \<and> pending d' = bad @ concat later"
proof -
  obtain acc where "decodeLoop (pending d @ chunk) [] = (Some e, acc, bad)"
    using decodeLoop_frames_bad [OF assms(4,3), of "[]"] assms(2) by auto
  moreover have "used d = length (pending d)" using assms(1) by (simp add: pending_def decoder_ok_def)
  ultimately obtain d1 where d1: "feed d chunk = (d1, Inl e)" "decoder_ok d1" "pending d1 = bad" "maxBufferSize d1 = maxBufferSize d"
    using feed_pending [OF assms(1), of chunk] assms(5) by fastforce
  then show ?thesis
    using poisoned_feedEach [OF assms(4) d1(2), of "[]" later] assms(6) by auto
qed

theorem malformed_header_poisons_stream_witness:
  "\<exists>d'. feedEach (newFrameDecoder 64)
       [encodedBytes \<lparr>frameType = Ping, payload = []\<rparr> @ encodedBytes \<lparr>frameType = Pong, payload = []\<rparr> @ garbled, [1, 2, 3], [4]] =
       (d', [Inl (InvalidMagic 0xFFFF), Inl (InvalidMagic 0xFFFF), Inl (InvalidMagic 0xFFFF)]) \<and>
     pending d' = garbled @ [1, 2, 3, 4]"
  using malformed_header_poisons_stream [OF new_decoder(1) _ _ decode_garbled, of 64, where later = "[[1, 2, 3], [4]]" and
      fs = "[\<lparr>frameType = Ping, payload = []\<rparr>, \<lparr>frameType = Pong, payload = []\<rparr>]" and
      chunk = "encodedBytes \<lparr>frameType = Ping, payload = []\<rparr> @ encodedBytes \<lparr>frameType = Pong, payload = []\<rparr> @ garbled"]
  by (simp add: length_encodedBytes fits_def HEADER_SIZE_def MAX_PAYLOAD_SIZE_def numeral_3_eq_3)

end
