(* ===== verification/Spec2Isabelle.thy ===== *)
theory Spec2Isabelle
  imports Base_Fee Chain_Exchange Fork_Choice Bft_Progress Slashing Peer_Watch Validator_Schedule Wire_Protocol Block_Selection
begin

text \<open>
  A verification of the consensus core of the palimesh node: how blocks are voted on and finalized, how a node keeps its own votes
  consistent, how misbehaviour is detected and punished, who may vote, which transactions go into a block and at which fee, how blocks are
  hashed, checked, executed and kept as a chain, how forks are compared, and how messages are framed on the wire.

  \<^bold>\<open>The parts and how they interact.\<close> The coordinator (\<^verbatim>\<open>node/src/bft-coordinator.ts\<close>) starts a round
  (\<^verbatim>\<open>node/src/bft.ts\<close>) for a proposed block, feeds it the votes of peers and broadcasts this node's own. It records its own votes
  in the ledger (\<^verbatim>\<open>node/src/bft-vote-ledger.ts\<close>) before it sends them, and reads them back after a restart. Every vote it
  receives passes the equivocation detector (\<^verbatim>\<open>node/src/bft.ts\<close>); evidence goes to the slashing handler
  (\<^verbatim>\<open>node/src/bft-slashing.ts\<close>), which takes stake in the validator governance (\<^verbatim>\<open>node/src/validator-governance.ts\<close>). The
  validator schedule (\<^verbatim>\<open>node/src/validator-set-schedule.ts\<close>) says who could propose at which height. The mempool
  (\<^verbatim>\<open>node/src/mempool.ts\<close>) collects transactions and picks those of the next block at the base fee of
  \<^verbatim>\<open>node/src/base-fee.ts\<close>. The chain engine (\<^verbatim>\<open>node/src/chain-engine.ts\<close>) proposes a block of them, checks and executes the
  blocks of others, keeps the chain with its indices, finality marks and file (\<^verbatim>\<open>node/src/storage.ts\<close>), and adopts longer chains; blocks
  are identified by the Keccak-256 hash (\<^verbatim>\<open>services/relayer/keccak256.ts\<close>) of their payload (\<^verbatim>\<open>node/src/hash.ts\<close>). Fork choice
  (\<^verbatim>\<open>node/src/fork-choice.ts\<close>) ranks competing chains. The wire protocol
  (\<^verbatim>\<open>node/src/wire-protocol.ts\<close>) frames what travels between nodes.

  \<^bold>\<open>Theories.\<close>
  \<^item> \<open>Pali_Prelude\<close>: JavaScript values as HOL values. A \<^verbatim>\<open>Map\<close> is an association list in insertion order (\<open>jget\<close>,
    \<open>jset\<close>, \<open>jdel\<close>), a \<^verbatim>\<open>Set\<close> a list without repetitions, a \<^verbatim>\<open>bigint\<close> an \<open>int\<close> with truncating division,
    a stable sort \<open>sort_key\<close>, an exception a left value of a sum.
  \<^item> \<open>Base_Fee\<close>: the EIP-1559 base fee, the blob gas price and the emission curve; bounds, monotonicity, the cap on emission and when there is none.
  \<^item> \<open>Fork_Choice\<close>: the comparison of forks as a linear ranking; the choice does not depend on the order of the candidates.
  \<^item> \<open>Chain_Types\<close>: blocks and validators.
  \<^item> \<open>Bft_Round\<close>, \<open>Bft_Progress\<close>: one round at one node. Stake-weighted quorums (locale \<open>weighted_quorum\<close>) give
    agreement on block and state root; a round that receives the votes of a quorum finalizes, whatever the order
    of arrival and whatever else arrives.
  \<^item> \<open>Equivocation\<close>: the detector; every accusation is justified, detection is complete, the store is bounded.
  \<^item> \<open>Governance\<close>, \<open>Slashing\<close>: proposals, votes and the validator set; the slash of an offence (locale
    \<open>slashable_funds\<close>) conserves funds and happens once.
  \<^item> \<open>Vote_Ledger\<close>: the durable vote record with its file; the locale \<open>durable_votes\<close> is what the coordinator relies on.
  \<^item> \<open>Coordinator\<close>: the coordinator with its timers and suspended calls; \<open>Vote_Safety\<close>: its node votes for at most one block of a
    height, through crashes too; \<open>Peer_Watch\<close>: its message buffer and its watch for states of peers it cannot reproduce.
  \<^item> \<open>Validator_Schedule\<close>: eras of validator sets and their file.
  \<^item> \<open>Wire_Protocol\<close>: frames (locale \<open>prefix_codec\<close>) and the incremental decoder, a refinement of decoding the whole stream.
  \<^item> \<open>Mempool\<close>, \<open>Block_Selection\<close>: admission, replacement, eviction (locale \<open>comparator\<close>) and the choice of a block's transactions.
  \<^item> \<open>Keccak\<close>: the hash as the code computes it, equal on every input to the permutation and sponge of the standard on 64-bit words.
  \<^item> \<open>Chain_Engine\<close>: the in-memory chain engine, the block hash and the chain file; the chain is well formed in every state
    reached while rebuilds wait for the block application under way. \<open>Chain_Exchange\<close>: rejected blocks roll back, except those refused
    for their state-root signature; proposals are accepted by nodes in sync; and four ways in which a bad signature, a partial
    snapshot, a restart and a rebuild that does not wait harm the chain.
  \<^item> This theory: what holds of coordinator, detector and slashing handler together.

  \<^bold>\<open>How the model is cut.\<close> Each method is one definition that takes the state record and returns it updated. \<^verbatim>\<open>Date.now()\<close> is
  an argument. Files are part of the state, and each write has a flag for whether it succeeds. The asynchronous methods of the
  coordinator are cut at their awaits: a suspended call is a stack of frames, and an event resumes one of them, so an
  interleaving of calls, timers and messages is a list of events. A block application of the chain engine is cut where it first waits for the
  virtual machine: its queue keeps other applications out, and the steps of the engine interleave everything else, rebuilds of the
  chain included; the engine's chain is taken not to change while a proposal is being built. Signatures, address recovery, transaction parsing, account lookups and the virtual machine are arguments, and what is assumed of them is a hypothesis of the theorem that needs it.

  \<^bold>\<open>Bounds and fuel.\<close> All functions are total; loops are structural recursions or have a termination proof, and none uses fuel. The hash masks its lanes to 64 bits, and the
  reference computes with words of that width. The other numbers are unbounded as in the code's \<^verbatim>\<open>bigint\<close>; where the code has a \<^verbatim>\<open>number\<close> the values stay below
  \<^verbatim>\<open>2^53\<close>, and frame lengths are bytes.

  \<^bold>\<open>Not modelled.\<close> Servers, sockets and gossip, the EVM and the state trie, LevelDB and the chain engine on top of it, the consensus timers, the IPFS and proof-of-service subsystems, identity
  documents, configuration, the runtime agents, contracts and user interfaces: they are input and output, third-party code, or run
  outside the node's consensus. Logging and metrics are left out everywhere. In the coordinator a broadcast does not reject and the replay of
  recorded votes is one step. The slashing percentage is an integer and the callbacks of the slashing handler and the engine do not throw; the
  virtual machine's checkpoint, revert and reset do not throw.
\<close>

section \<open>Votes, evidence and slashing together\<close>

text \<open>A vote as the coordinator of a peer hands it to its detector.\<close>

definition seenVote :: "int \<Rightarrow> BftMessage \<Rightarrow> SeenVote" where
  "seenVote now m = \<lparr>svNow = now, svValidator = senderId m, svHeight = msgHeight m, svPhase = typeName (msgType m),
     svHash = msgBlockHash m, svSignature = Some (signature m)\<rparr>"

text \<open>
  (C3) A validator that keeps to the coordinator's protocol is never accused. Take a validator that runs the coordinator, through any
  messages, timers, crashes and restarts in which its writes to the ledger succeed, the set of validators stays the same, the staleness
  floor a start or a replay works with covers what it has finalized, and no start passes its check while another waits for its
  state root; and take any peer's detector, through any votes, gossiped evidence and pruning. If the votes the peer attributes to the
  validator are votes it sent, and signatures that verify against it are signatures on votes it sent, then the peer holds no
  evidence against it.
\<close>

theorem honest_validator_never_accused:
  assumes "lives conf T H c" and "toLowerCase (coordId conf) \<in> voter_ids (coordValidators conf)" and "0 < cap" and "0 < perValidator"
    and authentic: "\<forall>x\<in>seen_votes events. toLowerCase (svValidator x) = toLowerCase (coordId conf) \<longrightarrow>
      (\<exists>m\<in>set (H @ broadcasts c). svHeight x = msgHeight m \<and> svHash x = msgBlockHash m)"
    and unforgeable: "\<forall>ph h bh s. verify (canonicalize ph h bh) s (toLowerCase (coordId conf)) \<longrightarrow>
      (\<exists>m\<in>set (H @ broadcasts c). msgHeight m = h \<and> msgBlockHash m = bh)"
  shows "\<forall>e\<in>set (evidence (detector_run canonicalize verify (newDetector tr cap perValidator) events)).
    validatorId e \<noteq> toLowerCase (coordId conf)"
proof (intro ballI notI)
  fix e
  assume e: "e \<in> set (evidence (detector_run canonicalize verify (newDetector tr cap perValidator) events))"
    and me: "validatorId e = toLowerCase (coordId conf)"
  have one: "one_hash (H @ broadcasts c)" using lives_inv [OF assms(1,2)] by (simp add: coord_inv_def vote_inv_def)
  have new: "detector_inv (newDetector tr cap perValidator)" using assms(3,4) by (rule newDetector_inv)
  moreover have "tracks_seen {} (newDetector tr cap perValidator)" "evidence (newDetector tr cap perValidator) = []"
    by (simp_all add: newDetector_def tracks_seen_def tracked_def get_or_def)
  ultimately have "accused_by_votes (seen_votes events) e \<or> accused_by_signatures canonicalize verify e"
    using detector_run_justified e by blast
  then have "\<exists>m\<in>set (H @ broadcasts c). \<exists>m'\<in>set (H @ broadcasts c). msgHeight m = evHeight e \<and> msgHeight m' = evHeight e \<and>
      msgBlockHash m = blockHash1 e \<and> msgBlockHash m' = blockHash2 e"
  proof
    assume "accused_by_votes (seen_votes events) e"
    then obtain x y where xy: "x \<in> seen_votes events" "y \<in> seen_votes events" "seen_key x = (evHeight e, evPhase e, validatorId e)"
      "seen_key y = (evHeight e, evPhase e, validatorId e)" "svHash x = blockHash1 e" "svHash y = blockHash2 e"
      unfolding accused_by_votes_def by blast
    then show ?thesis using authentic me unfolding seen_key_def prod.inject by metis
  next
    assume "accused_by_signatures canonicalize verify e"
    then show ?thesis using unforgeable me unfolding accused_by_signatures_def by metis
  qed
  then have "blockHash1 e = blockHash2 e" using one unfolding one_hash_def by metis
  moreover have "evidence_ok e"
    using detector_run_inv [OF new, of canonicalize verify events] e by (auto simp: detector_inv_def)
  ultimately show False by (simp add: evidence_ok_def)
qed

theorem honest_validator_never_accused_witness:
  "''b'' \<notin> validatorId ` set (evidence (detector_run (\<lambda>ph h bh. if h = 1 then bh else []) (\<lambda>msg s who. msg = ''0x01'' \<and> s = who)
     (newDetector 100 1000 100)
     [VoteSeen (seenVote 0 (hd (broadcasts demo_life1))), EvidenceSeen (demo_evidence ''b'' ''0x01'' ''0x02''),
      VoteSeen (seenVote 0 (last (broadcasts demo_life2)))]))"
proof -
  let ?ms = "broadcasts demo_life1 @ broadcasts demo_life2"
  let ?events = "[VoteSeen (seenVote 0 (hd (broadcasts demo_life1))), EvidenceSeen (demo_evidence ''b'' ''0x01'' ''0x02''),
      VoteSeen (seenVote 0 (last (broadcasts demo_life2)))]"
  have me: "toLowerCase (coordId demo_coord_cfg) = ''b''" by code_simp
  have "broadcasts demo_life1 \<noteq> []" "broadcasts demo_life2 \<noteq> []" using demo_runs(5,6) by force+
  then have members: "hd (broadcasts demo_life1) \<in> set ?ms" "last (broadcasts demo_life2) \<in> set ?ms" by auto
  have first: "msgHeight (hd (broadcasts demo_life1)) = 1" "msgBlockHash (hd (broadcasts demo_life1)) = ''0x01''" by code_simp+
  have "\<forall>x\<in>seen_votes ?events. toLowerCase (svValidator x) = toLowerCase (coordId demo_coord_cfg) \<longrightarrow>
      (\<exists>m\<in>set ?ms. svHeight x = msgHeight m \<and> svHash x = msgBlockHash m)"
    using members by (auto simp: seen_votes_def seenVote_def)
  moreover have "\<forall>ph h bh s. (if h = 1 then bh else []) = ''0x01'' \<and> s = toLowerCase (coordId demo_coord_cfg) \<longrightarrow>
      (\<exists>m\<in>set ?ms. msgHeight m = h \<and> msgBlockHash m = bh)"
    using members(1) first by (auto split: if_splits)
  ultimately show ?thesis
    using honest_validator_never_accused [OF demo_lives(2) demo_runs(4), of 1000 100 ?events
        "\<lambda>msg s who. msg = ''0x01'' \<and> s = who" "\<lambda>ph h bh. if h = 1 then bh else []" 100] me by auto
qed

lemma two_votes_reported:
  assumes "msgBlockHash m \<noteq> msgBlockHash m'" and "msgBlockHash m \<noteq> []" and "senderId m' = senderId m"
    and "msgHeight m' = msgHeight m" and "msgType m' = msgType m"
  shows "\<exists>ev. snd (detect_all (newDetector 100 1000 100) (map (seenVote now) [m, m'])) = [ev] \<and> validatorId ev = toLowerCase (senderId m)"
  using assms by (simp add: detect_all_def record_seen_def recordVote_def newDetector_def seenVote_def get_or_def pruneOldHeights_def
      truthy_def Let_def)

text \<open>
  (C34) What two starts that overlap cost. An idle validator for which \<open>startRound\<close> runs for two blocks of one height at once, each
  call reaching its wait for the state root before the other has recorded its vote, broadcasts a prepare for both; a peer's
  detector that sees the two reports them, and the slashing handler takes the configured share of the validator's stake, although
  the validator follows the protocol.
\<close>

theorem overlapping_starts_slashed:
  assumes "idle_for env (number b) c" and "number b' = number b" and "knownProposer c b" and "knownProposer c b'"
    and "hash b \<noteq> hash b'" and "hash b \<noteq> []"
    and "handler_ok h" and "consumedEvidence h = []" and "holding (governance h) (localKeyOf c) = Some (s, True)"
  shows "\<exists>sent ev event h'.
    broadcasts (foldl coordStep c [(env, CallStartRound b), (env, CallStartRound b'), (env, Resume 0), (env, Resume 0),
      (env, Resume 0), (env, Resume 0)]) = broadcasts c @ sent \<and>
    snd (detect_all (newDetector 100 1000 100) (map (seenVote now) sent)) = [ev] \<and>
    handleEquivocation now h ev = (h', Inr (Some event)) \<and> slashedId event = localKeyOf c \<and>
    slashedAmount event = s * slashPercent (slashConfig h) div 100"
proof -
  let ?sent = "[ownPrepare c env b, ownPrepare c env b']"
  obtain ev where ev: "snd (detect_all (newDetector 100 1000 100) (map (seenVote now) ?sent)) = [ev]" "validatorId ev = localKeyOf c"
    using two_votes_reported [of "ownPrepare c env b" "ownPrepare c env b'" now] assms(2,5,6)
    by (auto simp: ownPrepare_def ownVote_def localKeyOf_def)
  have "\<exists>event h'. handleEquivocation now h ev = (h', Inr (Some event)) \<and> slashedId event = localKeyOf c \<and>
      slashedAmount event = s * slashPercent (slashConfig h) div 100"
    using assms(7) by (cases rule: handleEquivocation_cases [of h now ev]) (use assms(8,9) ev(2) in auto)
  then show ?thesis using overlap_sends_both [OF assms(1-4)] ev(1) by blast
qed

definition demo_validator :: Coordinator where
  "demo_validator = newCoordinator 0 (demo_coord_cfg\<lparr>coordId := ''a''\<rparr>) (newVoteLedger True NoFile)"

theorem overlapping_starts_slashed_witness:
  "\<exists>sent ev event h'.
     broadcasts (foldl coordStep demo_validator [(demo_env, CallStartRound demo_block), (demo_env, CallStartRound demo_rival),
       (demo_env, Resume 0), (demo_env, Resume 0), (demo_env, Resume 0), (demo_env, Resume 0)]) = sent \<and>
     snd (detect_all (newDetector 100 1000 100) (map (seenVote 5) sent)) = [ev] \<and>
     handleEquivocation 5 demo_handler ev = (h', Inr (Some event)) \<and> slashedId event = ''a'' \<and> slashedAmount event = 200000000000000000"
proof -
  have "idle_for demo_env (number demo_block) demo_validator" "number demo_rival = number demo_block"
    "knownProposer demo_validator demo_block" "knownProposer demo_validator demo_rival" "hash demo_block \<noteq> hash demo_rival"
    "hash demo_block \<noteq> []" "consumedEvidence demo_handler = []"
    "holding (governance demo_handler) (localKeyOf demo_validator) = Some (2000000000000000005, True)"
    by code_simp+
  note slashed = overlapping_starts_slashed [OF this(1-6) demo_handler_ok this(7,8), of 5]
  have "broadcasts demo_validator = []" "localKeyOf demo_validator = ''a''" "slashPercent (slashConfig demo_handler) = 10" by code_simp+
  moreover have "(2000000000000000005 :: int) * 10 div 100 = 200000000000000000" by simp
  ultimately show ?thesis using slashed by (simp only: append_Nil)
qed

end
